(* ===== verification/JB_Prelude.thy ===== *)
theory JB_Prelude
  imports Main "HOL-Library.Word"
begin

text \<open>
  Shared ground of the development: the machine integers of the C sources, byte buffers, the
  little-endian codecs and the lemmas on lists and words that the component theories use.

  Conventions used everywhere.
  \<^item> \<open>uint8_t\<close>, \<open>uint16_t\<close>, \<open>uint32_t\<close>, \<open>uint64_t\<close> are words of that width, so arithmetic wraps
    as in C; \<open>size_t\<close> loop counters that only index a buffer are \<open>nat\<close>.
  \<^item> A pointer to readable bytes is a byte list; \<open>p + k\<close> is \<open>drop k p\<close> and \<open>p[i]\<close> is \<open>p ! i\<close>.
  \<^item> A pointer that the code compares with \<open>NULL\<close> is an \<open>option\<close>.
  \<^item> An \<open>int\<close> used as a truth value is a \<open>bool\<close>.
\<close>

unbundle bit_operations_syntax

type_synonym u8 = "8 word"
type_synonym u16 = "16 word"
type_synonym u32 = "32 word"
type_synonym u64 = "64 word"
type_synonym bytes = "8 word list"

named_theorems codec_simps "round trips and lengths of the byte codecs"
named_theorems word_nat "moving comparisons and arithmetic of words to the naturals"

section \<open>Text literals\<close>

text \<open>A C string literal as the bytes of its characters, without the terminating zero.\<close>

definition ascii :: "string \<Rightarrow> bytes" where
  "ascii s = map of_char s"

lemma ascii_Nil [simp]: "ascii [] = []"
  by (simp add: ascii_def)

lemma ascii_Cons [simp]: "ascii (c # s) = of_char c # ascii s"
  by (simp add: ascii_def)

lemma length_ascii [simp]: "length (ascii s) = length s"
  by (simp add: ascii_def)

text \<open>The characters of a character array before its terminating zero.\<close>

definition cstr :: "bytes \<Rightarrow> bytes" where
  "cstr array = takeWhile (\<lambda>c. c \<noteq> 0) array"

section \<open>Little-endian codecs\<close>

text \<open>
  The three readers are \<open>read_le16\<close>, \<open>read_le32\<close> and \<open>read_le64\<close> of the storage code; the
  writers give the bytes a packed little-endian structure has in memory.
\<close>

definition read_le16 :: "bytes \<Rightarrow> u16" where
  "read_le16 p = ucast (p ! 0) OR push_bit 8 (ucast (p ! 1))"

definition read_le32 :: "bytes \<Rightarrow> u32" where
  "read_le32 p = ucast (p ! 0)
     OR push_bit 8 (ucast (p ! 1))
     OR push_bit 16 (ucast (p ! 2))
     OR push_bit 24 (ucast (p ! 3))"

definition read_le64 :: "bytes \<Rightarrow> u64" where
  "read_le64 p = ucast (read_le32 p) OR push_bit 32 (ucast (read_le32 (drop 4 p)))"

definition le16_bytes :: "u16 \<Rightarrow> bytes" where
  "le16_bytes w = [ucast w, ucast (drop_bit 8 w)]"

definition le32_bytes :: "u32 \<Rightarrow> bytes" where
  "le32_bytes w = [ucast w, ucast (drop_bit 8 w), ucast (drop_bit 16 w), ucast (drop_bit 24 w)]"

definition le64_bytes :: "u64 \<Rightarrow> bytes" where
  "le64_bytes w = le32_bytes (ucast w) @ le32_bytes (ucast (drop_bit 32 w))"

lemma length_le16_bytes [simp, codec_simps]: "length (le16_bytes w) = 2"
  by (simp add: le16_bytes_def)

lemma length_le32_bytes [simp, codec_simps]: "length (le32_bytes w) = 4"
  by (simp add: le32_bytes_def)

lemma length_le64_bytes [simp, codec_simps]: "length (le64_bytes w) = 8"
  by (simp add: le64_bytes_def)

lemma read_le16_le16_bytes [codec_simps]: "read_le16 (le16_bytes w @ p) = w"
  by (rule bit_eqI) (auto simp: read_le16_def le16_bytes_def bit_simps nth_append)

lemma read_le32_le32_bytes [codec_simps]: "read_le32 (le32_bytes w @ p) = w"
proof (rule bit_eqI)
  fix n
  assume n: "possible_bit TYPE(u32) n"
  consider "n < 8" | "8 \<le> n" "n < 16" | "16 \<le> n" "n < 24" | "24 \<le> n" by linarith
  then show "bit (read_le32 (le32_bytes w @ p)) n = bit w n"
    using n by cases (auto simp: read_le32_def le32_bytes_def bit_simps)
qed

lemma read_le64_le64_bytes [codec_simps]: "read_le64 (le64_bytes w @ p) = w"
proof -
  have "read_le64 (le64_bytes w @ p) =
      ucast (ucast w :: u32) OR push_bit 32 (ucast (ucast (drop_bit 32 w) :: u32))"
    by (simp add: read_le64_def le64_bytes_def read_le32_le32_bytes)
  also have "\<dots> = w"
    by (rule bit_eqI) (auto simp: bit_simps)
  finally show ?thesis .
qed

lemma le32_bytes_read_le32 [codec_simps]:
  "le32_bytes (read_le32 [a, b, c, d]) = [a, b, c, d]"
  by (auto simp: le32_bytes_def read_le32_def intro!: bit_eqI)
    (auto simp: bit_simps dest: bit_imp_le_length)

text \<open>Writing back what was read gives the bytes that were read.\<close>

lemma read_le32_append [codec_simps]: "read_le32 ([a, b, c, d] @ p) = read_le32 [a, b, c, d]"
  by (simp add: read_le32_def)

lemma take_4_split:
  assumes "4 \<le> length p"
  obtains a b c d where "p = [a, b, c, d] @ drop 4 p"
proof -
  have "p = [p ! 0, p ! 1, p ! 2, p ! 3] @ drop 4 p"
    using assms by (cases p; cases "tl p"; cases "tl (tl p)"; cases "tl (tl (tl p))") auto
  then show ?thesis by (rule that)
qed

lemma le32_bytes_read_le32_take [codec_simps]:
  assumes "4 \<le> length p"
  shows "le32_bytes (read_le32 p) = take 4 p"
proof -
  obtain a b c d where p: "p = [a, b, c, d] @ drop 4 p" using assms by (rule take_4_split)
  have "le32_bytes (read_le32 p) = [a, b, c, d]"
    by (subst p) (simp only: read_le32_append le32_bytes_read_le32)
  moreover have "take 4 p = [a, b, c, d]" by (subst p) simp
  ultimately show ?thesis by simp
qed

lemma le16_bytes_read_le16_take [codec_simps]:
  assumes "2 \<le> length p"
  shows "le16_bytes (read_le16 p) = take 2 p"
proof -
  obtain a b q where p: "p = a # b # q"
    using assms by (cases p; cases "tl p") auto
  have "ucast (ucast a OR push_bit 8 (ucast b) :: u16) = a"
    by (rule bit_eqI) (auto simp: bit_simps)
  moreover have "ucast (drop_bit 8 (ucast a OR push_bit 8 (ucast b) :: u16)) = b"
    by (rule bit_eqI) (auto simp: bit_simps dest: bit_imp_le_length)
  ultimately show ?thesis
    by (simp add: le16_bytes_def read_le16_def p)
qed

lemma le64_bytes_read_le64_take [codec_simps]:
  assumes "8 \<le> length p"
  shows "le64_bytes (read_le64 p) = take 8 p"
proof -
  have "ucast (ucast x OR push_bit 32 (ucast y) :: u64) = x" for x y :: u32
    by (rule bit_eqI) (auto simp: bit_simps)
  moreover have "ucast (drop_bit 32 (ucast x OR push_bit 32 (ucast y) :: u64)) = y" for x y :: u32
    by (rule bit_eqI) (auto simp: bit_simps dest: bit_imp_le_length)
  ultimately have "le64_bytes (read_le64 p) = take 4 p @ take 4 (drop 4 p)"
    using assms by (simp add: le64_bytes_def read_le64_def le32_bytes_read_le32_take)
  also have "\<dots> = take 8 p"
    using take_add [of 4 4 p] by simp
  finally show ?thesis .
qed

lemma take_drop_join: "m = k + n \<Longrightarrow> take n (drop k p) @ drop m p = drop k p"
  using append_take_drop_id [of n "drop k p"] by (simp add: add.commute)

lemma read_le_bytes [codec_simps]:
  "read_le16 (le16_bytes h) = h" "read_le32 (le32_bytes w) = w" "read_le64 (le64_bytes d) = d"
  using read_le16_le16_bytes [of h "[]"] read_le32_le32_bytes [of w "[]"]
    read_le64_le64_bytes [of d "[]"] by simp_all

lemma read_le16_take: "2 \<le> n \<Longrightarrow> read_le16 (take n p) = read_le16 p"
  by (simp add: read_le16_def)

lemma read_le32_take: "4 \<le> n \<Longrightarrow> read_le32 (take n p) = read_le32 p"
  by (simp add: read_le32_def)

lemma read_le64_take: "8 \<le> n \<Longrightarrow> read_le64 (take n p) = read_le64 p"
  by (simp add: read_le64_def read_le32_take drop_take)

lemma length_drop_dropWhile:
  assumes "xs \<noteq> []"
  shows "length (drop 1 (dropWhile P xs)) < length xs"
proof -
  have "0 < length xs" using assms by simp
  then show ?thesis
    using length_dropWhile_le [of P xs] unfolding length_drop by linarith
qed

section \<open>Words and their values\<close>

lemma unat_inc [word_nat]: "(a :: 'a :: len word) < b \<Longrightarrow> unat (a + 1) = Suc (unat a)"
proof -
  assume "a < b"
  then have "unat a < unat b" by (simp add: word_less_nat_alt)
  moreover have "unat b < 2 ^ LENGTH('a)" by (rule unsigned_less)
  ultimately have "unat a + unat (1 :: 'a word) < 2 ^ LENGTH('a)"
    unfolding unsigned_1 by linarith
  then show ?thesis by (simp add: unat_add_lem [THEN iffD1])
qed

lemma unat_ucast_up:
  assumes "LENGTH('a :: len) \<le> LENGTH('b :: len)"
  shows "unat (ucast (w :: 'a word) :: 'b word) = unat w"
proof -
  have "unat w < 2 ^ LENGTH('a)" by (rule unsigned_less)
  also have "(2 :: nat) ^ LENGTH('a) \<le> 2 ^ LENGTH('b)" using assms by simp
  finally show ?thesis by (simp add: unsigned_ucast_eq take_bit_nat_eq_self)
qed

lemma unat_ucasts [simp, word_nat]:
  "unat (ucast (b :: u8) :: u16) = unat b" "unat (ucast (b :: u8) :: u32) = unat b"
  "unat (ucast (b :: u8) :: u64) = unat b" "unat (ucast (h :: u16) :: u32) = unat h"
  "unat (ucast (h :: u16) :: u64) = unat h" "unat (ucast (w :: u32) :: u64) = unat w"
  by (simp_all add: unat_ucast_up)

lemma ucast_eq_0_up [simp]:
  "(ucast (h :: u16) :: u32) = 0 \<longleftrightarrow> h = 0" "(ucast (w :: u32) :: u64) = 0 \<longleftrightarrow> w = 0"
  by (simp_all add: word_unat_eq_iff)

lemma ucast_unat_of_nat: "ucast (w :: 'a :: len word) = (of_nat (unat w) :: 'b :: len word)"
  by simp

lemma unat_diff_le [word_nat]: "(a :: 'a :: len word) \<le> b \<Longrightarrow> unat (b - a) = unat b - unat a"
  by (simp add: unat_sub_if' word_le_nat_alt)

lemma count_up_induct [consumes 1, case_names step]:
  fixes n :: "'a :: len word"
  assumes "n < - 1" "\<And>v. (v \<le> n \<Longrightarrow> P (v + 1)) \<Longrightarrow> P v"
  shows "P v"
proof (induction "Suc (unat n) - unat v" arbitrary: v rule: less_induct)
  case less
  show ?case
  proof (rule assms(2))
    assume "v \<le> n"
    then have "v < - 1" using assms(1) by (rule le_less_trans)
    then have "unat (v + 1) = Suc (unat v)" by (rule unat_inc)
    with \<open>v \<le> n\<close> show "P (v + 1)" by (intro less) (simp add: word_le_nat_alt)
  qed
qed

section \<open>Powers of two\<close>

lemma bit_top_of_range:
  fixes w :: "'a :: len word"
  assumes "2 ^ n \<le> unat w" "unat w < 2 ^ Suc n"
  shows "bit w n"
proof -
  have "unat w div 2 ^ n = 1" using assms by (intro div_nat_eqI) simp_all
  then have "odd (unat w div 2 ^ n)" by simp
  then have "bit (unat w) n" by (simp add: bit_iff_odd)
  then show ?thesis by (simp add: bit_simps)
qed

lemma and_dec_eq_0_power:
  fixes w :: "'a :: len word"
  assumes "w \<noteq> 0" "w AND (w - 1) = 0"
  obtains n where "n < LENGTH('a)" "unat w = 2 ^ n"
proof -
  have pos: "0 < unat w" using assms(1) by (simp add: unat_gt_0)
  define n where "n = (GREATEST k. 2 ^ k \<le> unat w)"
  have ex: "(2 :: nat) ^ 0 \<le> unat w" using pos by simp
  have bound: "k \<le> unat w" if "(2 :: nat) ^ k \<le> unat w" for k
    using that less_exp [of k] by linarith
  have le: "2 ^ n \<le> unat w" unfolding n_def by (rule GreatestI_nat [where P = "\<lambda>k. 2 ^ k \<le> unat w", OF ex bound])
  have "\<not> 2 ^ Suc n \<le> unat w"
  proof
    assume "2 ^ Suc n \<le> unat w"
    then have "Suc n \<le> n" unfolding n_def
      by (intro Greatest_le_nat [where b = "unat w"]) (use bound in \<open>auto simp: n_def\<close>)
    then show False by simp
  qed
  then have lt: "unat w < 2 ^ Suc n" by simp
  have "unat w = 2 ^ n"
  proof (rule ccontr)
    assume "unat w \<noteq> 2 ^ n"
    moreover have "unat (w - 1) = unat w - 1" using pos by (simp add: unat_sub_if')
    ultimately have "2 ^ n \<le> unat (w - 1)" "unat (w - 1) < 2 ^ Suc n" using le lt by linarith+
    then have "bit (w - 1) n" "bit w n" using bit_top_of_range le lt by blast+
    then have "bit (w AND (w - 1)) n" by (simp add: bit_and_iff)
    then show False using assms(2) by simp
  qed
  moreover have "n < LENGTH('a)"
  proof -
    have "(2 :: nat) ^ n < 2 ^ LENGTH('a)"
      using le unsigned_less [of w, where ?'a = nat] by linarith
    then show ?thesis by simp
  qed
  ultimately show ?thesis using that by blast
qed

lemma unat_and_mask:
  fixes v w :: "'a :: len word"
  assumes "unat w = 2 ^ n" "n < LENGTH('a)"
  shows "unat (v AND (w - 1)) = unat v mod unat w"
proof -
  have "w = of_nat (unat w)" by simp
  then have "w = 2 ^ n" unfolding assms(1) by simp
  then have "w - 1 = mask n" by (simp add: mask_eq_exp_minus_1)
  then have "unat (v AND (w - 1)) = take_bit n (unat v)"
    by (simp add: take_bit_eq_mask [symmetric] unsigned_take_bit_eq)
  then show ?thesis by (simp add: take_bit_eq_mod assms(1))
qed

lemma unat_not: "unat (NOT (w :: 'a :: len word)) = 2 ^ LENGTH('a) - 1 - unat w"
proof -
  have "NOT w = -1 - w" by (simp add: not_eq_complement)
  moreover have "w \<le> -1" by simp
  ultimately have "unat (NOT w) = unat (-1 :: 'a word) - unat w" by (simp add: unat_diff_le)
  then show ?thesis by (simp add: unsigned_minus_1_eq_mask mask_eq_exp_minus_1)
qed

lemma sorted_wrt_filter:
  "sorted_wrt R (filter Q xs) \<longleftrightarrow> sorted_wrt (\<lambda>x y. Q x \<and> Q y \<longrightarrow> R x y) xs"
  by (induction xs) auto

end
