(* ===== verification/JB_Crc.thy ===== *)
theory JB_Crc
  imports JB_Prelude
begin

text \<open>
  The CRC-32 routines. The repository has the reflected CRC-32 three times: \<open>crc32_bytes\<close> in
  \<open>boot/core/health.c\<close>, \<open>crc32_update\<close> in \<open>boot/core/partition.c\<close> and \<open>josh_fw_crc32\<close> in
  \<open>firmware/update.c\<close>. This theory models each, shows that they agree, that the chunked form
  computes the checksum of the concatenation, and that a change confined to four consecutive
  bytes always changes the checksum.
\<close>

section \<open>The routines\<close>

text \<open>
  \<open>partition.c\<close>: the mask is \<open>0u - (crc & 1u)\<close>, computed on unsigned words.
\<close>

fun crc32_update_bits :: "nat \<Rightarrow> u32 \<Rightarrow> u32" where
  "crc32_update_bits 0 crc = crc"
| "crc32_update_bits (Suc i) crc =
     (let mask = 0 - (crc AND 1)
      in crc32_update_bits i (drop_bit 1 crc XOR (0xEDB88320 AND mask)))"

fun crc32_update_loop :: "u32 \<Rightarrow> bytes \<Rightarrow> u32" where
  "crc32_update_loop crc [] = crc"
| "crc32_update_loop crc (d # data) =
     crc32_update_loop (crc32_update_bits 8 (crc XOR ucast d)) data"

definition crc32_update :: "u32 \<Rightarrow> bytes \<Rightarrow> nat \<Rightarrow> u32" where
  "crc32_update crc data len = NOT (crc32_update_loop (NOT crc) (take len data))"

text \<open>
  \<open>health.c\<close> and \<open>update.c\<close>: the mask is \<open>(uint32_t)-(int32_t)(crc & 1u)\<close>, a negation of a
  signed value converted back to unsigned.
\<close>

fun crc32_signed_bits :: "nat \<Rightarrow> u32 \<Rightarrow> u32" where
  "crc32_signed_bits 0 crc = crc"
| "crc32_signed_bits (Suc i) crc =
     (let mask = word_of_int (- sint (crc AND 1))
      in crc32_signed_bits i (drop_bit 1 crc XOR (0xedb88320 AND mask)))"

fun crc32_bytes_loop :: "u32 \<Rightarrow> bytes \<Rightarrow> u32" where
  "crc32_bytes_loop crc [] = crc"
| "crc32_bytes_loop crc (d # data) =
     crc32_bytes_loop (crc32_signed_bits 8 (crc XOR ucast d)) data"

definition crc32_bytes :: "bytes \<Rightarrow> nat \<Rightarrow> u32" where
  "crc32_bytes data len = NOT (crc32_bytes_loop 0xffffffff (take len data))"

definition josh_fw_crc32 :: "bytes option \<Rightarrow> nat \<Rightarrow> u32" where
  "josh_fw_crc32 data len =
     (case data of
        None \<Rightarrow> if len \<noteq> 0 then 0 else NOT 0xffffffff
      | Some bs \<Rightarrow> NOT (crc32_bytes_loop 0xffffffff (take len bs)))"

section \<open>One register step\<close>

text \<open>
  The analysis rests on the step of the shift register and on its two algebraic properties:
  it is linear over exclusive or, and it is injective because bit 31 of the polynomial is set.
\<close>

definition crc_step :: "u32 \<Rightarrow> u32" where
  "crc_step crc = drop_bit 1 crc XOR (if odd crc then 0xEDB88320 else 0)"

lemma and_one_cases: "(crc :: u32) AND 1 = (if odd crc then 1 else 0)"
  by (simp add: and_one_eq odd_iff_mod_2_eq_one)

lemma crc_mask_cases:
  "(0xEDB88320 :: u32) AND (0 - (crc AND 1)) = (if odd crc then 0xEDB88320 else 0)"
  "(0xEDB88320 :: u32) AND word_of_int (- sint (crc AND 1)) = (if odd crc then 0xEDB88320 else 0)"
  by (cases "odd crc"; simp add: and_one_cases)+

lemma crc32_update_bits_step: "crc32_update_bits n crc = (crc_step ^^ n) crc"
  by (induction n arbitrary: crc)
    (simp_all only: crc32_update_bits.simps Let_def crc_mask_cases crc_step_def [symmetric]
      funpow.simps id_apply o_apply funpow_swap1)

lemma crc32_signed_bits_step: "crc32_signed_bits n crc = (crc_step ^^ n) crc"
  by (induction n arbitrary: crc)
    (simp_all only: crc32_signed_bits.simps Let_def crc_mask_cases crc_step_def [symmetric]
      funpow.simps id_apply o_apply funpow_swap1)

lemma odd_xor: "odd ((a :: u32) XOR b) \<longleftrightarrow> odd a \<noteq> odd b"
  by (simp add: even_xor_iff)

lemma xor_cross: "((a :: u32) XOR p) XOR (b XOR q) = (a XOR b) XOR (p XOR q)"
  by (simp only: xor.assoc xor.left_commute)

lemma crc_step_xor: "crc_step (a XOR b) = crc_step a XOR crc_step b"
proof -
  have poly: "(if odd (a XOR b) then p else 0) = (if odd a then p else 0) XOR (if odd b then p else 0)"
    for p :: u32
    by (simp add: odd_xor)
  show ?thesis
    by (simp only: crc_step_def poly drop_bit_xor xor_cross)
qed

lemma crc_step_pow_xor: "(crc_step ^^ n) (a XOR b) = (crc_step ^^ n) a XOR (crc_step ^^ n) b"
  by (induction n) (simp_all add: crc_step_xor)

lemma xor_right_cancel: "(a :: u32) XOR k = b XOR k \<longleftrightarrow> a = b"
proof
  assume "a XOR k = b XOR k"
  then have "(a XOR k) XOR k = (b XOR k) XOR k" by (rule arg_cong)
  then show "a = b" by (simp only: xor.assoc xor_self_eq xor.right_neutral)
qed simp

lemma crc_step_top_bit: "bit (crc_step a) 31 \<longleftrightarrow> odd a"
  by (auto simp: crc_step_def bit_simps dest: bit_imp_le_length)

lemma crc_step_inj: "inj crc_step"
proof (rule injI)
  fix a b assume eq: "crc_step a = crc_step b"
  then have lsb: "odd a \<longleftrightarrow> odd b"
    using crc_step_top_bit by metis
  with eq have dr: "drop_bit 1 a = drop_bit 1 b"
    by (simp add: crc_step_def xor_right_cancel split: if_splits)
  show "a = b"
  proof (rule bit_eqI)
    fix n show "bit a n = bit b n"
    proof (cases n)
      case 0
      with lsb show ?thesis by (simp add: bit_0)
    next
      case (Suc m)
      have "bit (drop_bit 1 a) m = bit (drop_bit 1 b) m" by (simp only: dr)
      with Suc show ?thesis by (simp add: bit_drop_bit_eq)
    qed
  qed
qed

lemma crc_step_pow_inj: "inj (crc_step ^^ n)"
  by (rule inj_fn [OF crc_step_inj])

section \<open>The routines agree and compose\<close>

lemma crc32_loops_agree: "crc32_bytes_loop crc data = crc32_update_loop crc data"
  by (induction data arbitrary: crc)
    (simp_all add: crc32_update_bits_step crc32_signed_bits_step)

lemma crc32_update_loop_append:
  "crc32_update_loop crc (xs @ ys) = crc32_update_loop (crc32_update_loop crc xs) ys"
  by (induction xs arbitrary: crc) simp_all

lemma crc32_update_chunks:
  "crc32_update (crc32_update crc xs (length xs)) ys (length ys) =
   crc32_update crc (xs @ ys) (length (xs @ ys))"
  by (simp add: crc32_update_def crc32_update_loop_append)

lemma crc32_update_eq_bytes: "crc32_update 0 data n = crc32_bytes data n"
proof -
  have "NOT (0 :: u32) = 0xffffffff" by simp
  then show ?thesis by (simp only: crc32_update_def crc32_bytes_def crc32_loops_agree)
qed

lemma josh_fw_crc32_eq_bytes: "josh_fw_crc32 (Some data) n = crc32_bytes data n"
  by (simp add: josh_fw_crc32_def crc32_bytes_def)

section \<open>Burst detection\<close>

lemma crc_step_even: "even x \<Longrightarrow> crc_step x = drop_bit 1 x"
  by (simp add: crc_step_def)

lemma crc_step_pow_drop: "take_bit n x = 0 \<Longrightarrow> (crc_step ^^ n) x = drop_bit n x"
proof (induction n arbitrary: x)
  case 0
  then show ?case by simp
next
  case (Suc n)
  from Suc.prems have ev: "even x"
    by (metis even_take_bit_eq nat.simps(3) dvd_0_right)
  have "take_bit n (drop_bit 1 x) = drop_bit 1 (take_bit (Suc n) x)"
    by (simp add: drop_bit_take_bit)
  with Suc.prems have "take_bit n (drop_bit 1 x) = 0" by simp
  then have "(crc_step ^^ n) (drop_bit 1 x) = drop_bit (Suc n) x"
    by (simp add: Suc.IH drop_bit_drop_bit)
  with ev show ?case by (simp add: funpow_swap1 crc_step_even)
qed

lemma crc_absorb:
  assumes "take_bit 24 x = x"
  shows "(crc_step ^^ 8) (c XOR push_bit 8 x) = (crc_step ^^ 8) c XOR x"
proof -
  have "drop_bit 8 (push_bit 8 x) = take_bit 24 x"
    by (rule bit_eqI) (auto simp: bit_simps dest: bit_imp_le_length)
  moreover have "take_bit 8 (push_bit 8 x) = 0"
    by (rule bit_eqI) (auto simp: bit_simps)
  ultimately have "(crc_step ^^ 8) (push_bit 8 x) = x"
    using assms by (simp add: crc_step_pow_drop)
  then show ?thesis by (simp add: crc_step_pow_xor)
qed

lemma u8_bit_ge: "8 \<le> n \<Longrightarrow> \<not> bit (x :: u8) n"
  by (auto dest: bit_imp_le_length)

lemma read_le32_horner:
  "read_le32 [a, b, c, d] =
   ucast a XOR push_bit 8 (ucast b XOR push_bit 8 (ucast c XOR push_bit 8 (ucast d)))"
proof (rule bit_eqI)
  fix n
  assume n: "possible_bit TYPE(u32) n"
  consider "n < 8" | "8 \<le> n" "n < 16" | "16 \<le> n" "n < 24" | "24 \<le> n" by linarith
  then show "bit (read_le32 [a, b, c, d]) n =
      bit (ucast a XOR push_bit 8 (ucast b XOR push_bit 8 (ucast c XOR push_bit 8 (ucast d)) :: u32)) n"
    using n by cases (simp_all add: read_le32_def bit_simps u8_bit_ge)
qed

lemma take_bit_24_bytes:
  fixes b c d :: u8
  shows "take_bit 24 (ucast b XOR push_bit 8 (ucast c XOR push_bit 8 (ucast d)) :: u32) =
      ucast b XOR push_bit 8 (ucast c XOR push_bit 8 (ucast d))"
    and "take_bit 24 (ucast c XOR push_bit 8 (ucast d) :: u32) = ucast c XOR push_bit 8 (ucast d)"
    and "take_bit 24 (ucast d :: u32) = ucast d"
  by (rule bit_eqI; auto simp: bit_simps dest: bit_imp_le_length)+

text \<open>Four bytes are absorbed as one little-endian word and thirty-two register steps.\<close>

lemma crc32_update_loop_word:
  "crc32_update_loop s [a, b, c, d] = (crc_step ^^ 32) (s XOR read_le32 [a, b, c, d])"
proof -
  have "(crc_step ^^ 32) x =
      (crc_step ^^ 8) ((crc_step ^^ 8) ((crc_step ^^ 8) ((crc_step ^^ 8) x)))" for x
  proof -
    have "(crc_step ^^ (8 + (8 + (8 + 8)))) x =
        (crc_step ^^ 8) ((crc_step ^^ 8) ((crc_step ^^ 8) ((crc_step ^^ 8) x)))"
      by (simp only: funpow_add o_apply)
    then show ?thesis by simp
  qed
  then show ?thesis
    by (simp only: crc32_update_loop.simps crc32_update_bits_step read_le32_horner
        xor.assoc [symmetric] crc_absorb take_bit_24_bytes)
qed

lemma crc32_update_loop_inj: "inj (\<lambda>s. crc32_update_loop s data)"
proof (induction data)
  case Nil
  then show ?case by (simp add: inj_def)
next
  case (Cons d data)
  show ?case
  proof (rule injI)
    fix s t
    assume "crc32_update_loop s (d # data) = crc32_update_loop t (d # data)"
    then have "(crc_step ^^ 8) (s XOR ucast d) = (crc_step ^^ 8) (t XOR ucast d)"
      using Cons.IH by (simp add: crc32_update_bits_step inj_def)
    then have "s XOR ucast d = t XOR ucast d"
      using crc_step_pow_inj by (simp add: inj_def)
    then show "s = t" by (simp add: xor_right_cancel)
  qed
qed

lemma length_4_cases:
  assumes "length w = 4"
  obtains a b c d where "w = [a, b, c, d]"
  using assms by (auto simp: length_Suc_conv numeral_eq_Suc)

lemma crc32_update_loop_burst:
  assumes eq: "crc32_update_loop s (pre @ w @ post) = crc32_update_loop s (pre @ w' @ post)"
    and len: "length w = 4" "length w' = 4"
  shows "w = w'"
proof -
  let ?s = "crc32_update_loop s pre"
  obtain a b c d where w: "w = [a, b, c, d]" using len(1) by (rule length_4_cases)
  obtain a' b' c' d' where w': "w' = [a', b', c', d']" using len(2) by (rule length_4_cases)
  from eq have "crc32_update_loop ?s w = crc32_update_loop ?s w'"
    using crc32_update_loop_inj [of post] by (simp add: crc32_update_loop_append inj_def)
  then have "?s XOR read_le32 w = ?s XOR read_le32 w'"
    using crc_step_pow_inj [of 32] by (simp only: w w' crc32_update_loop_word) (simp only: inj_def)
  then have "read_le32 w = read_le32 w'"
    by (simp only: xor.commute [of ?s] xor_right_cancel)
  then show ?thesis by (metis w w' le32_bytes_read_le32)
qed

end
