(* ===== verification/JB_Health.thy ===== *)
theory JB_Health
  imports JB_Crc
begin

text \<open>
  The boot-health record of \<open>boot/core/health.h\<close> and \<open>boot/core/health.c\<close>: which kernel slot to
  boot, whether an update is still on trial, and how often it was tried. The record is kept in
  a packed 56-byte structure sealed with a CRC-32.

  The slot and failure-stage enumerations are unsigned 32-bit values, as in the structure: the
  code itself checks their range. Every exported function takes its record through a pointer it
  compares with \<open>NULL\<close>, so it takes an \<open>option\<close> and returns the record it leaves behind.
\<close>

section \<open>Constants and the record\<close>

definition JOSH_BOOT_HEALTH_MAGIC :: u32 where "JOSH_BOOT_HEALTH_MAGIC = 0x48424a53"
definition JOSH_BOOT_HEALTH_VERSION :: u16 where "JOSH_BOOT_HEALTH_VERSION = 1"
definition JOSH_BOOT_HEALTH_MAX_ATTEMPTS :: u32 where "JOSH_BOOT_HEALTH_MAX_ATTEMPTS = 3"

definition JOSH_BOOT_SLOT_CURRENT :: u32 where "JOSH_BOOT_SLOT_CURRENT = 0"
definition JOSH_BOOT_SLOT_PREVIOUS :: u32 where "JOSH_BOOT_SLOT_PREVIOUS = 1"
definition JOSH_BOOT_SLOT_RECOVERY :: u32 where "JOSH_BOOT_SLOT_RECOVERY = 2"

definition JOSH_BOOT_FAILURE_NONE :: u32 where "JOSH_BOOT_FAILURE_NONE = 0"
definition JOSH_BOOT_FAILURE_KERNEL_FILE :: u32 where "JOSH_BOOT_FAILURE_KERNEL_FILE = 2"
definition JOSH_BOOT_FAILURE_KERNEL :: u32 where "JOSH_BOOT_FAILURE_KERNEL = 5"
definition JOSH_BOOT_FAILURE_DESKTOP :: u32 where "JOSH_BOOT_FAILURE_DESKTOP = 7"

lemmas health_const_defs =
  JOSH_BOOT_HEALTH_MAGIC_def JOSH_BOOT_HEALTH_VERSION_def JOSH_BOOT_HEALTH_MAX_ATTEMPTS_def
  JOSH_BOOT_SLOT_CURRENT_def JOSH_BOOT_SLOT_PREVIOUS_def JOSH_BOOT_SLOT_RECOVERY_def
  JOSH_BOOT_FAILURE_NONE_def JOSH_BOOT_FAILURE_KERNEL_FILE_def JOSH_BOOT_FAILURE_KERNEL_def
  JOSH_BOOT_FAILURE_DESKTOP_def

record josh_boot_health_record =
  h_magic :: u32
  h_version :: u16
  h_size :: u16
  generation :: u64
  selected_slot :: u32
  last_good_slot :: u32
  pending_good :: u32
  attempt_count :: u32
  last_failure_stage :: u32
  reserved0 :: u32
  update_generation :: u64
  reserved1 :: u32
  h_checksum :: u32

text \<open>The packed structure in memory: its fields in order, little endian, 56 bytes.\<close>

definition health_record_bytes :: "josh_boot_health_record \<Rightarrow> bytes" where
  "health_record_bytes r =
     le32_bytes (h_magic r) @ le16_bytes (h_version r) @ le16_bytes (h_size r)
     @ le64_bytes (generation r) @ le32_bytes (selected_slot r) @ le32_bytes (last_good_slot r)
     @ le32_bytes (pending_good r) @ le32_bytes (attempt_count r)
     @ le32_bytes (last_failure_stage r) @ le32_bytes (reserved0 r)
     @ le64_bytes (update_generation r) @ le32_bytes (reserved1 r) @ le32_bytes (h_checksum r)"

definition health_record_of_bytes :: "bytes \<Rightarrow> josh_boot_health_record" where
  "health_record_of_bytes p =
     \<lparr> h_magic = read_le32 p, h_version = read_le16 (drop 4 p), h_size = read_le16 (drop 6 p),
       generation = read_le64 (drop 8 p), selected_slot = read_le32 (drop 16 p),
       last_good_slot = read_le32 (drop 20 p), pending_good = read_le32 (drop 24 p),
       attempt_count = read_le32 (drop 28 p), last_failure_stage = read_le32 (drop 32 p),
       reserved0 = read_le32 (drop 36 p), update_generation = read_le64 (drop 40 p),
       reserved1 = read_le32 (drop 48 p), h_checksum = read_le32 (drop 52 p) \<rparr>"

text \<open>\<open>sizeof\<close> and \<open>offsetof(checksum)\<close> of the packed structure.\<close>

definition health_sizeof :: nat where "health_sizeof = 56"
definition health_checksum_offset :: nat where "health_checksum_offset = 52"

section \<open>The operations of health.c\<close>

definition slot_valid :: "u32 \<Rightarrow> bool" where
  "slot_valid slot \<longleftrightarrow> slot \<le> JOSH_BOOT_SLOT_RECOVERY"

definition checksum_for :: "josh_boot_health_record \<Rightarrow> u32" where
  "checksum_for r = crc32_bytes (health_record_bytes r) health_checksum_offset"

definition josh_boot_health_seal ::
    "josh_boot_health_record option \<Rightarrow> josh_boot_health_record option" where
  "josh_boot_health_seal p =
     (case p of None \<Rightarrow> None | Some r \<Rightarrow> Some (r\<lparr>h_checksum := checksum_for r\<rparr>))"

definition josh_boot_health_default ::
    "josh_boot_health_record option \<Rightarrow> josh_boot_health_record option" where
  "josh_boot_health_default p =
     (case p of
        None \<Rightarrow> None
      | Some _ \<Rightarrow>
          let zero = health_record_of_bytes (replicate health_sizeof 0);
              r = zero\<lparr> h_magic := JOSH_BOOT_HEALTH_MAGIC,
                        h_version := JOSH_BOOT_HEALTH_VERSION,
                        h_size := of_nat health_sizeof,
                        selected_slot := JOSH_BOOT_SLOT_CURRENT,
                        last_good_slot := JOSH_BOOT_SLOT_CURRENT \<rparr>
          in josh_boot_health_seal (Some r))"

definition josh_boot_health_valid :: "josh_boot_health_record option \<Rightarrow> bool" where
  "josh_boot_health_valid p =
     (case p of
        None \<Rightarrow> False
      | Some r \<Rightarrow>
          if h_magic r \<noteq> JOSH_BOOT_HEALTH_MAGIC \<or> h_version r \<noteq> JOSH_BOOT_HEALTH_VERSION
             \<or> h_size r \<noteq> of_nat health_sizeof \<or> \<not> slot_valid (selected_slot r)
             \<or> \<not> slot_valid (last_good_slot r) \<or> pending_good r > 1
             \<or> last_failure_stage r > JOSH_BOOT_FAILURE_DESKTOP
          then False
          else h_checksum r = checksum_for r)"

definition josh_boot_health_choose ::
    "josh_boot_health_record option \<Rightarrow> josh_boot_health_record option
     \<Rightarrow> josh_boot_health_record option \<Rightarrow> bool \<times> josh_boot_health_record option" where
  "josh_boot_health_choose a b out =
     (case out of
        None \<Rightarrow> (False, None)
      | Some _ \<Rightarrow>
          let a_valid = josh_boot_health_valid a; b_valid = josh_boot_health_valid b in
          if \<not> a_valid \<and> \<not> b_valid then (False, josh_boot_health_default out)
          else (True,
            if a_valid \<and> (\<not> b_valid \<or> generation (the a) \<ge> generation (the b)) then a else b))"

definition josh_boot_health_begin_update ::
    "josh_boot_health_record option \<Rightarrow> u32 \<Rightarrow> bool \<times> josh_boot_health_record option" where
  "josh_boot_health_begin_update p candidate =
     (if \<not> josh_boot_health_valid p \<or> \<not> slot_valid candidate
         \<or> candidate = JOSH_BOOT_SLOT_RECOVERY
      then (False, p)
      else let r = the p;
               r' = r\<lparr> generation := generation r + 1,
                       update_generation := update_generation r + 1,
                       selected_slot := candidate, pending_good := 1, attempt_count := 0,
                       last_failure_stage := JOSH_BOOT_FAILURE_NONE \<rparr>
           in (True, josh_boot_health_seal (Some r')))"

definition josh_boot_health_prepare_attempt ::
    "josh_boot_health_record option \<Rightarrow> u32 \<Rightarrow> u32 \<times> josh_boot_health_record option" where
  "josh_boot_health_prepare_attempt p max_attempts0 =
     (if \<not> josh_boot_health_valid p then (JOSH_BOOT_SLOT_RECOVERY, p)
      else
        let max_attempts =
              (if max_attempts0 = 0 then JOSH_BOOT_HEALTH_MAX_ATTEMPTS else max_attempts0);
            r = the p in
        if pending_good r \<noteq> 0 then
          let r1 = r\<lparr> generation := generation r + 1 \<rparr>;
              r2 = (if attempt_count r1 \<ge> max_attempts
                    then r1\<lparr> selected_slot :=
                               (if last_good_slot r1 \<noteq> selected_slot r1 then last_good_slot r1
                                else JOSH_BOOT_SLOT_RECOVERY),
                             pending_good := 0, attempt_count := 0,
                             last_failure_stage := JOSH_BOOT_FAILURE_KERNEL \<rparr>
                    else r1\<lparr> attempt_count := attempt_count r1 + 1 \<rparr>)
          in (selected_slot r2, josh_boot_health_seal (Some r2))
        else (selected_slot r, p))"

definition josh_boot_health_mark_good ::
    "josh_boot_health_record option \<Rightarrow> u32 \<Rightarrow> bool \<times> josh_boot_health_record option" where
  "josh_boot_health_mark_good p slot =
     (if \<not> josh_boot_health_valid p \<or> \<not> slot_valid slot then (False, p)
      else let r = the p;
               r' = r\<lparr> generation := generation r + 1, selected_slot := slot,
                       last_good_slot := slot, pending_good := 0, attempt_count := 0,
                       last_failure_stage := JOSH_BOOT_FAILURE_NONE \<rparr>
           in (True, josh_boot_health_seal (Some r')))"

definition josh_boot_health_note_failure ::
    "josh_boot_health_record option \<Rightarrow> u32 \<Rightarrow> josh_boot_health_record option" where
  "josh_boot_health_note_failure p stage =
     (if \<not> josh_boot_health_valid p \<or> stage > JOSH_BOOT_FAILURE_DESKTOP then p
      else let r = the p;
               r' = r\<lparr> generation := generation r + 1, last_failure_stage := stage \<rparr>
           in josh_boot_health_seal (Some r'))"

definition josh_boot_health_select_fallback ::
    "josh_boot_health_record option \<Rightarrow> u32 \<Rightarrow> u32 \<Rightarrow> bool \<times> josh_boot_health_record option" where
  "josh_boot_health_select_fallback p slot stage =
     (if \<not> josh_boot_health_valid p \<or> \<not> slot_valid slot \<or> stage > JOSH_BOOT_FAILURE_DESKTOP
      then (False, p)
      else let r = the p;
               r' = r\<lparr> generation := generation r + 1, selected_slot := slot,
                       pending_good := 0, attempt_count := 0, last_failure_stage := stage \<rparr>
           in (True, josh_boot_health_seal (Some r')))"

section \<open>The stored form\<close>

definition health_body :: "josh_boot_health_record \<Rightarrow> bytes" where
  "health_body r =
     le32_bytes (h_magic r) @ le16_bytes (h_version r) @ le16_bytes (h_size r)
     @ le64_bytes (generation r) @ le32_bytes (selected_slot r) @ le32_bytes (last_good_slot r)
     @ le32_bytes (pending_good r) @ le32_bytes (attempt_count r)
     @ le32_bytes (last_failure_stage r) @ le32_bytes (reserved0 r)
     @ le64_bytes (update_generation r) @ le32_bytes (reserved1 r)"

lemma health_record_bytes_split:
  "health_record_bytes r = health_body r @ le32_bytes (h_checksum r)"
  by (simp add: health_record_bytes_def health_body_def)

lemma length_health_body [simp]: "length (health_body r) = 52"
  by (simp add: health_body_def)

lemma length_health_record_bytes [simp]: "length (health_record_bytes r) = health_sizeof"
  by (simp add: health_record_bytes_split health_sizeof_def)

lemma checksum_for_body: "checksum_for r = crc32_bytes (health_body r) 52"
  by (simp add: checksum_for_def health_record_bytes_split health_checksum_offset_def
      crc32_bytes_def)

lemma health_body_seal [simp]: "health_body (r\<lparr>h_checksum := c\<rparr>) = health_body r"
  by (simp add: health_body_def)

lemma checksum_for_seal [simp]: "checksum_for (r\<lparr>h_checksum := c\<rparr>) = checksum_for r"
  by (simp add: checksum_for_body)

lemma health_record_decode: "health_record_of_bytes (health_record_bytes r) = r"
  by (simp add: health_record_of_bytes_def health_record_bytes_def codec_simps)

lemma health_record_encode:
  assumes "length p = health_sizeof"
  shows "health_record_bytes (health_record_of_bytes p) = p"
proof -
  have "health_record_bytes (health_record_of_bytes p) =
      take 4 p @ take 2 (drop 4 p) @ take 2 (drop 6 p) @ take 8 (drop 8 p) @ take 4 (drop 16 p)
      @ take 4 (drop 20 p) @ take 4 (drop 24 p) @ take 4 (drop 28 p) @ take 4 (drop 32 p)
      @ take 4 (drop 36 p) @ take 8 (drop 40 p) @ take 4 (drop 48 p) @ drop 52 p"
    using assms
    by (simp add: health_record_bytes_def health_record_of_bytes_def codec_simps health_sizeof_def)
  also have "\<dots> = p"
    by (simp add: take_drop_join)
  finally show ?thesis .
qed

section \<open>Well-formed records\<close>

text \<open>
  \<open>health_fields_ok\<close> is the part of the validity check that looks at the fields; a record is
  valid when its fields are in range and its checksum is the one of its body.
\<close>

definition health_fields_ok :: "josh_boot_health_record \<Rightarrow> bool" where
  "health_fields_ok r \<longleftrightarrow>
     h_magic r = JOSH_BOOT_HEALTH_MAGIC \<and> h_version r = JOSH_BOOT_HEALTH_VERSION
     \<and> h_size r = of_nat health_sizeof \<and> slot_valid (selected_slot r)
     \<and> slot_valid (last_good_slot r) \<and> pending_good r \<le> 1
     \<and> last_failure_stage r \<le> JOSH_BOOT_FAILURE_DESKTOP"

definition health_seal :: "josh_boot_health_record \<Rightarrow> josh_boot_health_record" where
  "health_seal r = r\<lparr>h_checksum := checksum_for r\<rparr>"

lemma josh_boot_health_seal_Some [simp]: "josh_boot_health_seal (Some r) = Some (health_seal r)"
  by (simp add: josh_boot_health_seal_def health_seal_def)

lemma health_valid_None [simp]: "\<not> josh_boot_health_valid None"
  by (simp add: josh_boot_health_valid_def)

lemma health_valid_iff:
  "josh_boot_health_valid (Some r) \<longleftrightarrow> health_fields_ok r \<and> h_checksum r = checksum_for r"
  by (auto simp: josh_boot_health_valid_def health_fields_ok_def)

lemma health_seal_fields [simp]:
  "h_magic (health_seal r) = h_magic r" "h_version (health_seal r) = h_version r"
  "h_size (health_seal r) = h_size r" "generation (health_seal r) = generation r"
  "selected_slot (health_seal r) = selected_slot r"
  "last_good_slot (health_seal r) = last_good_slot r"
  "pending_good (health_seal r) = pending_good r"
  "attempt_count (health_seal r) = attempt_count r"
  "last_failure_stage (health_seal r) = last_failure_stage r"
  "reserved0 (health_seal r) = reserved0 r" "reserved1 (health_seal r) = reserved1 r"
  "update_generation (health_seal r) = update_generation r"
  by (simp_all add: health_seal_def)

lemma health_seal_valid [simp]: "josh_boot_health_valid (Some (health_seal r)) = health_fields_ok r"
  by (simp add: health_valid_iff health_fields_ok_def health_seal_def)

lemma health_valid_fields: "josh_boot_health_valid (Some r) \<Longrightarrow> health_fields_ok r"
  by (simp add: health_valid_iff)

lemma slot_valid_consts [simp]:
  "slot_valid JOSH_BOOT_SLOT_CURRENT" "slot_valid JOSH_BOOT_SLOT_PREVIOUS"
  "slot_valid JOSH_BOOT_SLOT_RECOVERY"
  by (simp_all add: slot_valid_def health_const_defs)

lemma slot_consts_distinct [simp]:
  "JOSH_BOOT_SLOT_CURRENT \<noteq> JOSH_BOOT_SLOT_PREVIOUS"
  "JOSH_BOOT_SLOT_PREVIOUS \<noteq> JOSH_BOOT_SLOT_CURRENT"
  "JOSH_BOOT_SLOT_CURRENT \<noteq> JOSH_BOOT_SLOT_RECOVERY"
  "JOSH_BOOT_SLOT_RECOVERY \<noteq> JOSH_BOOT_SLOT_CURRENT"
  "JOSH_BOOT_SLOT_PREVIOUS \<noteq> JOSH_BOOT_SLOT_RECOVERY"
  "JOSH_BOOT_SLOT_RECOVERY \<noteq> JOSH_BOOT_SLOT_PREVIOUS"
  by (simp_all add: health_const_defs)

lemma failure_consts_ok [simp]:
  "JOSH_BOOT_FAILURE_NONE \<le> JOSH_BOOT_FAILURE_DESKTOP"
  "JOSH_BOOT_FAILURE_KERNEL \<le> JOSH_BOOT_FAILURE_DESKTOP"
  "JOSH_BOOT_FAILURE_KERNEL_FILE \<le> JOSH_BOOT_FAILURE_DESKTOP"
  by (simp_all add: health_const_defs)

lemma slot_valid_cases:
  "slot_valid s \<longleftrightarrow>
     s = JOSH_BOOT_SLOT_CURRENT \<or> s = JOSH_BOOT_SLOT_PREVIOUS \<or> s = JOSH_BOOT_SLOT_RECOVERY"
proof -
  have "s \<le> 2 \<longleftrightarrow> unat s \<le> 2" by (simp add: word_le_nat_alt)
  also have "\<dots> \<longleftrightarrow> unat s = 0 \<or> unat s = 1 \<or> unat s = 2" by linarith
  also have "\<dots> \<longleftrightarrow> s = 0 \<or> s = 1 \<or> s = 2"
    by (simp add: word_unat_eq_iff)
  finally show ?thesis by (simp add: slot_valid_def health_const_defs)
qed

section \<open>What each operation does\<close>

definition default_record :: josh_boot_health_record where
  "default_record =
     health_seal \<lparr> h_magic = JOSH_BOOT_HEALTH_MAGIC, h_version = JOSH_BOOT_HEALTH_VERSION,
       h_size = of_nat health_sizeof, generation = 0, selected_slot = JOSH_BOOT_SLOT_CURRENT,
       last_good_slot = JOSH_BOOT_SLOT_CURRENT, pending_good = 0, attempt_count = 0,
       last_failure_stage = 0, reserved0 = 0, update_generation = 0, reserved1 = 0,
       h_checksum = 0 \<rparr>"

lemma health_default_Some [simp]: "josh_boot_health_default (Some r) = Some default_record"
  by (simp add: josh_boot_health_default_def default_record_def health_record_of_bytes_def
      health_sizeof_def read_le16_def read_le32_def read_le64_def)

lemma default_record_valid [simp]: "josh_boot_health_valid (Some default_record)"
  by (simp add: default_record_def health_fields_ok_def slot_valid_def health_const_defs)

lemma begin_update_ok:
  assumes "josh_boot_health_valid (Some r)" "slot_valid c" "c \<noteq> JOSH_BOOT_SLOT_RECOVERY"
  shows "josh_boot_health_begin_update (Some r) c =
    (True, Some (health_seal (r\<lparr> generation := generation r + 1,
       update_generation := update_generation r + 1, selected_slot := c, pending_good := 1,
       attempt_count := 0, last_failure_stage := JOSH_BOOT_FAILURE_NONE \<rparr>)))"
  using assms by (simp add: josh_boot_health_begin_update_def)

lemma mark_good_ok:
  assumes "josh_boot_health_valid (Some r)" "slot_valid s"
  shows "josh_boot_health_mark_good (Some r) s =
    (True, Some (health_seal (r\<lparr> generation := generation r + 1, selected_slot := s,
       last_good_slot := s, pending_good := 0, attempt_count := 0,
       last_failure_stage := JOSH_BOOT_FAILURE_NONE \<rparr>)))"
  using assms by (simp add: josh_boot_health_mark_good_def)

lemma select_fallback_ok:
  assumes "josh_boot_health_valid (Some r)" "slot_valid s" "g \<le> JOSH_BOOT_FAILURE_DESKTOP"
  shows "josh_boot_health_select_fallback (Some r) s g =
    (True, Some (health_seal (r\<lparr> generation := generation r + 1, selected_slot := s,
       pending_good := 0, attempt_count := 0, last_failure_stage := g \<rparr>)))"
  using assms by (simp add: josh_boot_health_select_fallback_def not_less)

lemma note_failure_ok:
  assumes "josh_boot_health_valid (Some r)" "g \<le> JOSH_BOOT_FAILURE_DESKTOP"
  shows "josh_boot_health_note_failure (Some r) g =
    Some (health_seal (r\<lparr> generation := generation r + 1, last_failure_stage := g \<rparr>))"
  using assms by (simp add: josh_boot_health_note_failure_def not_less)

definition effective_max :: "u32 \<Rightarrow> u32" where
  "effective_max m = (if m = 0 then JOSH_BOOT_HEALTH_MAX_ATTEMPTS else m)"

definition rollback_slot :: "josh_boot_health_record \<Rightarrow> u32" where
  "rollback_slot r =
     (if last_good_slot r \<noteq> selected_slot r then last_good_slot r else JOSH_BOOT_SLOT_RECOVERY)"

lemma prepare_attempt_idle:
  assumes "josh_boot_health_valid (Some r)" "pending_good r = 0"
  shows "josh_boot_health_prepare_attempt (Some r) m = (selected_slot r, Some r)"
  using assms by (simp add: josh_boot_health_prepare_attempt_def)

lemma prepare_attempt_try:
  assumes "josh_boot_health_valid (Some r)" "pending_good r \<noteq> 0"
    and "attempt_count r < effective_max m"
  shows "josh_boot_health_prepare_attempt (Some r) m =
    (selected_slot r, Some (health_seal (r\<lparr> generation := generation r + 1,
       attempt_count := attempt_count r + 1 \<rparr>)))"
  using assms by (auto simp: josh_boot_health_prepare_attempt_def effective_max_def Let_def)

lemma prepare_attempt_rollback:
  assumes "josh_boot_health_valid (Some r)" "pending_good r \<noteq> 0"
    and "effective_max m \<le> attempt_count r"
  shows "josh_boot_health_prepare_attempt (Some r) m =
    (rollback_slot r, Some (health_seal (r\<lparr> generation := generation r + 1,
       selected_slot := rollback_slot r, pending_good := 0, attempt_count := 0,
       last_failure_stage := JOSH_BOOT_FAILURE_KERNEL \<rparr>)))"
  using assms
  by (auto simp: josh_boot_health_prepare_attempt_def effective_max_def rollback_slot_def Let_def)

lemma rollback_slot_valid: "health_fields_ok r \<Longrightarrow> slot_valid (rollback_slot r)"
  by (simp add: rollback_slot_def health_fields_ok_def)

lemmas health_op_ok =
  begin_update_ok mark_good_ok select_fallback_ok note_failure_ok

section \<open>Operations that write the record\<close>

text \<open>
  Every operation that writes the record does so under one contract: it keeps the record valid
  and moves the generation counter by exactly one. The two-copy store relies on nothing else.
\<close>

locale health_transition =
  fixes op :: "josh_boot_health_record \<Rightarrow> josh_boot_health_record option"
  assumes op_valid:
      "josh_boot_health_valid (Some r) \<Longrightarrow> op r = Some r' \<Longrightarrow> josh_boot_health_valid (Some r')"
    and op_generation:
      "josh_boot_health_valid (Some r) \<Longrightarrow> op r = Some r' \<Longrightarrow> generation r' = generation r + 1"
begin

lemma op_parity:
  assumes "josh_boot_health_valid (Some r)" "op r = Some r'"
  shows "even (generation r') \<longleftrightarrow> odd (generation r)"
  using op_generation [OF assms] by simp

lemma op_changes_generation:
  assumes "josh_boot_health_valid (Some r)" "op r = Some r'"
  shows "generation r' \<noteq> generation r"
  using op_parity [OF assms] by auto

lemma op_newer:
  assumes "josh_boot_health_valid (Some r)" "op r = Some r'" "generation r \<noteq> - 1"
  shows "generation r < generation r'"
  using op_generation [OF assms(1,2)] assms(3)
  by (simp add: inc_less_eq_self_iff_eq flip: linorder_not_le)

end

text \<open>The committed result of an operation that reports success as a truth value.\<close>

definition committed :: "bool \<times> josh_boot_health_record option \<Rightarrow> josh_boot_health_record option" where
  "committed res = (if fst res then snd res else None)"

lemma begin_update_result:
  assumes "committed (josh_boot_health_begin_update (Some r) c) = Some r'"
  shows "josh_boot_health_valid (Some r)" "slot_valid c" "c \<noteq> JOSH_BOOT_SLOT_RECOVERY"
    and "r' = health_seal (r\<lparr> generation := generation r + 1,
       update_generation := update_generation r + 1, selected_slot := c, pending_good := 1,
       attempt_count := 0, last_failure_stage := JOSH_BOOT_FAILURE_NONE \<rparr>)"
  using assms
  by (auto simp: committed_def josh_boot_health_begin_update_def split: if_splits)

lemma mark_good_result:
  assumes "committed (josh_boot_health_mark_good (Some r) s) = Some r'"
  shows "josh_boot_health_valid (Some r)" "slot_valid s"
    and "r' = health_seal (r\<lparr> generation := generation r + 1, selected_slot := s,
       last_good_slot := s, pending_good := 0, attempt_count := 0,
       last_failure_stage := JOSH_BOOT_FAILURE_NONE \<rparr>)"
  using assms by (auto simp: committed_def josh_boot_health_mark_good_def split: if_splits)

lemma select_fallback_result:
  assumes "committed (josh_boot_health_select_fallback (Some r) s g) = Some r'"
  shows "josh_boot_health_valid (Some r)" "slot_valid s" "g \<le> JOSH_BOOT_FAILURE_DESKTOP"
    and "r' = health_seal (r\<lparr> generation := generation r + 1, selected_slot := s,
       pending_good := 0, attempt_count := 0, last_failure_stage := g \<rparr>)"
  using assms
  by (auto simp: committed_def josh_boot_health_select_fallback_def not_less split: if_splits)

text \<open>\<open>note_failure\<close> and \<open>prepare_attempt\<close> do not report whether they wrote; the guards say when.\<close>

definition noted_failure :: "u32 \<Rightarrow> josh_boot_health_record \<Rightarrow> josh_boot_health_record option" where
  "noted_failure g r =
     (if g \<le> JOSH_BOOT_FAILURE_DESKTOP then josh_boot_health_note_failure (Some r) g else None)"

definition counted_attempt :: "u32 \<Rightarrow> josh_boot_health_record \<Rightarrow> josh_boot_health_record option" where
  "counted_attempt m r =
     (if pending_good r \<noteq> 0 then snd (josh_boot_health_prepare_attempt (Some r) m) else None)"

lemma prepare_attempt_pending:
  assumes "josh_boot_health_valid (Some r)" "pending_good r \<noteq> 0"
  shows "josh_boot_health_prepare_attempt (Some r) m =
    (if attempt_count r < effective_max m
     then (selected_slot r, Some (health_seal (r\<lparr> generation := generation r + 1,
             attempt_count := attempt_count r + 1 \<rparr>)))
     else (rollback_slot r, Some (health_seal (r\<lparr> generation := generation r + 1,
             selected_slot := rollback_slot r, pending_good := 0, attempt_count := 0,
             last_failure_stage := JOSH_BOOT_FAILURE_KERNEL \<rparr>))))"
  using prepare_attempt_try [OF assms] prepare_attempt_rollback [OF assms]
  by (simp add: not_less)

interpretation begin_tr: health_transition
  "\<lambda>r. committed (josh_boot_health_begin_update (Some r) c)" for c
  by unfold_locales
    (frule begin_update_result(2), drule begin_update_result(4), drule health_valid_fields,
      simp add: health_fields_ok_def, drule begin_update_result(4), simp)

interpretation good_tr: health_transition
  "\<lambda>r. committed (josh_boot_health_mark_good (Some r) s)" for s
  by unfold_locales
    (frule mark_good_result(2), drule mark_good_result(3), drule health_valid_fields,
      simp add: health_fields_ok_def, drule mark_good_result(3), simp)

interpretation fallback_tr: health_transition
  "\<lambda>r. committed (josh_boot_health_select_fallback (Some r) s g)" for s g
  by unfold_locales
    (frule select_fallback_result(2), frule select_fallback_result(3),
      drule select_fallback_result(4), drule health_valid_fields,
      simp add: health_fields_ok_def, drule select_fallback_result(4), simp)

interpretation failure_tr: health_transition "noted_failure g" for g
  by unfold_locales
    (auto simp: noted_failure_def note_failure_ok health_fields_ok_def
      dest: health_valid_fields split: if_splits)

interpretation attempt_tr: health_transition "counted_attempt m" for m
  by unfold_locales
    (auto simp: counted_attempt_def prepare_attempt_pending health_fields_ok_def
      rollback_slot_valid dest: health_valid_fields split: if_splits)

section \<open>The life of a record\<close>

text \<open>
  The steps the loaders and the tool can take on a stored record, for a fixed attempt limit:
  both loaders pass \<open>JOSH_BOOT_HEALTH_MAX_ATTEMPTS\<close> every time.
\<close>

inductive health_step :: "u32 \<Rightarrow> josh_boot_health_record \<Rightarrow> josh_boot_health_record \<Rightarrow> bool" where
  step_begin: "josh_boot_health_begin_update (Some r) c = (True, Some r') \<Longrightarrow> health_step m r r'"
| step_attempt: "josh_boot_health_prepare_attempt (Some r) m = (s, Some r') \<Longrightarrow> health_step m r r'"
| step_good: "josh_boot_health_mark_good (Some r) s = (True, Some r') \<Longrightarrow> health_step m r r'"
| step_failure: "josh_boot_health_note_failure (Some r) g = Some r' \<Longrightarrow> health_step m r r'"
| step_fallback:
    "josh_boot_health_select_fallback (Some r) s g = (True, Some r') \<Longrightarrow> health_step m r r'"

inductive health_reachable :: "u32 \<Rightarrow> josh_boot_health_record \<Rightarrow> bool" where
  reach_default: "health_reachable m default_record"
| reach_step: "health_reachable m r \<Longrightarrow> health_step m r r' \<Longrightarrow> health_reachable m r'"

definition health_inv :: "u32 \<Rightarrow> josh_boot_health_record \<Rightarrow> bool" where
  "health_inv m r \<longleftrightarrow>
     josh_boot_health_valid (Some r)
     \<and> (pending_good r = 0 \<longrightarrow> attempt_count r = 0)
     \<and> (pending_good r \<noteq> 0 \<longrightarrow> selected_slot r \<noteq> JOSH_BOOT_SLOT_RECOVERY)
     \<and> attempt_count r \<le> effective_max m
     \<and> reserved0 r = 0 \<and> reserved1 r = 0"

lemma health_inv_default: "health_inv m default_record"
  by (simp add: health_inv_def) (simp add: default_record_def)

lemma prepare_attempt_inv:
  assumes inv: "health_inv m r"
    and eq: "josh_boot_health_prepare_attempt (Some r) m = (s, Some r')"
  shows "health_inv m r'"
proof (cases "pending_good r = 0")
  case True
  with inv eq show ?thesis by (simp add: health_inv_def prepare_attempt_idle)
next
  case False
  from inv have v: "josh_boot_health_valid (Some r)" by (simp add: health_inv_def)
  with False eq have "counted_attempt m r = Some r'"
    by (simp add: counted_attempt_def)
  with v have "josh_boot_health_valid (Some r')" by (rule attempt_tr.op_valid)
  moreover have "attempt_count r < M \<Longrightarrow> attempt_count r + 1 \<le> M" for M
    by (rule inc_le)
  ultimately show ?thesis
    using inv eq False prepare_attempt_pending [OF v False, of m]
    by (auto simp: health_inv_def split: if_splits)
qed

lemma health_step_inv:
  assumes "health_step m r r'" and inv: "health_inv m r"
  shows "health_inv m r'"
  using assms(1)
proof cases
  case (step_begin c)
  then have c: "committed (josh_boot_health_begin_update (Some r) c) = Some r'"
    by (simp add: committed_def)
  from inv have v: "josh_boot_health_valid (Some r)" by (simp add: health_inv_def)
  show ?thesis
    using begin_tr.op_valid [OF v c] begin_update_result(3,4) [OF c] inv
    by (auto simp: health_inv_def)
next
  case (step_attempt s)
  with inv show ?thesis by (blast intro: prepare_attempt_inv)
next
  case (step_good s)
  then have c: "committed (josh_boot_health_mark_good (Some r) s) = Some r'"
    by (simp add: committed_def)
  from inv have v: "josh_boot_health_valid (Some r)" by (simp add: health_inv_def)
  show ?thesis
    using good_tr.op_valid [OF v c] mark_good_result(3) [OF c] inv by (auto simp: health_inv_def)
next
  case (step_failure g)
  from inv have v: "josh_boot_health_valid (Some r)" by (simp add: health_inv_def)
  show ?thesis
  proof (cases "g \<le> JOSH_BOOT_FAILURE_DESKTOP")
    case True
    with step_failure have "noted_failure g r = Some r'" by (simp add: noted_failure_def)
    from failure_tr.op_valid [OF v this] show ?thesis
      using inv step_failure note_failure_ok [OF v True] by (auto simp: health_inv_def)
  next
    case False
    with step_failure inv show ?thesis
      by (simp add: josh_boot_health_note_failure_def not_le)
  qed
next
  case (step_fallback s g)
  then have c: "committed (josh_boot_health_select_fallback (Some r) s g) = Some r'"
    by (simp add: committed_def)
  from inv have v: "josh_boot_health_valid (Some r)" by (simp add: health_inv_def)
  show ?thesis
    using fallback_tr.op_valid [OF v c] select_fallback_result(4) [OF c] inv
    by (auto simp: health_inv_def)
qed

text \<open>
  C14. In every state the loaders and the tool can bring a record to, it is valid; no attempt is
  counted unless an update is on trial; an update on trial never points at the recovery slot; and
  the attempt counter never passes the attempt limit.
\<close>

theorem health_reachable_inv: "health_reachable m r \<Longrightarrow> health_inv m r"
  by (induction rule: health_reachable.induct) (blast intro: health_inv_default health_step_inv)+

theorem health_reachable_inv_witness:
  "\<exists>r. health_reachable 3 r \<and> pending_good r = 1 \<and> attempt_count r = 1 \<and> health_inv 3 r"
proof -
  let ?d = "default_record"
  obtain r1 where b: "josh_boot_health_begin_update (Some ?d) JOSH_BOOT_SLOT_PREVIOUS = (True, Some r1)"
    and r1: "pending_good r1 = 1" "attempt_count r1 = 0"
    using begin_update_ok [of ?d JOSH_BOOT_SLOT_PREVIOUS] by simp
  have v1: "josh_boot_health_valid (Some r1)"
    using begin_tr.op_valid [of ?d JOSH_BOOT_SLOT_PREVIOUS r1] b by (simp add: committed_def)
  obtain s r2 where a: "josh_boot_health_prepare_attempt (Some r1) 3 = (s, Some r2)"
    and r2: "pending_good r2 = 1" "attempt_count r2 = 1"
    using prepare_attempt_pending [OF v1, of 3] r1 by (simp add: effective_max_def)
  have "health_reachable 3 r2"
    by (rule reach_step [OF reach_step [OF reach_default step_begin [OF b]] step_attempt [OF a]])
  with r2 show ?thesis using health_reachable_inv by blast
qed

section \<open>A trial that never succeeds is rolled back\<close>

text \<open>Successive boots: the slot each one is sent to and the record it leaves.\<close>

fun boot_attempts ::
    "nat \<Rightarrow> u32 \<Rightarrow> josh_boot_health_record option \<Rightarrow> u32 list \<times> josh_boot_health_record option" where
  "boot_attempts 0 m p = ([], p)"
| "boot_attempts (Suc n) m p =
     (let (s, p') = josh_boot_health_prepare_attempt p m; (ss, p'') = boot_attempts n m p'
      in (s # ss, p''))"

lemma boot_attempts_rollback:
  assumes "josh_boot_health_valid (Some r)" "pending_good r \<noteq> 0"
    and "attempt_count r \<le> effective_max m"
    and "n = unat (effective_max m) - unat (attempt_count r)"
  shows "\<exists>r'. boot_attempts (Suc n) m (Some r) =
      (replicate n (selected_slot r) @ [rollback_slot r], Some r')
    \<and> josh_boot_health_valid (Some r') \<and> pending_good r' = 0
    \<and> selected_slot r' = rollback_slot r \<and> last_good_slot r' = last_good_slot r
    \<and> last_failure_stage r' = JOSH_BOOT_FAILURE_KERNEL"
  using assms
proof (induction n arbitrary: r)
  case 0
  then have "effective_max m \<le> attempt_count r" by (simp add: word_le_nat_alt)
  with "0.prems" have at: "josh_boot_health_prepare_attempt (Some r) m =
      (rollback_slot r, Some (health_seal (r\<lparr> generation := generation r + 1,
        selected_slot := rollback_slot r, pending_good := 0, attempt_count := 0,
        last_failure_stage := JOSH_BOOT_FAILURE_KERNEL \<rparr>)))"
    by (simp add: prepare_attempt_rollback)
  have "health_fields_ok r" using "0.prems"(1) by (rule health_valid_fields)
  then show ?case
    by (simp add: at rollback_slot_valid health_fields_ok_def)
next
  case (Suc n)
  let ?r = "health_seal (r\<lparr> generation := generation r + 1, attempt_count := attempt_count r + 1 \<rparr>)"
  from Suc.prems(4) have lt: "attempt_count r < effective_max m"
    by (simp add: word_less_nat_alt)
  with Suc.prems have at:
    "josh_boot_health_prepare_attempt (Some r) m = (selected_slot r, Some ?r)"
    by (simp add: prepare_attempt_try)
  have cnt: "unat (attempt_count r + 1) = Suc (unat (attempt_count r))"
    using lt by (rule unat_inc)
  have "\<exists>r'. boot_attempts (Suc n) m (Some ?r) =
      (replicate n (selected_slot ?r) @ [rollback_slot ?r], Some r')
    \<and> josh_boot_health_valid (Some r') \<and> pending_good r' = 0
    \<and> selected_slot r' = rollback_slot ?r \<and> last_good_slot r' = last_good_slot ?r
    \<and> last_failure_stage r' = JOSH_BOOT_FAILURE_KERNEL"
  proof (rule Suc.IH)
    show "josh_boot_health_valid (Some ?r)"
      using health_valid_fields [OF Suc.prems(1)] by (simp add: health_fields_ok_def)
    show "attempt_count ?r \<le> effective_max m" using lt by (simp add: inc_le)
    show "n = unat (effective_max m) - unat (attempt_count ?r)"
      using Suc.prems(4) cnt by simp
  qed (use Suc.prems in simp)
  moreover have "rollback_slot ?r = rollback_slot r" by (simp add: rollback_slot_def)
  ultimately show ?case using at by (auto simp del: boot_attempts.simps simp: boot_attempts.simps(2) [of "Suc n"])
qed

text \<open>
  C4. An update that never reports success is tried exactly as often as the limit allows (the
  default limit when 0 is passed), each time on the candidate slot; the next boot is sent back to
  the last good slot, or to recovery when the candidate overwrote the last good slot, and the
  record then says that no update is pending, names that slot and keeps the last good slot.
\<close>

theorem pending_update_rolled_back:
  assumes "josh_boot_health_begin_update (Some r) c = (True, Some r0)"
  shows "\<exists>r'. boot_attempts (Suc (unat (effective_max m))) m (Some r0) =
      (replicate (unat (effective_max m)) c
         @ [if last_good_slot r \<noteq> c then last_good_slot r else JOSH_BOOT_SLOT_RECOVERY], Some r')
    \<and> josh_boot_health_valid (Some r') \<and> pending_good r' = 0
    \<and> selected_slot r' = (if last_good_slot r \<noteq> c then last_good_slot r else JOSH_BOOT_SLOT_RECOVERY)
    \<and> last_good_slot r' = last_good_slot r
    \<and> last_failure_stage r' = JOSH_BOOT_FAILURE_KERNEL"
proof -
  from assms have com: "committed (josh_boot_health_begin_update (Some r) c) = Some r0"
    by (simp add: committed_def)
  have v: "josh_boot_health_valid (Some r0)"
    by (rule begin_tr.op_valid [OF begin_update_result(1) [OF com] com])
  have r0: "pending_good r0 \<noteq> 0" "attempt_count r0 = 0" "selected_slot r0 = c"
    "last_good_slot r0 = last_good_slot r"
    by (simp_all add: begin_update_result(4) [OF com])
  have rb: "rollback_slot r0 =
      (if last_good_slot r \<noteq> c then last_good_slot r else JOSH_BOOT_SLOT_RECOVERY)"
    by (simp add: rollback_slot_def r0)
  show ?thesis
    using boot_attempts_rollback [OF v r0(1), of m "unat (effective_max m)"]
    by (simp only: r0 rb) simp
qed

theorem pending_update_rolled_back_witness:
  "\<exists>r0 r'. josh_boot_health_begin_update (Some default_record) 1 = (True, Some r0)
     \<and> boot_attempts 4 3 (Some r0) = ([1, 1, 1, 0], Some r')"
proof -
  obtain r0 where b: "josh_boot_health_begin_update (Some default_record) 1 = (True, Some r0)"
    using begin_update_ok [OF default_record_valid slot_valid_consts(2)]
    by (simp only: slot_consts_distinct JOSH_BOOT_SLOT_PREVIOUS_def [symmetric]) blast
  have c: "unat (effective_max 3) = 3" "last_good_slot default_record = 0" "Suc 3 = 4"
    by (simp_all add: effective_max_def default_record_def JOSH_BOOT_SLOT_CURRENT_def)
  moreover have "replicate 3 (1 :: u32) @ [0] = [1, 1, 1, 0]"
    by (simp add: numeral_3_eq_3)
  ultimately have "\<exists>r'. boot_attempts 4 3 (Some r0) = ([1, 1, 1, 0], Some r')"
    using pending_update_rolled_back [OF b, of 3] by (simp only: c) auto
  with b show ?thesis by blast
qed

section \<open>Corruption of the stored record\<close>

text \<open>The checksum register after all 56 bytes of a valid record is a fixed value.\<close>

lemma xor_not: "(a :: u32) XOR NOT a = - 1"
  by (simp add: bit_eq_iff bit_simps)

lemma sealed_residue:
  "h_checksum r = checksum_for r \<Longrightarrow>
   crc32_update_loop 0xffffffff (health_record_bytes r) = (crc_step ^^ 32) (- 1)"
proof -
  let ?s = "crc32_update_loop 0xffffffff (health_body r)"
  assume "h_checksum r = checksum_for r"
  then have "h_checksum r = NOT ?s"
    by (simp add: checksum_for_body crc32_bytes_def crc32_loops_agree)
  then have "crc32_update_loop 0xffffffff (health_record_bytes r) =
      crc32_update_loop ?s (le32_bytes (NOT ?s))"
    by (simp add: health_record_bytes_split crc32_update_loop_append)
  also have "\<dots> = (crc_step ^^ 32) (?s XOR read_le32 (le32_bytes (NOT ?s)))"
    by (subst (1 2) le32_bytes_def) (rule crc32_update_loop_word)
  finally show ?thesis by (simp add: codec_simps xor_not)
qed

lemma window_split:
  assumes "length xs = n" "length ys = n" "k + 4 \<le> n"
    and "\<forall>i<n. i < k \<or> k + 4 \<le> i \<longrightarrow> xs ! i = ys ! i"
  shows "take k xs = take k ys" "drop (k + 4) xs = drop (k + 4) ys"
  using assms by (auto intro!: nth_equalityI)

text \<open>
  C15. A corruption of a stored record that is confined to four consecutive bytes is always
  noticed: whatever 56 bytes differ from a valid record only there are not a valid record.
\<close>

theorem health_burst_detected:
  assumes valid: "josh_boot_health_valid (Some r)"
    and len: "length p = health_sizeof" and k: "k + 4 \<le> health_sizeof"
    and same: "\<forall>i<health_sizeof. i < k \<or> k + 4 \<le> i \<longrightarrow> p ! i = health_record_bytes r ! i"
    and diff: "p \<noteq> health_record_bytes r"
  shows "\<not> josh_boot_health_valid (Some (health_record_of_bytes p))"
proof
  let ?q = "health_record_bytes r"
  assume "josh_boot_health_valid (Some (health_record_of_bytes p))"
  then have "crc32_update_loop 0xffffffff (health_record_bytes (health_record_of_bytes p)) =
      crc32_update_loop 0xffffffff ?q"
    using valid by (simp add: health_valid_iff sealed_residue)
  then have crc: "crc32_update_loop 0xffffffff p = crc32_update_loop 0xffffffff ?q"
    by (simp add: health_record_encode len)
  have sp: "xs = take k xs @ take 4 (drop k xs) @ drop (k + 4) xs" for xs :: bytes
    using append_take_drop_id [of k xs] append_take_drop_id [of 4 "drop k xs"]
    by (simp add: add.commute)
  have tk: "take k p = take k ?q" "drop (k + 4) p = drop (k + 4) ?q"
    using window_split [OF len length_health_record_bytes k same] by auto
  have "take 4 (drop k p) = take 4 (drop k ?q)"
  proof (rule crc32_update_loop_burst)
    show "crc32_update_loop 0xffffffff (take k ?q @ take 4 (drop k p) @ drop (k + 4) ?q) =
        crc32_update_loop 0xffffffff (take k ?q @ take 4 (drop k ?q) @ drop (k + 4) ?q)"
      using crc sp [of p] sp [of ?q] tk by simp
  qed (use len k in simp_all)
  with tk sp [of p] sp [of ?q] diff show False by metis
qed

theorem health_burst_detected_witness:
  "\<not> josh_boot_health_valid
      (Some (health_record_of_bytes ((health_record_bytes default_record)[28 := 9])))"
proof (rule health_burst_detected [OF default_record_valid, where k = 28])
  let ?q = "health_record_bytes default_record"
  have "?q ! 28 = 0"
    by (simp add: health_record_bytes_def default_record_def nth_append) (simp add: le32_bytes_def)
  moreover have "(?q[28 := 9]) ! 28 = 9" by (simp add: health_sizeof_def)
  moreover have "(9 :: u8) \<noteq> 0" by simp
  ultimately show "?q[28 := 9] \<noteq> ?q" by metis
qed (auto simp: health_sizeof_def)

section \<open>Choosing between the two copies\<close>

text \<open>
  C16. Choosing between the two stored copies: the outcome is a valid record in every case; when
  neither copy is valid it is the default record and the call reports so; otherwise it is one of
  the two copies, and no valid copy has a higher generation. A tie goes to copy A.
\<close>

theorem health_choose_newest:
  assumes "josh_boot_health_choose a b (Some x) = (found, out)"
  shows "\<exists>r. out = Some r \<and> josh_boot_health_valid (Some r)
    \<and> (found \<longleftrightarrow> josh_boot_health_valid a \<or> josh_boot_health_valid b)
    \<and> (\<not> found \<longrightarrow> r = default_record)
    \<and> (found \<longrightarrow> out \<in> {a, b}
         \<and> (josh_boot_health_valid a \<longrightarrow> generation (the a) \<le> generation r)
         \<and> (josh_boot_health_valid b \<longrightarrow> generation (the b) \<le> generation r)
         \<and> (josh_boot_health_valid a \<and> generation (the a) = generation r \<longrightarrow> out = a))"
  using assms
  by (cases a; cases b) (auto simp: josh_boot_health_choose_def Let_def split: if_splits)

theorem health_choose_newest_witness:
  "\<exists>r. snd (josh_boot_health_choose None (Some default_record) (Some default_record)) = Some r
     \<and> josh_boot_health_valid (Some r)"
proof -
  have "josh_boot_health_choose None (Some default_record) (Some default_record) =
      (True, Some default_record)"
    by (simp add: josh_boot_health_choose_def)
  from health_choose_newest [OF this] show ?thesis
    by (simp add: josh_boot_health_choose_def)
qed

end
