(* ===== verification/JB_Runtime.thy ===== *)
theory JB_Runtime
  imports JB_Prelude
begin

text \<open>
  The freestanding runtime of \<open>boot/runtime32.c\<close>: the byte routines the storage code calls and
  the 64-bit division helpers the compiler calls on a 32-bit target. The byte routines are shown
  to be the list operations one expects, and the shift-and-subtract division is shown to compute
  quotient and remainder of unsigned division.
\<close>

section \<open>Byte routines\<close>

text \<open>
  Each routine is the source's \<open>while (length--)\<close> loop. Buffers too short for the length given
  are outside the domain, as in C: no equation covers them.
\<close>

fun memcpy :: "bytes \<Rightarrow> bytes \<Rightarrow> nat \<Rightarrow> bytes" where
  "memcpy d s 0 = d"
| "memcpy (x # d) (y # s) (Suc len) = y # memcpy d s len"

fun memset :: "bytes \<Rightarrow> u8 \<Rightarrow> nat \<Rightarrow> bytes" where
  "memset d v 0 = d"
| "memset (x # d) v (Suc len) = v # memset d v len"

fun memcmp :: "bytes \<Rightarrow> bytes \<Rightarrow> nat \<Rightarrow> int" where
  "memcmp a b 0 = 0"
| "memcmp (x # a) (y # b) (Suc len) = (if x \<noteq> y then uint x - uint y else memcmp a b len)"

lemma memcpy_eq:
  "n \<le> length d \<Longrightarrow> n \<le> length s \<Longrightarrow> memcpy d s n = take n s @ drop n d"
  by (induction d s n rule: memcpy.induct) simp_all

lemma memset_eq: "n \<le> length d \<Longrightarrow> memset d v n = replicate n v @ drop n d"
  by (induction d v n rule: memset.induct) auto

lemma memcmp_zero_iff:
  "n \<le> length a \<Longrightarrow> n \<le> length b \<Longrightarrow> memcmp a b n = 0 \<longleftrightarrow> take n a = take n b"
  by (induction a b n rule: memcmp.induct) (auto simp: word_uint_eq_iff)

section \<open>64-bit division\<close>

text \<open>
  The loop of \<open>udivmod64\<close>: \<open>i\<close> iterations are left, \<open>b\<close> is the current bit. The result is the
  pair of quotient and remainder; \<open>__udivdi3\<close> and \<open>__umoddi3\<close> return one each.
\<close>

fun udivmod64_loop :: "nat \<Rightarrow> u64 \<Rightarrow> u64 \<Rightarrow> u64 \<Rightarrow> u64 \<Rightarrow> u64 \<Rightarrow> u64 \<times> u64" where
  "udivmod64_loop 0 numerator denominator b quo r = (quo, r)"
| "udivmod64_loop (Suc i) numerator denominator b quo r =
     (let carry = drop_bit 63 r;
          r1 = push_bit 1 r OR (if numerator AND b \<noteq> 0 then 1 else 0)
      in if carry \<noteq> 0 \<or> r1 \<ge> denominator
         then udivmod64_loop i numerator denominator (drop_bit 1 b) (quo OR b) (r1 - denominator)
         else udivmod64_loop i numerator denominator (drop_bit 1 b) quo r1)"

definition udivmod64 :: "u64 \<Rightarrow> u64 \<Rightarrow> u64 \<times> u64" where
  "udivmod64 numerator denominator =
     (if denominator = 0 then (0, 0)
      else udivmod64_loop 64 numerator denominator (push_bit 63 1) 0 0)"

definition udivdi3 :: "u64 \<Rightarrow> u64 \<Rightarrow> u64" where
  "udivdi3 numerator denominator = fst (udivmod64 numerator denominator)"

definition umoddi3 :: "u64 \<Rightarrow> u64 \<Rightarrow> u64" where
  "umoddi3 numerator denominator = snd (udivmod64 numerator denominator)"

text \<open>
  The value the remainder register stands for when \<open>i\<close> bits are left: the register shifted up,
  plus the bits of the numerator still to come. Each iteration keeps it, up to a multiple of the
  denominator that goes into the quotient.
\<close>

definition pending_value :: "nat \<Rightarrow> u64 \<Rightarrow> nat \<Rightarrow> nat" where
  "pending_value i numerator r = r * 2 ^ i + unat numerator mod 2 ^ i"

lemma pending_value_Suc:
  "pending_value (Suc i) n r = pending_value i n (2 * r + of_bool (bit n i))"
proof -
  have "bit (unat n) i \<longleftrightarrow> bit n i"
    by (auto simp: bit_unsigned_iff dest: bit_imp_le_length)
  then have "unat n mod 2 ^ Suc i = 2 ^ i * of_bool (bit n i) + unat n mod 2 ^ i"
    using take_bit_Suc_from_most [of i "unat n"] by (simp add: take_bit_eq_mod)
  then show ?thesis by (simp add: pending_value_def algebra_simps)
qed

text \<open>The bit the loop looks at when \<open>i\<close> iterations are left.\<close>

definition loop_bit :: "nat \<Rightarrow> u64" where
  "loop_bit i = (case i of 0 \<Rightarrow> 0 | Suc j \<Rightarrow> push_bit j 1)"

lemma loop_bit_step: "drop_bit 1 (loop_bit (Suc i)) = loop_bit i" if "i < 64"
proof (cases i)
  case 0
  then show ?thesis by (simp add: loop_bit_def)
next
  case (Suc j)
  have "drop_bit 1 (push_bit (Suc j) 1) = (push_bit j 1 :: u64)"
    using that Suc by (intro bit_eqI) (auto simp: bit_simps)
  with Suc show ?thesis by (simp add: loop_bit_def)
qed

lemma shifted_in_value:
  fixes r numer :: u64 and i :: nat
  defines "r1 \<equiv> push_bit 1 r OR (if numer AND push_bit i 1 \<noteq> 0 then 1 else 0)"
  shows "unat r1 = (2 * unat r + of_bool (bit numer i)) mod 2 ^ 64"
proof -
  have "push_bit 1 r = 2 * r" by (simp add: push_bit_eq_mult)
  moreover have "numer AND push_bit i 1 \<noteq> 0 \<longleftrightarrow> bit numer i"
    by (simp add: push_bit_eq_mult and_exp_eq_0_iff_not_bit)
  ultimately have "r1 = 2 * r + of_bool (bit numer i)"
    by (simp add: r1_def or_one_eq)
  then show ?thesis by (cases "bit numer i") (simp_all add: unat_word_ariths mod_simps)
qed

lemma carry_value: "drop_bit 63 (r :: u64) \<noteq> 0 \<longleftrightarrow> 2 ^ 63 \<le> unat r"
proof -
  have "drop_bit 63 r = 0 \<longleftrightarrow> unat r div 2 ^ 63 = 0"
    by (simp add: drop_bit_eq_div unat_div word_unat_eq_iff)
  then show ?thesis by (simp add: div_eq_0_iff not_less)
qed

lemma quotient_bit:
  fixes quo :: u64
  assumes "take_bit (Suc i) quo = 0" "i < 64"
  shows "quo OR loop_bit (Suc i) = quo + of_nat (2 ^ i)" "take_bit i (quo OR loop_bit (Suc i)) = 0"
    and "take_bit i quo = 0"
proof -
  have low: "\<not> bit quo k" if "k \<le> i" for k
    using arg_cong [OF assms(1), of "\<lambda>w. bit w k"] that by (simp add: bit_take_bit_iff)
  then have "quo AND loop_bit (Suc i) = 0"
    by (intro bit_eqI) (auto simp: loop_bit_def bit_simps)
  then have "quo OR loop_bit (Suc i) = quo + loop_bit (Suc i)"
    by (simp add: disjunctive_add_eq_or)
  then show "quo OR loop_bit (Suc i) = quo + of_nat (2 ^ i)"
    by (simp add: loop_bit_def push_bit_eq_mult)
  show "take_bit i (quo OR loop_bit (Suc i)) = 0" "take_bit i quo = 0"
    using low by (auto simp: loop_bit_def bit_simps intro!: bit_eqI)
qed

lemma udivmod64_loop_correct:
  assumes "unat r < unat d" "i \<le> 64" "take_bit i quo = 0"
  shows "udivmod64_loop i n d (loop_bit i) quo r =
    (quo + of_nat (pending_value i n (unat r) div unat d),
     of_nat (pending_value i n (unat r) mod unat d))"
  using assms
proof (induction i arbitrary: quo r)
  case 0
  then show ?case by (simp add: pending_value_def)
next
  case (Suc i)
  define v where "v = 2 * unat r + of_bool (bit n i)"
  define r1 where "r1 = push_bit 1 r OR (if n AND loop_bit (Suc i) \<noteq> 0 then 1 else 0)"
  have i: "i < 64" using Suc.prems(2) by simp
  have r1: "unat r1 = v mod 2 ^ 64"
    unfolding r1_def v_def loop_bit_def by (simp only: nat.case shifted_in_value)
  have d: "unat d < 2 ^ 64" using unsigned_less [of d] by simp
  have v2: "v < 2 * unat d" using Suc.prems(1) by (auto simp: v_def)
  have pend: "pending_value (Suc i) n (unat r) = pending_value i n v"
    by (simp add: pending_value_Suc v_def)
  have test: "(drop_bit 63 r \<noteq> 0 \<or> r1 \<ge> d) \<longleftrightarrow> unat d \<le> v"
  proof (cases "2 ^ 63 \<le> unat r")
    case True
    then have "2 ^ 64 \<le> v" by (simp add: v_def)
    with True d show ?thesis unfolding carry_value by linarith
  next
    case False
    then have "v < 2 ^ 64" by (simp add: v_def)
    with False r1 show ?thesis unfolding carry_value by (simp add: word_le_nat_alt)
  qed
  show ?case
  proof (cases "unat d \<le> v")
    case True
    have r2: "unat (r1 - d) = v - unat d"
    proof (cases "v < 2 ^ 64")
      case True
      with r1 \<open>unat d \<le> v\<close> show ?thesis by (simp add: unat_sub_if')
    next
      case False
      then have "v mod 2 ^ 64 = v - 2 ^ 64" using v2 d by (simp add: mod_if)
      with r1 False v2 d show ?thesis by (simp add: unat_sub_if')
    qed
    have split: "pending_value i n v = unat d * 2 ^ i + pending_value i n (v - unat d)"
      using True by (auto simp: pending_value_def le_iff_add algebra_simps)
    have "udivmod64_loop (Suc i) n d (loop_bit (Suc i)) quo r =
        udivmod64_loop i n d (loop_bit i) (quo OR loop_bit (Suc i)) (r1 - d)"
      using True test loop_bit_step [OF i] by (simp add: Let_def r1_def)
    also have "\<dots> = (quo + of_nat (2 ^ i) + of_nat (pending_value i n (v - unat d) div unat d),
        of_nat (pending_value i n (v - unat d) mod unat d))"
      using Suc.IH [of "r1 - d" "quo OR loop_bit (Suc i)"] r2 v2 i quotient_bit [OF Suc.prems(3) i]
      by simp
    finally show ?thesis using Suc.prems(1) by (simp add: pend split)
  next
    case False
    then have "v < 2 ^ 64" using d by linarith
    with r1 have r1v: "unat r1 = v" by simp
    have "udivmod64_loop (Suc i) n d (loop_bit (Suc i)) quo r =
        udivmod64_loop i n d (loop_bit i) quo r1"
      using False test loop_bit_step [OF i] by (simp add: Let_def r1_def)
    also have "\<dots> = (quo + of_nat (pending_value i n v div unat d), of_nat (pending_value i n v mod unat d))"
      using Suc.IH [of r1 quo] r1v False i quotient_bit(3) [OF Suc.prems(3) i] by simp
    finally show ?thesis by (simp add: pend)
  qed
qed

text \<open>
  C17. The division helpers compute 64-bit unsigned division: for every numerator and every
  non-zero denominator \<open>__udivdi3\<close> is the quotient and \<open>__umoddi3\<close> the remainder, and a zero
  denominator gives 0 for both.
\<close>

theorem udivmod64_correct:
  "udivdi3 n d = (if d = 0 then 0 else n div d) \<and> umoddi3 n d = (if d = 0 then 0 else n mod d)"
proof (cases "d = 0")
  case True
  then show ?thesis by (simp add: udivdi3_def umoddi3_def udivmod64_def)
next
  case False
  then have "unat (0 :: u64) < unat d" by (simp add: unat_gt_0)
  from udivmod64_loop_correct [OF this, of 64 0 n] False
  have "udivmod64 n d = (of_nat (unat n div unat d), of_nat (unat n mod unat d))"
    using unsigned_less [of n, where ?'a = nat]
    by (simp add: udivmod64_def loop_bit_def pending_value_def del: udivmod64_loop.simps)
  also have "\<dots> = (n div d, n mod d)"
    by (simp add: word_arith_nat_div word_arith_nat_mod)
  finally show ?thesis using False by (simp add: udivdi3_def umoddi3_def)
qed

end
