(* ===== verification/JB_Block.thy ===== *)
theory JB_Block
  imports JB_Prelude
begin

text \<open>
  The block-device abstraction of \<open>boot/core/block.h\<close>. A device is its sector count and a driver
  callback. The callback is code of the platform (BIOS calls, a test disk): it is a function from
  the first sector and the number of sectors to the bytes it leaves in the buffer, \<open>None\<close> when
  it returns an error.
\<close>

definition JOSH_BLOCK_SECTOR_SIZE :: nat where "JOSH_BLOCK_SECTOR_SIZE = 512"

type_synonym josh_block_read_fn = "u64 \<Rightarrow> u32 \<Rightarrow> bytes option"

record josh_block_device =
  dev_sector_count :: u64
  dev_read :: "josh_block_read_fn option"

text \<open>
  \<open>josh_block_read\<close>: \<open>buffer\<close> says whether the destination pointer is not \<open>NULL\<close>. The result is
  \<open>None\<close> for a non-zero return value and the contents of the buffer otherwise.
\<close>

definition josh_block_read ::
    "josh_block_device option \<Rightarrow> u64 \<Rightarrow> u32 \<Rightarrow> bool \<Rightarrow> bytes option" where
  "josh_block_read device lba sector_count buffer =
     (case device of
        None \<Rightarrow> None
      | Some dev \<Rightarrow>
          (case dev_read dev of
             None \<Rightarrow> None
           | Some read \<Rightarrow>
               if \<not> buffer \<or> sector_count = 0 then None
               else if lba \<ge> dev_sector_count dev then None
               else if ucast sector_count > dev_sector_count dev - lba then None
               else read lba sector_count))"

text \<open>One sector of a device that is known not to be \<open>NULL\<close>: the only way the clients read.\<close>

definition read_sector :: "josh_block_device \<Rightarrow> u64 \<Rightarrow> bytes option" where
  "read_sector dev lba = josh_block_read (Some dev) lba 1 True"

section \<open>What a driver promises\<close>

text \<open>
  A driver that returns success has filled the buffer: it delivers 512 bytes for each sector
  asked for. This is the contract the clients rely on.
\<close>

locale block_driver =
  fixes read :: josh_block_read_fn
  assumes read_length: "read lba n = Some bs \<Longrightarrow> length bs = JOSH_BLOCK_SECTOR_SIZE * unat n"
begin

lemma read_one_length: "read lba 1 = Some bs \<Longrightarrow> length bs = JOSH_BLOCK_SECTOR_SIZE"
  using read_length [of lba 1 bs] by simp

lemma device_sector_length:
  assumes "josh_block_read (Some \<lparr>dev_sector_count = n, dev_read = Some read\<rparr>) lba 1 True = Some bs"
  shows "length bs = JOSH_BLOCK_SECTOR_SIZE"
  using assms by (auto simp: josh_block_read_def read_one_length split: if_splits)

end

definition device_fills_sectors :: "josh_block_device \<Rightarrow> bool" where
  "device_fills_sectors dev \<longleftrightarrow>
     (\<forall>lba bs. read_sector dev lba = Some bs \<longrightarrow> length bs = JOSH_BLOCK_SECTOR_SIZE)"

lemma device_fills_sectors_length:
  "device_fills_sectors dev \<Longrightarrow> read_sector dev lba = Some bs \<Longrightarrow> length bs = 512"
  by (auto simp: device_fills_sectors_def JOSH_BLOCK_SECTOR_SIZE_def)

lemma driver_fills_sectors:
  assumes "block_driver f" "dev_read dev = Some f"
  shows "device_fills_sectors dev"
proof -
  from assms(1) have "length bs = JOSH_BLOCK_SECTOR_SIZE" if "f lba 1 = Some bs" for lba bs
    using that by (rule block_driver.read_one_length)
  with assms(2) show ?thesis
    by (auto simp: device_fills_sectors_def read_sector_def josh_block_read_def split: if_splits)
qed

section \<open>Bounds\<close>

lemma josh_block_read_bounds:
  assumes "josh_block_read (Some dev) lba n buffer = Some bs"
  shows "0 < unat n" "unat lba + unat n \<le> unat (dev_sector_count dev)"
proof -
  from assms have "n \<noteq> 0" "lba < dev_sector_count dev"
    and le: "ucast n \<le> dev_sector_count dev - lba"
    by (auto simp: josh_block_read_def not_le not_less split: option.splits if_splits)
  then show "0 < unat n" by (simp add: unat_gt_0)
  from \<open>lba < dev_sector_count dev\<close> have "unat (dev_sector_count dev - lba) =
      unat (dev_sector_count dev) - unat lba" and "unat lba < unat (dev_sector_count dev)"
    by (simp_all add: unat_sub_if' word_less_nat_alt)
  moreover have "unat (ucast n :: u64) = unat n" by simp
  ultimately show "unat lba + unat n \<le> unat (dev_sector_count dev)"
    using le by (simp add: word_le_nat_alt)
qed

lemma read_sector_bounds: "read_sector dev lba = Some bs \<Longrightarrow> lba < dev_sector_count dev"
  using josh_block_read_bounds(2) [of dev lba 1 True bs]
  by (simp add: read_sector_def word_less_nat_alt)

text \<open>Two devices that cannot be told apart by reading single sectors of a region.\<close>

definition agree_on :: "u64 set \<Rightarrow> josh_block_device \<Rightarrow> josh_block_device \<Rightarrow> bool" where
  "agree_on S dev dev' \<longleftrightarrow> (\<forall>lba\<in>S. read_sector dev lba = read_sector dev' lba)"

lemma agree_onD: "agree_on S dev dev' \<Longrightarrow> lba \<in> S \<Longrightarrow> read_sector dev lba = read_sector dev' lba"
  by (simp add: agree_on_def)

section \<open>Runs of sectors\<close>

text \<open>
  The bytes of \<open>n\<close> consecutive sectors, read one at a time: what a client that walks a region
  sector by sector has seen.
\<close>

fun read_run :: "josh_block_device \<Rightarrow> u64 \<Rightarrow> nat \<Rightarrow> bytes option" where
  "read_run dev lba 0 = Some []"
| "read_run dev lba (Suc n) =
     (case read_sector dev lba of
        None \<Rightarrow> None
      | Some s \<Rightarrow> map_option (\<lambda>rest. s @ rest) (read_run dev (lba + 1) n))"

lemma read_run_length:
  "device_fills_sectors dev \<Longrightarrow> read_run dev lba n = Some bs \<Longrightarrow> length bs = 512 * n"
  by (induction dev lba n arbitrary: bs rule: read_run.induct)
    (auto simp: device_fills_sectors_length split: option.splits)

lemma read_run_sector:
  assumes "device_fills_sectors dev" "read_run dev lba n = Some bs" "i < n"
  shows "read_sector dev (lba + of_nat i) = Some (take 512 (drop (512 * i) bs))"
  using assms
proof (induction dev lba n arbitrary: bs i rule: read_run.induct)
  case (1 dev lba)
  then show ?case by simp
next
  case (2 dev lba n)
  then obtain s rest where s: "read_sector dev lba = Some s" "read_run dev (lba + 1) n = Some rest"
    and bs: "bs = s @ rest"
    by (auto split: option.splits)
  have len: "length s = 512" using 2(2) s(1) by (rule device_fills_sectors_length)
  show ?case
  proof (cases i)
    case 0
    then show ?thesis using s bs len by simp
  next
    case (Suc j)
    then have "read_sector dev (lba + 1 + of_nat j) = Some (take 512 (drop (512 * j) rest))"
      using 2 s by simp
    then show ?thesis using bs len Suc by (simp add: add.assoc)
  qed
qed

lemma read_run_drop:
  assumes "device_fills_sectors dev" "read_run dev lba n = Some bs" "k \<le> n"
  shows "read_run dev (lba + of_nat k) (n - k) = Some (drop (512 * k) bs)"
  using assms(2,3)
proof (induction k arbitrary: lba n bs)
  case 0
  then show ?case by simp
next
  case (Suc k)
  then obtain m where n: "n = Suc m" by (cases n) auto
  with Suc.prems obtain s rest where s: "read_sector dev lba = Some s"
    "read_run dev (lba + 1) m = Some rest" "bs = s @ rest"
    by (auto split: option.splits)
  have "length s = 512" using assms(1) s(1) by (rule device_fills_sectors_length)
  then show ?case
    using Suc.IH [OF s(2)] Suc.prems(2) n s(3) by (simp add: add.assoc)
qed

lemma read_run_agree:
  assumes "\<forall>i<n. read_sector dev (lba + of_nat i) = read_sector dev' (lba + of_nat i)"
  shows "read_run dev lba n = read_run dev' lba n"
  using assms
proof (induction n arbitrary: lba)
  case 0
  then show ?case by simp
next
  case (Suc n)
  have "read_sector dev lba = read_sector dev' lba" using Suc.prems [rule_format, of 0] by simp
  moreover have "read_run dev (lba + 1) n = read_run dev' (lba + 1) n"
  proof (rule Suc.IH, intro allI impI)
    fix i assume "i < n"
    then show "read_sector dev (lba + 1 + of_nat i) = read_sector dev' (lba + 1 + of_nat i)"
      using Suc.prems [rule_format, of "Suc i"] by (simp add: add.assoc)
  qed
  ultimately show ?case by (simp split: option.split)
qed

section \<open>A disk held in memory\<close>

text \<open>A device whose driver copies the sectors \<open>f lba\<close>; concrete disks of the examples are built with it.\<close>

definition memory_disk :: "(u64 \<Rightarrow> bytes) \<Rightarrow> u64 \<Rightarrow> josh_block_device" where
  "memory_disk f n =
     \<lparr>dev_sector_count = n,
      dev_read = Some (\<lambda>lba cnt. Some (concat (map (\<lambda>i. f (lba + of_nat i)) [0..<unat cnt])))\<rparr>"

lemma memory_disk_simps [simp]:
  "dev_sector_count (memory_disk f n) = n" "dev_read (memory_disk f n) \<noteq> None"
  by (simp_all add: memory_disk_def)

lemma read_sector_memory_disk [simp]:
  "read_sector (memory_disk f n) lba = (if lba < n then Some (f lba) else None)"
proof (cases "lba < n")
  case True
  then have "0 < unat (n - lba)" by (simp add: unat_gt_0)
  then have "(1 :: u64) \<le> n - lba" by (simp add: word_le_nat_alt)
  with True show ?thesis
    by (auto simp: read_sector_def josh_block_read_def memory_disk_def)
next
  case False
  then show ?thesis by (auto simp: read_sector_def josh_block_read_def memory_disk_def)
qed

lemma memory_disk_fills [simp]:
  "(\<And>lba. length (f lba) = 512) \<Longrightarrow> device_fills_sectors (memory_disk f n)"
  by (simp add: device_fills_sectors_def JOSH_BLOCK_SECTOR_SIZE_def split: if_splits)

end
