(* ===== verification/JB_Partition.thy ===== *)
theory JB_Partition
  imports JB_Block JB_Runtime JB_Crc
begin

text \<open>
  Partition discovery of \<open>boot/core/partition.h\<close> and \<open>boot/core/partition.c\<close>: the MBR scan, the
  GPT parser with its two checksums, and the test that a range of sectors belongs to no
  partition, which guards the raw sectors of the boot-health store.

  A successful call fills \<open>*partition\<close> and returns \<open>JOSH_PARTITION_OK\<close>; every failure returns
  before the structure is touched. So the result is either a status (\<open>Inl\<close>) or the structure
  (\<open>Inr\<close>).
\<close>

section \<open>Data\<close>

datatype josh_partition_status =
    JOSH_PARTITION_OK
  | JOSH_PARTITION_NO_TABLE
  | JOSH_PARTITION_NO_USABLE_PARTITION
  | JOSH_PARTITION_IO_ERROR
  | JOSH_PARTITION_CORRUPT
  | JOSH_PARTITION_UNSUPPORTED

datatype josh_partition_scheme_t =
    JOSH_PARTITION_SCHEME_NONE
  | JOSH_PARTITION_SCHEME_MBR
  | JOSH_PARTITION_SCHEME_GPT

record josh_partition =
  scheme :: josh_partition_scheme_t
  first_lba :: u64
  sector_count :: u64
  mbr_type :: u8
  gpt_type_guid :: bytes
  gpt_unique_guid :: bytes

section \<open>Helpers\<close>

definition bytes_all_zero :: "bytes \<Rightarrow> nat \<Rightarrow> bool" where
  "bytes_all_zero p len \<longleftrightarrow> list_all (\<lambda>b. b = 0) (take len p)"

definition range_valid :: "josh_block_device \<Rightarrow> u64 \<Rightarrow> u64 \<Rightarrow> bool" where
  "range_valid device first count \<longleftrightarrow>
     (if count = 0 \<or> first \<ge> dev_sector_count device then False
      else count \<le> dev_sector_count device - first)"

definition ranges_overlap :: "u64 \<Rightarrow> u64 \<Rightarrow> u64 \<Rightarrow> u64 \<Rightarrow> bool" where
  "ranges_overlap a_first a_count b_first b_count \<longleftrightarrow>
     (if a_count = 0 \<or> b_count = 0 then False
      else let a_last = a_first + a_count - 1; b_last = b_first + b_count - 1
           in if a_last < a_first \<or> b_last < b_first then True
              else \<not> (a_last < b_first \<or> b_last < a_first))"

section \<open>GPT\<close>

text \<open>The copy of the header whose checksum field is cleared.\<close>

definition gpt_header_copy :: "bytes \<Rightarrow> nat \<Rightarrow> bytes" where
  "gpt_header_copy header header_size =
     (let copy = take header_size header in take 16 copy @ memset (drop 16 copy) 0 4)"

text \<open>The checksum loop over the sectors of the entry array; \<open>None\<close> is a read error.\<close>

fun gpt_entries_crc :: "josh_block_device \<Rightarrow> u64 \<Rightarrow> nat \<Rightarrow> u64 \<Rightarrow> u32 \<Rightarrow> u32 option" where
  "gpt_entries_crc device lba 0 bytes_remaining crc = Some crc"
| "gpt_entries_crc device lba (Suc n) bytes_remaining crc =
     (case read_sector device lba of
        None \<Rightarrow> None
      | Some sector \<Rightarrow>
          let chunk = (if bytes_remaining > 512 then 512 else bytes_remaining)
          in gpt_entries_crc device (lba + 1) n (bytes_remaining - chunk)
               (crc32_update crc sector (unat chunk)))"

text \<open>The scan for the first entry in use, with \<open>n\<close> entries left.\<close>

fun gpt_scan :: "josh_block_device \<Rightarrow> u64 \<Rightarrow> u32 \<Rightarrow> u64 \<Rightarrow> u64 \<Rightarrow> u32 \<Rightarrow> nat
    \<Rightarrow> josh_partition_status + josh_partition" where
  "gpt_scan device entries_lba entry_size first_usable last_usable index 0 =
     Inl JOSH_PARTITION_NO_USABLE_PARTITION"
| "gpt_scan device entries_lba entry_size first_usable last_usable index (Suc n) =
     (let entries_per_sector = 512 div entry_size;
          sector_lba = entries_lba + ucast (index div entries_per_sector);
          offset = (index mod entries_per_sector) * entry_size
      in case read_sector device sector_lba of
           None \<Rightarrow> Inl JOSH_PARTITION_IO_ERROR
         | Some sector \<Rightarrow>
             let entry = drop (unat offset) sector in
             if bytes_all_zero entry 16
             then gpt_scan device entries_lba entry_size first_usable last_usable (index + 1) n
             else
               let first = read_le64 (drop 32 entry); last = read_le64 (drop 40 entry) in
               if first > last \<or> first < first_usable \<or> last > last_usable
               then Inl JOSH_PARTITION_CORRUPT
               else Inr \<lparr> scheme = JOSH_PARTITION_SCHEME_GPT, first_lba = first,
                          sector_count = last - first + 1, mbr_type = 0,
                          gpt_type_guid = take 16 entry,
                          gpt_unique_guid = take 16 (drop 16 entry) \<rparr>)"

definition parse_gpt :: "josh_block_device \<Rightarrow> josh_partition_status + josh_partition" where
  "parse_gpt device =
     (case read_sector device 1 of
        None \<Rightarrow> Inl JOSH_PARTITION_IO_ERROR
      | Some header \<Rightarrow>
        if memcmp header (ascii ''EFI PART'') 8 \<noteq> 0 then Inl JOSH_PARTITION_CORRUPT
        else
          let header_size = read_le32 (drop 12 header);
              expected_header_crc = read_le32 (drop 16 header);
              current_lba = read_le64 (drop 24 header);
              first_usable = read_le64 (drop 40 header);
              last_usable = read_le64 (drop 48 header);
              entries_lba = read_le64 (drop 72 header);
              entry_count = read_le32 (drop 80 header);
              entry_size = read_le32 (drop 84 header);
              expected_entries_crc = read_le32 (drop 88 header)
          in
          if header_size < 92 \<or> header_size > 512 then Inl JOSH_PARTITION_CORRUPT
          else if current_lba \<noteq> 1 \<or> first_usable > last_usable
                  \<or> last_usable \<ge> dev_sector_count device
          then Inl JOSH_PARTITION_CORRUPT
          else if entry_count = 0 \<or> entry_count > 4096 \<or> entry_size < 128 \<or> entry_size > 512
                  \<or> 512 mod entry_size \<noteq> 0
          then Inl JOSH_PARTITION_UNSUPPORTED
          else if crc32_update 0 (gpt_header_copy header (unat header_size)) (unat header_size)
                  \<noteq> expected_header_crc
          then Inl JOSH_PARTITION_CORRUPT
          else
            let entry_bytes = (ucast entry_count :: u64) * ucast entry_size;
                entry_sectors = (entry_bytes + 512 - 1) div 512
            in
            if \<not> range_valid device entries_lba entry_sectors then Inl JOSH_PARTITION_CORRUPT
            else
              case gpt_entries_crc device entries_lba (unat entry_sectors) entry_bytes 0 of
                None \<Rightarrow> Inl JOSH_PARTITION_IO_ERROR
              | Some entries_crc \<Rightarrow>
                  if entries_crc \<noteq> expected_entries_crc then Inl JOSH_PARTITION_CORRUPT
                  else gpt_scan device entries_lba entry_size first_usable last_usable 0
                         (unat entry_count))"

section \<open>MBR\<close>

definition mbr_entry :: "bytes \<Rightarrow> nat \<Rightarrow> bytes" where
  "mbr_entry mbr i = drop (446 + i * 16) mbr"

definition mbr_partition :: "bytes \<Rightarrow> josh_partition" where
  "mbr_partition entry =
     \<lparr> scheme = JOSH_PARTITION_SCHEME_MBR, first_lba = ucast (read_le32 (drop 8 entry)),
       sector_count = ucast (read_le32 (drop 12 entry)), mbr_type = entry ! 4,
       gpt_type_guid = replicate 16 0, gpt_unique_guid = replicate 16 0 \<rparr>"

text \<open>The loop over the four entries, \<open>n\<close> of them left; the last argument is \<open>fallback\<close>.\<close>

fun mbr_scan :: "josh_block_device \<Rightarrow> bytes \<Rightarrow> nat \<Rightarrow> nat \<Rightarrow> bytes option
    \<Rightarrow> josh_partition_status + josh_partition" where
  "mbr_scan device mbr i 0 fallback =
     (case fallback of
        None \<Rightarrow> Inl JOSH_PARTITION_NO_USABLE_PARTITION
      | Some entry \<Rightarrow> Inr (mbr_partition entry))"
| "mbr_scan device mbr i (Suc n) fallback =
     (let entry = mbr_entry mbr i;
          status = entry ! 0; type = entry ! 4;
          first = read_le32 (drop 8 entry); count = read_le32 (drop 12 entry)
      in if status \<noteq> 0x00 \<and> status \<noteq> 0x80 then Inl JOSH_PARTITION_CORRUPT
         else if type = 0 \<or> count = 0 then mbr_scan device mbr (i + 1) n fallback
         else if type = 0xEE then parse_gpt device
         else if \<not> range_valid device (ucast first) (ucast count) then Inl JOSH_PARTITION_CORRUPT
         else if status = 0x80 then mbr_scan device mbr i 0 (Some entry)
         else mbr_scan device mbr (i + 1) n
                (case fallback of None \<Rightarrow> Some entry | Some f \<Rightarrow> Some f))"

text \<open>\<open>partition_ptr\<close> says whether the destination pointer is not \<open>NULL\<close>.\<close>

definition josh_partition_find_boot ::
    "josh_block_device option \<Rightarrow> bool \<Rightarrow> josh_partition_status + josh_partition" where
  "josh_partition_find_boot device partition_ptr =
     (case device of
        None \<Rightarrow> Inl JOSH_PARTITION_NO_TABLE
      | Some dev \<Rightarrow>
          if \<not> partition_ptr \<or> dev_read dev = None \<or> dev_sector_count dev < 2
          then Inl JOSH_PARTITION_NO_TABLE
          else
            case read_sector dev 0 of
              None \<Rightarrow> Inl JOSH_PARTITION_IO_ERROR
            | Some mbr \<Rightarrow>
                if mbr ! 510 \<noteq> 0x55 \<or> mbr ! 511 \<noteq> 0xAA then Inl JOSH_PARTITION_NO_TABLE
                else mbr_scan dev mbr 0 4 None)"

section \<open>Unallocated ranges\<close>

fun unallocated_scan :: "josh_block_device \<Rightarrow> bytes \<Rightarrow> u64 \<Rightarrow> u64 \<Rightarrow> nat \<Rightarrow> nat \<Rightarrow> bool" where
  "unallocated_scan device mbr first_lba0 count0 i 0 = True"
| "unallocated_scan device mbr first_lba0 count0 i (Suc n) =
     (let entry = mbr_entry mbr i;
          status = entry ! 0; type = entry ! 4;
          partition_first = (ucast (read_le32 (drop 8 entry)) :: u64);
          partition_count = (ucast (read_le32 (drop 12 entry)) :: u64)
      in if status \<noteq> 0x00 \<and> status \<noteq> 0x80 then False
         else if type = 0 \<or> partition_count = 0
         then unallocated_scan device mbr first_lba0 count0 (i + 1) n
         else if type = 0xEE then False
         else if \<not> range_valid device partition_first partition_count then False
         else if ranges_overlap first_lba0 count0 partition_first partition_count then False
         else unallocated_scan device mbr first_lba0 count0 (i + 1) n)"

definition josh_partition_range_is_unallocated ::
    "josh_block_device option \<Rightarrow> u64 \<Rightarrow> u64 \<Rightarrow> bool" where
  "josh_partition_range_is_unallocated device first_lba0 count0 =
     (case device of
        None \<Rightarrow> False
      | Some dev \<Rightarrow>
          if dev_read dev = None \<or> \<not> range_valid dev first_lba0 count0
             \<or> ranges_overlap first_lba0 count0 0 1
          then False
          else
            case read_sector dev 0 of
              None \<Rightarrow> False
            | Some mbr \<Rightarrow>
                if mbr ! 510 \<noteq> 0x55 \<or> mbr ! 511 \<noteq> 0xAA then False
                else unallocated_scan dev mbr first_lba0 count0 0 4)"

definition josh_partition_status_string :: "josh_partition_status \<Rightarrow> string" where
  "josh_partition_status_string status =
     (case status of
        JOSH_PARTITION_OK \<Rightarrow> ''ok''
      | JOSH_PARTITION_NO_TABLE \<Rightarrow> ''no partition table''
      | JOSH_PARTITION_NO_USABLE_PARTITION \<Rightarrow> ''no usable partition''
      | JOSH_PARTITION_IO_ERROR \<Rightarrow> ''I/O error''
      | JOSH_PARTITION_CORRUPT \<Rightarrow> ''corrupt partition table''
      | JOSH_PARTITION_UNSUPPORTED \<Rightarrow> ''unsupported partition table'')"

section \<open>Ranges as sets of sectors\<close>

definition sectors :: "u64 \<Rightarrow> u64 \<Rightarrow> nat set" where
  "sectors first count = {unat first ..< unat first + unat count}"

lemma range_valid_iff:
  "range_valid dev first count \<longleftrightarrow>
     0 < unat count \<and> unat first + unat count \<le> unat (dev_sector_count dev)"
proof (cases "first < dev_sector_count dev")
  case True
  then have "unat (dev_sector_count dev - first) = unat (dev_sector_count dev) - unat first"
    and "unat first < unat (dev_sector_count dev)"
    by (simp_all add: unat_sub_if' word_less_nat_alt)
  with True show ?thesis
    by (auto simp: range_valid_def word_le_nat_alt unat_gt_0 not_le)
next
  case False
  then have "\<not> range_valid dev first count" by (simp add: range_valid_def not_less)
  moreover have "unat (dev_sector_count dev) \<le> unat first"
    using False by (simp add: word_less_nat_alt)
  then have "\<not> (0 < unat count \<and> unat first + unat count \<le> unat (dev_sector_count dev))"
    by linarith
  ultimately show ?thesis by blast
qed

lemma last_sector:
  fixes first count :: u64
  assumes "0 < unat count" "unat first + unat count \<le> 2 ^ 64"
  shows "unat (first + count - 1) = unat first + unat count - 1"
proof -
  have "unat (count - 1) = unat count - 1"
    using assms(1) by (simp add: unat_sub_if')
  then have "unat (first + (count - 1)) = unat first + (unat count - 1)"
    using assms by (intro trans [OF unat_add_lem [THEN iffD1]]) simp_all
  then show ?thesis using assms(1) by (simp add: add_diff_eq)
qed

lemma ranges_overlap_sets:
  assumes "unat a + unat n \<le> 2 ^ 64" "unat b + unat m \<le> 2 ^ 64"
  shows "ranges_overlap a n b m \<longleftrightarrow> sectors a n \<inter> sectors b m \<noteq> {}"
proof (cases "n = 0 \<or> m = 0")
  case True
  then show ?thesis by (auto simp: ranges_overlap_def sectors_def)
next
  case False
  then have pos: "0 < unat n" "0 < unat m" by (simp_all add: unat_gt_0)
  have la: "unat (a + n - 1) = unat a + unat n - 1" "unat (b + m - 1) = unat b + unat m - 1"
    using last_sector pos assms by auto
  have "ranges_overlap a n b m \<longleftrightarrow>
      \<not> (unat a + unat n \<le> unat b \<or> unat b + unat m \<le> unat a)"
    using False pos la by (auto simp: ranges_overlap_def Let_def word_less_nat_alt)
  also have "\<dots> \<longleftrightarrow> sectors a n \<inter> sectors b m \<noteq> {}"
  proof -
    have "max (unat a) (unat b) \<in> sectors a n \<inter> sectors b m"
      if "\<not> (unat a + unat n \<le> unat b \<or> unat b + unat m \<le> unat a)"
      using that pos by (auto simp: sectors_def max_def)
    then show ?thesis by (auto simp: sectors_def)
  qed
  finally show ?thesis .
qed

lemma range_valid_no_wrap: "range_valid dev first count \<Longrightarrow> unat first + unat count \<le> 2 ^ 64"
  using unsigned_less [of "dev_sector_count dev", where ?'a = nat] by (simp add: range_valid_iff)

section \<open>The partition that is found\<close>

lemma gpt_scan_in_range:
  assumes "gpt_scan dev lba sz fu lu i n = Inr p" "lu < dev_sector_count dev"
  shows "range_valid dev (first_lba p) (sector_count p)"
    and "scheme p = JOSH_PARTITION_SCHEME_GPT"
    and "fu \<le> first_lba p" "first_lba p + (sector_count p - 1) \<le> lu"
proof -
  from assms(1) obtain first last where p: "first_lba p = first" "sector_count p = last - first + 1"
    "scheme p = JOSH_PARTITION_SCHEME_GPT"
    and ord: "first \<le> last" "fu \<le> first" "last \<le> lu"
    by (induction dev lba sz fu lu i n rule: gpt_scan.induct)
      (auto simp: Let_def not_less split: option.splits if_splits)
  have lt: "unat last < unat (dev_sector_count dev)"
    using ord(3) assms(2) by (simp add: word_le_nat_alt word_less_nat_alt)
  have d: "unat (last - first) = unat last - unat first"
    using ord(1) by (rule unat_diff_le)
  then have "last - first < dev_sector_count dev" using lt by (simp add: word_less_nat_alt)
  from unat_inc [OF this] d have "unat (last - first + 1) = Suc (unat last - unat first)" by simp
  then show "range_valid dev (first_lba p) (sector_count p)"
    using ord(1) lt p by (simp add: range_valid_iff word_le_nat_alt)
  show "scheme p = JOSH_PARTITION_SCHEME_GPT" "fu \<le> first_lba p"
    "first_lba p + (sector_count p - 1) \<le> lu"
    using p ord by simp_all
qed

text \<open>What a header that was accepted satisfies, field by field.\<close>

definition gpt_header_accepted :: "josh_block_device \<Rightarrow> bytes \<Rightarrow> bool" where
  "gpt_header_accepted dev h \<longleftrightarrow>
     memcmp h (ascii ''EFI PART'') 8 = 0
     \<and> read_le32 (drop 12 h) \<ge> 92 \<and> read_le32 (drop 12 h) \<le> 512
     \<and> crc32_update 0 (gpt_header_copy h (unat (read_le32 (drop 12 h)))) (unat (read_le32 (drop 12 h)))
         = read_le32 (drop 16 h)
     \<and> read_le64 (drop 24 h) = 1
     \<and> read_le64 (drop 40 h) \<le> read_le64 (drop 48 h)
     \<and> read_le64 (drop 48 h) < dev_sector_count dev
     \<and> read_le32 (drop 80 h) \<noteq> 0 \<and> read_le32 (drop 80 h) \<le> 4096
     \<and> read_le32 (drop 84 h) \<ge> 128 \<and> read_le32 (drop 84 h) \<le> 512
     \<and> 512 mod read_le32 (drop 84 h) = 0"

definition gpt_entry_bytes :: "bytes \<Rightarrow> u64" where
  "gpt_entry_bytes h = ucast (read_le32 (drop 80 h)) * ucast (read_le32 (drop 84 h))"

definition gpt_entry_sectors :: "bytes \<Rightarrow> u64" where
  "gpt_entry_sectors h = (gpt_entry_bytes h + 512 - 1) div 512"

lemma parse_gptE:
  assumes "parse_gpt dev = Inr p"
  obtains h where "read_sector dev 1 = Some h" "gpt_header_accepted dev h"
    "range_valid dev (read_le64 (drop 72 h)) (gpt_entry_sectors h)"
    "gpt_entries_crc dev (read_le64 (drop 72 h)) (unat (gpt_entry_sectors h)) (gpt_entry_bytes h) 0
       = Some (read_le32 (drop 88 h))"
    "gpt_scan dev (read_le64 (drop 72 h)) (read_le32 (drop 84 h)) (read_le64 (drop 40 h))
       (read_le64 (drop 48 h)) 0 (unat (read_le32 (drop 80 h))) = Inr p"
proof -
  from assms obtain h where h: "read_sector dev 1 = Some h"
    by (simp add: parse_gpt_def split: option.splits)
  show ?thesis
    by (rule that [of h], rule h)
      (use assms h in \<open>simp_all add: parse_gpt_def Let_def gpt_header_accepted_def not_le not_less
         gpt_entry_bytes_def gpt_entry_sectors_def split: option.splits if_splits\<close>)
qed

lemma parse_gpt_in_range:
  assumes "parse_gpt dev = Inr p"
  shows "range_valid dev (first_lba p) (sector_count p)" "scheme p = JOSH_PARTITION_SCHEME_GPT"
  using assms
  by (auto elim!: parse_gptE simp: gpt_header_accepted_def intro: gpt_scan_in_range(1,2))

definition mbr_first :: "bytes \<Rightarrow> u64" where
  "mbr_first entry = ucast (read_le32 (drop 8 entry))"

definition mbr_count :: "bytes \<Rightarrow> u64" where
  "mbr_count entry = ucast (read_le32 (drop 12 entry))"

definition mbr_in_use :: "bytes \<Rightarrow> bool" where
  "mbr_in_use entry \<longleftrightarrow> entry ! 4 \<noteq> 0 \<and> mbr_count entry \<noteq> 0"

lemma mbr_partition_fields [simp]:
  "first_lba (mbr_partition e) = mbr_first e" "sector_count (mbr_partition e) = mbr_count e"
  "scheme (mbr_partition e) = JOSH_PARTITION_SCHEME_MBR" "mbr_type (mbr_partition e) = e ! 4"
  by (simp_all add: mbr_partition_def mbr_first_def mbr_count_def)

text \<open>One step of the scan in terms of these predicates.\<close>

lemma mbr_scan_Suc:
  "mbr_scan dev mbr i (Suc n) fb =
     (let e = mbr_entry mbr i in
      if e ! 0 \<noteq> 0x00 \<and> e ! 0 \<noteq> 0x80 then Inl JOSH_PARTITION_CORRUPT
      else if \<not> mbr_in_use e then mbr_scan dev mbr (i + 1) n fb
      else if e ! 4 = 0xEE then parse_gpt dev
      else if \<not> range_valid dev (mbr_first e) (mbr_count e) then Inl JOSH_PARTITION_CORRUPT
      else if e ! 0 = 0x80 then Inr (mbr_partition e)
      else mbr_scan dev mbr (i + 1) n (case fb of None \<Rightarrow> Some e | Some f \<Rightarrow> Some f))"
  by (simp add: Let_def mbr_in_use_def mbr_first_def mbr_count_def)

lemma mbr_scan_result:
  assumes "mbr_scan dev mbr i n fb = Inr p"
  shows "parse_gpt dev = Inr p \<or> (\<exists>e. fb = Some e \<and> p = mbr_partition e)
    \<or> (\<exists>j\<ge>i. j < i + n \<and> mbr_in_use (mbr_entry mbr j) \<and> p = mbr_partition (mbr_entry mbr j)
         \<and> range_valid dev (first_lba p) (sector_count p))"
  using assms
proof (induction n arbitrary: i fb)
  case 0
  then show ?case by (auto split: option.splits)
next
  case (Suc n)
  let ?e = "mbr_entry mbr i"
  from Suc.prems consider "parse_gpt dev = Inr p"
    | "mbr_partition ?e = p" "mbr_in_use ?e" "range_valid dev (mbr_first ?e) (mbr_count ?e)"
    | "mbr_scan dev mbr (i + 1) n fb = Inr p"
    | "mbr_scan dev mbr (i + 1) n (Some ?e) = Inr p" "fb = None" "mbr_in_use ?e"
      "range_valid dev (mbr_first ?e) (mbr_count ?e)"
    unfolding mbr_scan_Suc Let_def by (simp split: if_split_asm option.split_asm)
  then show ?case
  proof cases
    case 2
    then show ?thesis by (intro disjI2 exI [of _ i]) auto
  next
    case 3
    from Suc.IH [OF this] show ?thesis
      by (elim disjE exE conjE) (blast, blast, metis Suc_eq_plus1 Suc_leD add_Suc_right add_Suc)
  next
    case 4
    from Suc.IH [OF 4(1)] show ?thesis
    proof (elim disjE exE conjE)
      fix e assume "Some ?e = Some e" "p = mbr_partition e"
      then show ?thesis using 4 by (intro disjI2 exI [of _ i]) simp
    qed (blast, metis Suc_eq_plus1 Suc_leD add_Suc_right add_Suc)
  qed simp
qed

lemma mbr_scan_in_range:
  assumes "mbr_scan dev mbr i n None = Inr p"
  shows "range_valid dev (first_lba p) (sector_count p)"
  using mbr_scan_result [OF assms] parse_gpt_in_range(1) by auto

text \<open>
  C19. Whatever table the disk carries, a partition that is reported lies inside the device: it has
  at least one sector and its last sector is a sector of the device, with no wrap-around in the
  sum.
\<close>

theorem find_boot_in_bounds:
  assumes "josh_partition_find_boot (Some dev) ptr = Inr p"
  shows "0 < unat (sector_count p)
    \<and> unat (first_lba p) + unat (sector_count p) \<le> unat (dev_sector_count dev)"
proof -
  from assms obtain mbr where "mbr_scan dev mbr 0 4 None = Inr p"
    by (auto simp: josh_partition_find_boot_def split: option.splits if_splits)
  then have "range_valid dev (first_lba p) (sector_count p)"
    by (rule mbr_scan_in_range)
  then show ?thesis by (simp add: range_valid_iff)
qed

section \<open>Which MBR entry is chosen\<close>

text \<open>An entry the scan accepts when it meets it.\<close>

definition mbr_entry_ok :: "josh_block_device \<Rightarrow> bytes \<Rightarrow> bool" where
  "mbr_entry_ok dev e \<longleftrightarrow>
     (e ! 0 = 0x00 \<or> e ! 0 = 0x80)
     \<and> (mbr_in_use e \<longrightarrow> e ! 4 \<noteq> 0xEE \<and> range_valid dev (mbr_first e) (mbr_count e))"

definition mbr_choice :: "bytes list \<Rightarrow> josh_partition_status + josh_partition" where
  "mbr_choice entries =
     (case find (\<lambda>e. mbr_in_use e \<and> e ! 0 = 0x80) entries of
        Some e \<Rightarrow> Inr (mbr_partition e)
      | None \<Rightarrow>
          (case find mbr_in_use entries of
             Some e \<Rightarrow> Inr (mbr_partition e)
           | None \<Rightarrow> Inl JOSH_PARTITION_NO_USABLE_PARTITION))"

lemma mbr_scan_choice:
  assumes "\<forall>j\<ge>i. j < i + n \<longrightarrow> mbr_entry_ok dev (mbr_entry mbr j)"
  shows "mbr_scan dev mbr i n fb =
    (case find (\<lambda>e. mbr_in_use e \<and> e ! 0 = 0x80) (map (mbr_entry mbr) [i..<i + n]) of
        Some e \<Rightarrow> Inr (mbr_partition e)
      | None \<Rightarrow>
          (case fb of
             Some f \<Rightarrow> Inr (mbr_partition f)
           | None \<Rightarrow>
              (case find mbr_in_use (map (mbr_entry mbr) [i..<i + n]) of
                 Some e \<Rightarrow> Inr (mbr_partition e)
               | None \<Rightarrow> Inl JOSH_PARTITION_NO_USABLE_PARTITION)))"
  using assms
proof (induction n arbitrary: i fb)
  case 0
  then show ?case by (simp split: option.split)
next
  case (Suc n)
  have ok: "mbr_entry_ok dev (mbr_entry mbr i)" using Suc.prems by simp
  have upt: "[i..<i + Suc n] = i # [i + 1..<i + 1 + n]" by (simp add: upt_rec)
  have tail: "\<forall>j\<ge>i + 1. j < i + 1 + n \<longrightarrow> mbr_entry_ok dev (mbr_entry mbr j)"
    using Suc.prems by simp
  define rest where "rest = map (mbr_entry mbr) [i + 1..<i + 1 + n]"
  note IH = Suc.IH [OF tail, folded rest_def]
  have entries: "map (mbr_entry mbr) [i..<i + Suc n] = mbr_entry mbr i # rest"
    by (simp only: upt list.map rest_def)
  show ?case
    unfolding entries mbr_scan_Suc Let_def IH using ok
    by (auto simp: mbr_entry_ok_def split: option.split)
qed

text \<open>
  C21. On a disk whose four MBR entries are well formed and which carries no protective GPT entry,
  the boot partition is the first entry in use that is marked active; without an active one it is
  the first entry in use; without any entry in use the call reports that there is no usable
  partition.
\<close>

theorem find_boot_mbr_choice:
  assumes "dev_read dev \<noteq> None" "2 \<le> dev_sector_count dev" "read_sector dev 0 = Some mbr"
    and "mbr ! 510 = 0x55" "mbr ! 511 = 0xAA"
    and "\<forall>i<4. mbr_entry_ok dev (mbr_entry mbr i)"
  shows "josh_partition_find_boot (Some dev) True = mbr_choice (map (mbr_entry mbr) [0..<4])"
proof -
  have "josh_partition_find_boot (Some dev) True = mbr_scan dev mbr 0 4 None"
    using assms(1-5) by (auto simp: josh_partition_find_boot_def not_less [symmetric])
  also have "\<dots> = mbr_choice (map (mbr_entry mbr) [0..<4])"
    using mbr_scan_choice [of 0 4 dev mbr None] assms(6)
    by (simp add: mbr_choice_def split: option.split)
  finally show ?thesis .
qed

section \<open>Sectors outside every partition\<close>

definition mbr_entry_clear :: "josh_block_device \<Rightarrow> u64 \<Rightarrow> u64 \<Rightarrow> bytes \<Rightarrow> bool" where
  "mbr_entry_clear dev f c e \<longleftrightarrow>
     mbr_entry_ok dev e
     \<and> (mbr_in_use e \<longrightarrow> \<not> ranges_overlap f c (mbr_first e) (mbr_count e))"

lemma unallocated_scan_iff:
  "unallocated_scan dev mbr f c i n \<longleftrightarrow> (\<forall>j\<in>{i..<i + n}. mbr_entry_clear dev f c (mbr_entry mbr j))"
proof (induction n arbitrary: i)
  case 0
  then show ?case by simp
next
  case (Suc n)
  have "unallocated_scan dev mbr f c i (Suc n) \<longleftrightarrow>
      mbr_entry_clear dev f c (mbr_entry mbr i) \<and> unallocated_scan dev mbr f c (i + 1) n"
    by (auto simp: Let_def mbr_entry_clear_def mbr_entry_ok_def mbr_in_use_def mbr_first_def
        mbr_count_def)
  moreover have "{i..<i + Suc n} = insert i {i + 1..<i + 1 + n}" by auto
  ultimately show ?case by (simp only: Suc.IH ball_simps)
qed

lemma mbr_entry_clear_disjoint:
  assumes "mbr_entry_clear dev f c e" "range_valid dev f c" "mbr_in_use e"
  shows "e ! 4 \<noteq> 0xEE \<and> sectors f c \<inter> sectors (mbr_first e) (mbr_count e) = {}"
  using assms ranges_overlap_sets [OF range_valid_no_wrap range_valid_no_wrap]
  by (auto simp: mbr_entry_clear_def mbr_entry_ok_def)

lemma mbr_choice_in_use:
  assumes "mbr_choice entries = Inr p"
  shows "\<exists>e\<in>set entries. mbr_in_use e \<and> p = mbr_partition e"
proof -
  have "e \<in> set entries \<and> P e" if "find P entries = Some e" for P e
    using that by (auto simp: find_Some_iff)
  with assms show ?thesis
    by (fastforce simp: mbr_choice_def split: option.splits)
qed

lemma unallocated_scan_boot_partition:
  assumes "unallocated_scan dev mbr f c 0 4" "range_valid dev f c"
    and "mbr_scan dev mbr 0 4 None = Inr p"
  shows "sectors f c \<inter> sectors (first_lba p) (sector_count p) = {}"
proof -
  have clear: "\<forall>j<4. mbr_entry_clear dev f c (mbr_entry mbr j)"
    using assms(1) by (simp add: unallocated_scan_iff)
  have "mbr_scan dev mbr 0 4 None = mbr_choice (map (mbr_entry mbr) [0..<4])"
    using mbr_scan_choice [of 0 4 dev mbr None] clear
    by (simp add: mbr_choice_def mbr_entry_clear_def split: option.split)
  with assms(3) obtain j where "j < 4" "mbr_in_use (mbr_entry mbr j)"
    "p = mbr_partition (mbr_entry mbr j)"
    using mbr_choice_in_use [of "map (mbr_entry mbr) [0..<4]" p] by auto
  then show ?thesis using clear mbr_entry_clear_disjoint [OF _ assms(2)] by simp
qed

lemma unallocated_boot_disjoint:
  assumes "josh_partition_range_is_unallocated (Some dev) f c" "josh_partition_find_boot (Some dev) ptr = Inr p"
  shows "sectors f c \<inter> sectors (first_lba p) (sector_count p) = {}"
proof -
  obtain mbr where "read_sector dev 0 = Some mbr" "range_valid dev f c" "unallocated_scan dev mbr f c 0 4"
    using assms(1) by (auto simp: josh_partition_range_is_unallocated_def split: if_split_asm option.split_asm)
  then show ?thesis
    using assms(2) unallocated_scan_boot_partition [of dev mbr f c]
    by (auto simp: josh_partition_find_boot_def split: if_split_asm)
qed

text \<open>
  C18. The sectors the health store may overwrite are nobody's: when a range is reported as
  unallocated it lies on the device, contains neither the boot sector nor a sector of any entry
  in use, the disk carries no protective GPT entry, and the range is disjoint from the partition
  that the boot code mounts.
\<close>

theorem unallocated_range_safe:
  assumes "josh_partition_range_is_unallocated (Some dev) f c"
    and "read_sector dev 0 = Some mbr"
  shows "unat f + unat c \<le> unat (dev_sector_count dev) \<and> 0 \<notin> sectors f c
    \<and> (\<forall>i<4. mbr_in_use (mbr_entry mbr i) \<longrightarrow>
        mbr_entry mbr i ! 4 \<noteq> 0xEE
        \<and> sectors f c \<inter> sectors (mbr_first (mbr_entry mbr i)) (mbr_count (mbr_entry mbr i)) = {})
    \<and> (\<forall>ptr p. josh_partition_find_boot (Some dev) ptr = Inr p \<longrightarrow>
        sectors f c \<inter> sectors (first_lba p) (sector_count p) = {})"
proof -
  from assms have valid: "range_valid dev f c" and zero: "\<not> ranges_overlap f c 0 1"
    and scan: "unallocated_scan dev mbr f c 0 4"
    by (auto simp: josh_partition_range_is_unallocated_def split: if_split_asm)
  have "unat f + unat c \<le> unat (dev_sector_count dev)" using valid by (simp add: range_valid_iff)
  moreover have "0 \<notin> sectors f c"
    using zero ranges_overlap_sets [OF range_valid_no_wrap [OF valid], of 0 1]
    by (simp add: sectors_def)
  moreover have "\<forall>i<4. mbr_in_use (mbr_entry mbr i) \<longrightarrow> mbr_entry mbr i ! 4 \<noteq> 0xEE
      \<and> sectors f c \<inter> sectors (mbr_first (mbr_entry mbr i)) (mbr_count (mbr_entry mbr i)) = {}"
    using scan mbr_entry_clear_disjoint [OF _ valid] by (simp add: unallocated_scan_iff)
  moreover have "\<forall>ptr p. josh_partition_find_boot (Some dev) ptr = Inr p \<longrightarrow>
      sectors f c \<inter> sectors (first_lba p) (sector_count p) = {}"
    using unallocated_boot_disjoint [OF assms(1)] by blast
  ultimately show ?thesis by blast
qed

section \<open>GPT entries come from checksummed bytes\<close>

lemma gpt_slot:
  fixes sz :: u32
  assumes "128 \<le> sz" "sz \<le> 512" "512 mod sz = 0" "i < 4096"
  defines "eps \<equiv> 512 div unat sz"
  shows "ucast (of_nat i div (512 div sz) :: u32) = (of_nat (i div eps) :: u64)"
    and "unat ((of_nat i mod (512 div sz)) * sz) = (i mod eps) * unat sz"
    and "512 * (i div eps) + (i mod eps) * unat sz = i * unat sz"
    and "(i mod eps) * unat sz + unat sz \<le> 512"
proof -
  have sz: "128 \<le> unat sz" "unat sz \<le> 512" using assms(1,2) by (simp_all add: word_le_nat_alt)
  have "unat (512 mod sz) = 0" using assms(3) by simp
  then have dvd: "512 mod unat sz = 0" by (simp add: unat_mod)
  then have eps: "eps * unat sz = 512" unfolding eps_def by fastforce
  have i: "unat (of_nat i :: u32) = i" using assms(4) by (simp add: unat_of_nat)
  have div: "unat (512 div sz) = eps" by (simp add: eps_def unat_div)
  have "unat (of_nat i div (512 div sz) :: u32) = i div eps"
    by (subst unat_div_distrib) (simp only: i div)
  moreover have "i div eps < 2 ^ 64" using assms(4) by (intro le_less_trans [OF div_le_dividend]) simp
  ultimately show "ucast (of_nat i div (512 div sz) :: u32) = (of_nat (i div eps) :: u64)"
    by (simp add: word_unat_eq_iff unat_of_nat)
  have lt: "i mod eps < eps" using eps by (cases eps) auto
  then have "(i mod eps + 1) * unat sz \<le> eps * unat sz" by (intro mult_right_mono) auto
  then show le: "(i mod eps) * unat sz + unat sz \<le> 512" using eps by simp
  have "unat (of_nat i mod (512 div sz) :: u32) = i mod eps"
    by (subst unat_mod_distrib) (simp only: i div)
  then show "unat ((of_nat i mod (512 div sz)) * sz) = (i mod eps) * unat sz"
    using le by (simp add: unat_mult_lem [THEN iffD1])
  have "512 * (i div eps) + (i mod eps) * unat sz = (eps * (i div eps) + i mod eps) * unat sz"
    unfolding eps [symmetric] by (simp only: distrib_right distrib_left mult_ac)
  then show "512 * (i div eps) + (i mod eps) * unat sz = i * unat sz"
    by (simp only: mult_div_mod_eq)
qed

definition gpt_partition :: "bytes \<Rightarrow> josh_partition" where
  "gpt_partition entry =
     \<lparr> scheme = JOSH_PARTITION_SCHEME_GPT, first_lba = read_le64 (drop 32 entry),
       sector_count = read_le64 (drop 40 entry) - read_le64 (drop 32 entry) + 1, mbr_type = 0,
       gpt_type_guid = take 16 entry, gpt_unique_guid = take 16 (drop 16 entry) \<rparr>"

lemma gpt_entry_fields_take:
  assumes "48 \<le> n"
  shows "gpt_partition (take n e) = gpt_partition e" "bytes_all_zero (take n e) 16 = bytes_all_zero e 16"
  using assms by (simp_all add: gpt_partition_def bytes_all_zero_def drop_take read_le64_take min_def)

lemma gpt_entry_in_array:
  fixes sz :: u32
  assumes "device_fills_sectors dev" "read_run dev lba m = Some arr"
    and sz: "128 \<le> sz" "sz \<le> 512" "512 mod sz = 0" and i: "i < 4096" "i * unat sz < 512 * m"
  obtains s where "read_sector dev (lba + ucast (of_nat i div (512 div sz) :: u32)) = Some s"
    "gpt_partition (drop (unat ((of_nat i mod (512 div sz)) * sz)) s) = gpt_partition (drop (i * unat sz) arr)"
    "bytes_all_zero (drop (unat ((of_nat i mod (512 div sz)) * sz)) s) 16
      = bytes_all_zero (drop (i * unat sz) arr) 16"
proof -
  define eps where "eps = 512 div unat sz"
  note slot = gpt_slot [OF sz i(1), folded eps_def]
  have "512 * (i div eps) < 512 * m" using slot(3) i(2) by linarith
  then have "i div eps < m" by simp
  from read_run_sector [OF assms(1,2) this]
  have rd: "read_sector dev (lba + ucast (of_nat i div (512 div sz) :: u32)) =
      Some (take 512 (drop (512 * (i div eps)) arr))"
    by (simp add: slot(1))
  let ?off = "(i mod eps) * unat sz"
  have "drop ?off (take 512 (drop (512 * (i div eps)) arr)) =
      take (512 - ?off) (drop (i * unat sz) arr)"
    by (simp add: drop_take slot(3) [symmetric] add.commute)
  moreover have "48 \<le> 512 - ?off" using slot(4) sz(1) by (simp add: word_le_nat_alt)
  ultimately show ?thesis
    by (intro that [OF rd]) (simp_all only: slot(2) gpt_entry_fields_take)
qed

lemma gpt_scan_first_used:
  fixes sz :: u32
  assumes "device_fills_sectors dev" "read_run dev lba m = Some arr"
    and "128 \<le> sz" "sz \<le> 512" "512 mod sz = 0"
    and "i + n \<le> 4096" "(i + n) * unat sz \<le> 512 * m"
    and "gpt_scan dev lba sz fu lu (of_nat i) n = Inr p"
  shows "\<exists>k\<ge>i. k < i + n \<and> (\<forall>j. i \<le> j \<and> j < k \<longrightarrow> bytes_all_zero (drop (j * unat sz) arr) 16)
    \<and> \<not> bytes_all_zero (drop (k * unat sz) arr) 16 \<and> p = gpt_partition (drop (k * unat sz) arr)"
  using assms(6-8)
proof (induction n arbitrary: i)
  case 0
  then show ?case by simp
next
  case (Suc n)
  have sz0: "0 < unat sz" using assms(3) by (simp add: word_le_nat_alt)
  have "i * unat sz < (i + Suc n) * unat sz" using sz0 by (simp add: algebra_simps)
  then have i: "i < 4096" "i * unat sz < 512 * m" using Suc.prems(1,2) by linarith+
  obtain s where s: "read_sector dev (lba + ucast (of_nat i div (512 div sz) :: u32)) = Some s"
    "gpt_partition (drop (unat ((of_nat i mod (512 div sz)) * sz)) s) = gpt_partition (drop (i * unat sz) arr)"
    "bytes_all_zero (drop (unat ((of_nat i mod (512 div sz)) * sz)) s) 16
      = bytes_all_zero (drop (i * unat sz) arr) 16"
    using gpt_entry_in_array [OF assms(1-5) i] by blast
  show ?case
  proof (cases "bytes_all_zero (drop (i * unat sz) arr) 16")
    case True
    have step: "gpt_scan dev lba sz fu lu (of_nat (Suc i)) n = Inr p"
      using Suc.prems(3) s True by (simp add: Let_def add.commute)
    have "Suc i + n \<le> 4096" "(Suc i + n) * unat sz \<le> 512 * m" using Suc.prems(1,2) by simp_all
    from Suc.IH [OF this step] obtain k where "k \<ge> Suc i" "k < Suc i + n"
      "\<forall>j. Suc i \<le> j \<and> j < k \<longrightarrow> bytes_all_zero (drop (j * unat sz) arr) 16"
      "\<not> bytes_all_zero (drop (k * unat sz) arr) 16" "p = gpt_partition (drop (k * unat sz) arr)"
      by blast
    then show ?thesis using True
      by (intro exI [of _ k]) (auto simp: le_eq_less_or_eq [of i] Suc_le_eq)
  next
    case False
    have "p = gpt_partition (drop (unat ((of_nat i mod (512 div sz)) * sz)) s)"
      using Suc.prems(3) s(1) s(3) False
      by (simp add: Let_def gpt_partition_def split: if_split_asm)
    then show ?thesis using False s(2) by (intro exI [of _ i]) auto
  qed
qed

lemma gpt_entries_crc_run:
  assumes "device_fills_sectors dev" "gpt_entries_crc dev lba n rem crc = Some c"
    and "unat rem \<le> 512 * n"
  shows "\<exists>arr. read_run dev lba n = Some arr \<and> c = crc32_update crc arr (unat rem)"
  using assms(2,3)
proof (induction n arbitrary: lba rem crc)
  case 0
  then show ?case by (simp add: crc32_update_def)
next
  case (Suc n)
  let ?chunk = "if rem > 512 then 512 else rem"
  from Suc.prems(1) obtain s where s: "read_sector dev lba = Some s"
    "gpt_entries_crc dev (lba + 1) n (rem - ?chunk) (crc32_update crc s (unat ?chunk)) = Some c"
    by (auto simp: Let_def split: option.splits)
  have len: "length s = 512" using assms(1) s(1) by (rule device_fills_sectors_length)
  have chunk: "unat ?chunk = min 512 (unat rem)"
    by (auto simp: word_less_nat_alt min_def)
  then have rem: "unat (rem - ?chunk) = unat rem - 512"
    by (simp add: unat_diff_le word_le_nat_alt)
  with Suc.prems(2) have "unat (rem - ?chunk) \<le> 512 * n" by simp
  from Suc.IH [OF s(2) this] obtain arr where arr: "read_run dev (lba + 1) n = Some arr"
    "c = crc32_update (crc32_update crc s (unat ?chunk)) arr (unat rem - 512)"
    unfolding rem by blast
  have "take (unat rem) (s @ arr) = take (unat ?chunk) s @ take (unat rem - 512) arr"
    unfolding chunk using len by (simp add: min_def)
  then have "c = crc32_update crc (s @ arr) (unat rem)"
    unfolding arr(2) crc32_update_def by (simp add: crc32_update_loop_append)
  then show ?case using s(1) arr(1) by simp
qed

lemma gpt_entry_sizes:
  assumes "gpt_header_accepted dev h"
  shows "unat (gpt_entry_bytes h) = unat (read_le32 (drop 80 h)) * unat (read_le32 (drop 84 h))"
    and "unat (gpt_entry_bytes h) \<le> 512 * unat (gpt_entry_sectors h)"
proof -
  have b: "unat (read_le32 (drop 80 h)) \<le> 4096" "unat (read_le32 (drop 84 h)) \<le> 512"
    using assms by (simp_all add: gpt_header_accepted_def word_le_nat_alt)
  have le: "unat (read_le32 (drop 80 h)) * unat (read_le32 (drop 84 h)) \<le> 4096 * 512"
    using b by (rule mult_le_mono)
  then show eq: "unat (gpt_entry_bytes h) = unat (read_le32 (drop 80 h)) * unat (read_le32 (drop 84 h))"
    by (simp add: gpt_entry_bytes_def unat_mult_lem [THEN iffD1])
  have "unat (gpt_entry_bytes h + 511) = unat (gpt_entry_bytes h) + 511"
    using eq le by (simp add: unat_add_lem [THEN iffD1])
  moreover have "gpt_entry_bytes h + 512 - 1 = gpt_entry_bytes h + 511" by simp
  ultimately have "unat (gpt_entry_sectors h) = (unat (gpt_entry_bytes h) + 511) div 512"
    unfolding gpt_entry_sectors_def by (simp only: unat_div_distrib) simp
  then show "unat (gpt_entry_bytes h) \<le> 512 * unat (gpt_entry_sectors h)" by linarith
qed

text \<open>
  C20. A GPT partition that is reported comes from the checksummed bytes: the header was accepted
  and its checksum matches, the entry array was read whole and its checksum matches the one in the
  header, and the partition is decoded from the first entry of that array that is in use.
\<close>

theorem gpt_partition_checksummed:
  assumes "device_fills_sectors dev" "josh_partition_find_boot (Some dev) ptr = Inr p"
    and "scheme p = JOSH_PARTITION_SCHEME_GPT"
  shows "\<exists>h arr k. read_sector dev 1 = Some h \<and> gpt_header_accepted dev h
    \<and> read_run dev (read_le64 (drop 72 h)) (unat (gpt_entry_sectors h)) = Some arr
    \<and> crc32_update 0 arr (unat (gpt_entry_bytes h)) = read_le32 (drop 88 h)
    \<and> k < unat (read_le32 (drop 80 h))
    \<and> (\<forall>j<k. bytes_all_zero (drop (j * unat (read_le32 (drop 84 h))) arr) 16)
    \<and> \<not> bytes_all_zero (drop (k * unat (read_le32 (drop 84 h))) arr) 16
    \<and> p = gpt_partition (drop (k * unat (read_le32 (drop 84 h))) arr)"
proof -
  from assms(2) obtain mbr where "mbr_scan dev mbr 0 4 None = Inr p"
    by (auto simp: josh_partition_find_boot_def split: option.splits if_splits)
  from mbr_scan_result [OF this] assms(3) have "parse_gpt dev = Inr p" by auto
  then obtain h where h: "read_sector dev 1 = Some h" "gpt_header_accepted dev h"
    "gpt_entries_crc dev (read_le64 (drop 72 h)) (unat (gpt_entry_sectors h)) (gpt_entry_bytes h) 0
       = Some (read_le32 (drop 88 h))"
    "gpt_scan dev (read_le64 (drop 72 h)) (read_le32 (drop 84 h)) (read_le64 (drop 40 h))
       (read_le64 (drop 48 h)) (of_nat 0) (0 + unat (read_le32 (drop 80 h))) = Inr p"
    by (auto elim: parse_gptE)
  note sizes = gpt_entry_sizes [OF h(2)]
  obtain arr where arr: "read_run dev (read_le64 (drop 72 h)) (unat (gpt_entry_sectors h)) = Some arr"
    "read_le32 (drop 88 h) = crc32_update 0 arr (unat (gpt_entry_bytes h))"
    using gpt_entries_crc_run [OF assms(1) h(3) sizes(2)] by blast
  have sz: "128 \<le> read_le32 (drop 84 h)" "read_le32 (drop 84 h) \<le> 512"
    "512 mod read_le32 (drop 84 h) = 0" "0 + unat (read_le32 (drop 80 h)) \<le> 4096"
    using h(2) by (simp_all add: gpt_header_accepted_def word_le_nat_alt)
  have "(0 + unat (read_le32 (drop 80 h))) * unat (read_le32 (drop 84 h))
      \<le> 512 * unat (gpt_entry_sectors h)"
    using sizes by simp
  from gpt_scan_first_used [OF assms(1) arr(1) sz this h(4) [unfolded add_0]] h(1,2) arr
  show ?thesis by (auto 0 3)
qed

section \<open>Concrete disks\<close>

text \<open>An MBR with a plain FAT32 entry at 2048 and an active one at 4096; the rest of the disk is zero.\<close>

definition sample_mbr :: bytes where
  "sample_mbr = replicate 446 0
     @ [0x00, 0, 0, 0, 0x0C, 0, 0, 0] @ le32_bytes 2048 @ le32_bytes 1024
     @ [0x80, 0, 0, 0, 0x0C, 0, 0, 0] @ le32_bytes 4096 @ le32_bytes 2048
     @ replicate 32 0 @ [0x55, 0xAA]"

definition sample_mbr_disk :: josh_block_device where
  "sample_mbr_disk = memory_disk (\<lambda>lba. if lba = 0 then sample_mbr else replicate 512 0) 8192"

lemma sample_mbr_fields:
  "length sample_mbr = 512" "sample_mbr ! 510 = 0x55" "sample_mbr ! 511 = 0xAA"
  "mbr_entry sample_mbr 0 ! 0 = 0" "mbr_entry sample_mbr 0 ! 4 = 0x0C"
  "mbr_first (mbr_entry sample_mbr 0) = 2048" "mbr_count (mbr_entry sample_mbr 0) = 1024"
  "mbr_entry sample_mbr (Suc 0) ! 0 = 0x80" "mbr_entry sample_mbr (Suc 0) ! 4 = 0x0C"
  "mbr_first (mbr_entry sample_mbr (Suc 0)) = 4096" "mbr_count (mbr_entry sample_mbr (Suc 0)) = 2048"
  "mbr_entry sample_mbr 2 ! 0 = 0" "mbr_entry sample_mbr 2 ! 4 = 0"
  "mbr_entry sample_mbr 3 ! 0 = 0" "mbr_entry sample_mbr 3 ! 4 = 0"
  by (simp_all add: sample_mbr_def mbr_entry_def mbr_first_def mbr_count_def nth_append
      read_le32_le32_bytes)

lemma sample_mbr_disk_simps [simp]:
  "dev_sector_count sample_mbr_disk = 8192" "dev_read sample_mbr_disk \<noteq> None"
  "read_sector sample_mbr_disk 0 = Some sample_mbr"
  by (simp_all add: sample_mbr_disk_def)

lemma less_4_cases: "(i :: nat) < 4 \<Longrightarrow> i = 0 \<or> i = 1 \<or> i = 2 \<or> i = 3"
  by linarith

lemma upt_0_4: "[0..<4] = [0, 1, 2, 3 :: nat]"
  by (simp add: upt_rec)

lemma sample_mbr_entries_ok:
  "i < 4 \<Longrightarrow> mbr_entry_ok sample_mbr_disk (mbr_entry sample_mbr i)"
  by (drule less_4_cases, elim disjE)
    (simp_all add: mbr_entry_ok_def mbr_in_use_def range_valid_def sample_mbr_fields)

lemma sample_mbr_choice:
  "mbr_choice (map (mbr_entry sample_mbr) [0..<4]) = Inr (mbr_partition (mbr_entry sample_mbr 1))"
  by (simp add: upt_0_4 mbr_choice_def mbr_in_use_def sample_mbr_fields)


theorem find_boot_mbr_choice_witness:
  "josh_partition_find_boot (Some sample_mbr_disk) True =
     Inr (mbr_partition (mbr_entry sample_mbr 1))"
  using find_boot_mbr_choice [of sample_mbr_disk sample_mbr] sample_mbr_entries_ok
  by (simp add: sample_mbr_choice sample_mbr_fields)

lemma sample_unallocated: "josh_partition_range_is_unallocated (Some sample_mbr_disk) 1984 2"
proof -
  have "mbr_entry_clear sample_mbr_disk 1984 2 (mbr_entry sample_mbr j)" if "j < 4" for j
    using less_4_cases [OF that] sample_mbr_entries_ok [OF that]
    by (elim disjE) (simp_all add: mbr_entry_clear_def mbr_in_use_def ranges_overlap_def sample_mbr_fields)
  then show ?thesis
    by (simp add: josh_partition_range_is_unallocated_def sample_mbr_fields range_valid_def
        ranges_overlap_def unallocated_scan_iff)
qed

theorem unallocated_range_safe_witness:
  "josh_partition_range_is_unallocated (Some sample_mbr_disk) 1984 2
   \<and> 0 \<notin> sectors 1984 2 \<and> sectors 1984 2 \<inter> sectors 4096 2048 = {}"
proof -
  have "mbr_in_use (mbr_entry sample_mbr (Suc 0))" by (simp add: mbr_in_use_def sample_mbr_fields)
  then show ?thesis
    using unallocated_range_safe [OF sample_unallocated, of sample_mbr] sample_unallocated
    by (auto simp: sample_mbr_fields dest!: spec [of _ "Suc 0"])
qed

theorem find_boot_in_bounds_witness:
  "josh_partition_find_boot (Some sample_mbr_disk) True = Inr (mbr_partition (mbr_entry sample_mbr 1))
   \<and> unat (mbr_first (mbr_entry sample_mbr 1)) + unat (mbr_count (mbr_entry sample_mbr 1)) \<le> 8192"
proof -
  have "josh_partition_find_boot (Some sample_mbr_disk) True = Inr (mbr_partition (mbr_entry sample_mbr 1))"
    using mbr_scan_choice [of 0 4 sample_mbr_disk sample_mbr None] sample_mbr_entries_ok
    by (simp add: josh_partition_find_boot_def sample_mbr_fields upt_0_4 mbr_in_use_def)
  from this find_boot_in_bounds [OF this] show ?thesis by simp
qed
text \<open>
  A GPT disk with one entry slot: a protective MBR, a header whose checksums are those of its
  contents, and an entry array of one sector.
\<close>

definition sample_pmbr :: bytes where
  "sample_pmbr = replicate 446 0 @ [0, 0, 0, 0, 0xEE, 0, 0, 0] @ le32_bytes 1 @ le32_bytes 63
     @ replicate 48 0 @ [0x55, 0xAA]"

definition sample_gpt_array :: bytes where
  "sample_gpt_array = replicate 16 1 @ replicate 16 2 @ le64_bytes 8 @ le64_bytes 40
     @ replicate 464 0"

definition sample_gpt_header :: "u32 \<Rightarrow> bytes" where
  "sample_gpt_header crc = ascii ''EFI PART'' @ le32_bytes 0x10000 @ le32_bytes 92
     @ le32_bytes crc @ le32_bytes 0 @ le64_bytes 1 @ le64_bytes 63 @ le64_bytes 8 @ le64_bytes 60
     @ replicate 16 0 @ le64_bytes 2 @ le32_bytes 1 @ le32_bytes 128
     @ le32_bytes (crc32_update 0 sample_gpt_array 128) @ replicate 420 0"

definition sample_gpt_sealed :: bytes where
  "sample_gpt_sealed =
     sample_gpt_header (crc32_update 0 (gpt_header_copy (sample_gpt_header 0) 92) 92)"

definition sample_gpt_disk :: josh_block_device where
  "sample_gpt_disk = memory_disk (\<lambda>lba. if lba = 0 then sample_pmbr
     else if lba = 1 then sample_gpt_sealed else if lba = 2 then sample_gpt_array
     else replicate 512 0) 64"

lemma sample_gpt_header_fields:
  "length (sample_gpt_header c) = 512" "take 8 (sample_gpt_header c) = ascii ''EFI PART''"
  "read_le32 (drop 12 (sample_gpt_header c)) = 92" "read_le32 (drop 16 (sample_gpt_header c)) = c"
  "read_le64 (drop 24 (sample_gpt_header c)) = 1" "read_le64 (drop 40 (sample_gpt_header c)) = 8"
  "read_le64 (drop 48 (sample_gpt_header c)) = 60" "read_le64 (drop 72 (sample_gpt_header c)) = 2"
  "read_le32 (drop 80 (sample_gpt_header c)) = 1" "read_le32 (drop 84 (sample_gpt_header c)) = 128"
  "read_le32 (drop 88 (sample_gpt_header c)) = crc32_update 0 sample_gpt_array 128"
  by (simp_all add: sample_gpt_header_def read_le32_le32_bytes read_le64_le64_bytes)

lemma sample_gpt_header_copy:
  "gpt_header_copy (sample_gpt_header c) 92 = gpt_header_copy (sample_gpt_header d) 92"
  by (simp add: gpt_header_copy_def sample_gpt_header_def memset_eq)

lemma sample_gpt_array_fields:
  "length sample_gpt_array = 512" "\<not> bytes_all_zero sample_gpt_array 16"
  "read_le64 (drop 32 sample_gpt_array) = 8" "read_le64 (drop 40 sample_gpt_array) = 40"
  by (simp_all add: sample_gpt_array_def bytes_all_zero_def list_all_iff
      read_le64_le64_bytes)

lemma sample_gpt_disk_simps [simp]:
  "dev_sector_count sample_gpt_disk = 64" "dev_read sample_gpt_disk \<noteq> None"
  "read_sector sample_gpt_disk 0 = Some sample_pmbr"
  "read_sector sample_gpt_disk 1 = Some sample_gpt_sealed"
  "read_sector sample_gpt_disk 2 = Some sample_gpt_array"
  "device_fills_sectors sample_gpt_disk"
  by (simp_all add: sample_gpt_disk_def sample_pmbr_def sample_gpt_sealed_def
      sample_gpt_header_fields sample_gpt_array_fields)

lemma sample_parse_gpt: "parse_gpt sample_gpt_disk = Inr (gpt_partition sample_gpt_array)"
proof -
  let ?c = "crc32_update 0 (gpt_header_copy (sample_gpt_header 0) 92) 92"
  have m: "memcmp (sample_gpt_header ?c) (ascii ''EFI PART'') 8 = 0"
    by (simp add: memcmp_zero_iff sample_gpt_header_fields)
  have scan: "gpt_scan sample_gpt_disk 2 128 8 60 0 1 = Inr (gpt_partition sample_gpt_array)"
    by (simp add: Let_def sample_gpt_array_fields gpt_partition_def)
  have crc: "gpt_entries_crc sample_gpt_disk 2 1 128 0 = Some (crc32_update 0 sample_gpt_array 128)"
    by simp
  show ?thesis
    using m scan crc sample_gpt_header_copy [of ?c 0]
    by (simp add: parse_gpt_def Let_def sample_gpt_sealed_def sample_gpt_header_fields
        range_valid_def)
qed

lemma sample_gpt_find_boot:
  "josh_partition_find_boot (Some sample_gpt_disk) True = Inr (gpt_partition sample_gpt_array)"
proof -
  have "mbr_scan sample_gpt_disk sample_pmbr 0 (Suc 3) None = parse_gpt sample_gpt_disk"
    unfolding mbr_scan_Suc
    by (simp add: mbr_in_use_def mbr_count_def mbr_entry_def sample_pmbr_def nth_append
        read_le32_le32_bytes)
  then show ?thesis
    by (simp add: josh_partition_find_boot_def sample_parse_gpt)
      (simp add: sample_pmbr_def nth_append)
qed

theorem gpt_partition_checksummed_witness:
  "\<exists>h arr. josh_partition_find_boot (Some sample_gpt_disk) True = Inr (gpt_partition sample_gpt_array)
    \<and> read_sector sample_gpt_disk 1 = Some h \<and> gpt_header_accepted sample_gpt_disk h
    \<and> crc32_update 0 arr (unat (gpt_entry_bytes h)) = read_le32 (drop 88 h)"
  using gpt_partition_checksummed [of sample_gpt_disk True "gpt_partition sample_gpt_array"]
    sample_gpt_find_boot
  by (auto simp: gpt_partition_def)
end
