(* ===== verification/JB_Fat32.thy ===== *)
theory JB_Fat32
  imports JB_Partition
begin

text \<open>
  The read-only FAT32 driver of \<open>boot/core/fat32.h\<close> and \<open>boot/core/fat32.c\<close>.

  A function that returns a status and fills a structure on success is modelled with a sum: \<open>Inl\<close>
  the status, \<open>Inr\<close> the structure. The two loops that follow a cluster chain of the disk are
  partial functions into \<open>option\<close>: \<open>None\<close> is a call that does not return. That no call on a
  mounted file system is of this kind is one of the theorems.

  A path is the list of the characters before the terminating zero; \<open>*path == 0\<close> is the empty
  list. Characters are bytes: the source's comparisons of a possibly negative \<open>char\<close> with ASCII
  bounds reject the same values.
\<close>

section \<open>Data\<close>

datatype josh_fat32_status =
    JOSH_FAT32_OK
  | JOSH_FAT32_IO_ERROR
  | JOSH_FAT32_NOT_FAT32
  | JOSH_FAT32_CORRUPT
  | JOSH_FAT32_UNSUPPORTED
  | JOSH_FAT32_NOT_FOUND
  | JOSH_FAT32_NOT_DIRECTORY
  | JOSH_FAT32_BAD_PATH
  | JOSH_FAT32_BUFFER_TOO_SMALL

record josh_fat32 =
  fs_device :: josh_block_device
  partition_lba :: u64
  partition_sectors :: u64
  fat_lba :: u32
  data_lba :: u32
  sectors_per_fat :: u32
  cluster_count :: u32
  root_cluster :: u32
  sectors_per_cluster :: u8
  fat_count :: u8

record josh_fat32_file =
  first_cluster :: u32
  file_size :: u32
  attributes :: u8

definition FAT32_MIN_CLUSTERS :: u32 where "FAT32_MIN_CLUSTERS = 65525"
definition FAT32_EOC_MIN :: u32 where "FAT32_EOC_MIN = 0x0FFFFFF8"
definition FAT32_BAD_CLUSTER :: u32 where "FAT32_BAD_CLUSTER = 0x0FFFFFF7"
definition FAT32_CLUSTER_MASK :: u32 where "FAT32_CLUSTER_MASK = 0x0FFFFFFF"
definition FAT_ATTR_DIRECTORY :: u8 where "FAT_ATTR_DIRECTORY = 0x10"
definition FAT_ATTR_VOLUME :: u8 where "FAT_ATTR_VOLUME = 0x08"
definition FAT_ATTR_LFN :: u8 where "FAT_ATTR_LFN = 0x0F"

lemmas fat32_constants = FAT32_MIN_CLUSTERS_def FAT32_EOC_MIN_def FAT32_BAD_CLUSTER_def
  FAT32_CLUSTER_MASK_def FAT_ATTR_DIRECTORY_def FAT_ATTR_VOLUME_def FAT_ATTR_LFN_def

section \<open>Clusters\<close>

definition power_of_two_u8 :: "u8 \<Rightarrow> bool" where
  "power_of_two_u8 value \<longleftrightarrow> value \<noteq> 0 \<and> value AND (value - 1) = 0"

definition cluster_valid :: "josh_fat32 \<Rightarrow> u32 \<Rightarrow> bool" where
  "cluster_valid fs cluster \<longleftrightarrow> cluster \<ge> 2 \<and> cluster < cluster_count fs + 2"

definition cluster_lba :: "josh_fat32 \<Rightarrow> u32 \<Rightarrow> josh_fat32_status + u64" where
  "cluster_lba fs cluster =
     (if \<not> cluster_valid fs cluster then Inl JOSH_FAT32_CORRUPT
      else
        let relative = (ucast (data_lba fs) :: u64)
              + ucast (cluster - 2) * ucast (sectors_per_cluster fs)
        in if relative \<ge> partition_sectors fs
              \<or> ucast (sectors_per_cluster fs) > partition_sectors fs - relative
           then Inl JOSH_FAT32_CORRUPT
           else Inr (partition_lba fs + relative))"

definition next_cluster :: "josh_fat32 \<Rightarrow> u32 \<Rightarrow> josh_fat32_status + u32" where
  "next_cluster fs cluster =
     (if \<not> cluster_valid fs cluster then Inl JOSH_FAT32_CORRUPT
      else
        let fat_offset = (ucast cluster :: u64) * 4;
            sector_index = fat_offset div 512;
            byte_offset = (ucast (fat_offset mod 512) :: u32)
        in if sector_index \<ge> ucast (sectors_per_fat fs) \<or> byte_offset > 512 - 4
           then Inl JOSH_FAT32_CORRUPT
           else
             let lba = partition_lba fs + ucast (fat_lba fs) + sector_index
             in case read_sector (fs_device fs) lba of
                  None \<Rightarrow> Inl JOSH_FAT32_IO_ERROR
                | Some sector \<Rightarrow>
                    let value = read_le32 (drop (unat byte_offset) sector) AND FAT32_CLUSTER_MASK
                    in if value = FAT32_BAD_CLUSTER \<or> value = 0 \<or> value = 1
                       then Inl JOSH_FAT32_CORRUPT
                       else Inr value)"

section \<open>Short names\<close>

definition short_name_punctuation_allowed :: "u8 \<Rightarrow> bool" where
  "short_name_punctuation_allowed c \<longleftrightarrow> c \<in> set (ascii ''_-$~!#%&()@^`{}'')"

definition ascii_upper :: "u8 \<Rightarrow> u8 option" where
  "ascii_upper c0 =
     (let c = (if c0 \<ge> 0x61 \<and> c0 \<le> 0x7A then c0 - 0x61 + 0x41 else c0)
      in if \<not> ((c \<ge> 0x41 \<and> c \<le> 0x5A) \<or> (c \<ge> 0x30 \<and> c \<le> 0x39)
               \<or> short_name_punctuation_allowed c)
         then None else Some c)"

text \<open>The loop that looks for the only dot: \<open>None\<close> when there are two.\<close>

fun segment_dot :: "bytes \<Rightarrow> nat \<Rightarrow> nat \<Rightarrow> nat \<Rightarrow> nat option" where
  "segment_dot [] i len dot = Some dot"
| "segment_dot (c # cs) i len dot =
     (if c = 0x2E then (if dot \<noteq> len then None else segment_dot cs (i + 1) len i)
      else segment_dot cs (i + 1) len dot)"

text \<open>The copying loops: \<open>out[pos], out[pos + 1], ...\<close> receive the upper-case characters.\<close>

fun upper_into :: "bytes \<Rightarrow> nat \<Rightarrow> bytes \<Rightarrow> bytes option" where
  "upper_into out pos [] = Some out"
| "upper_into out pos (c # cs) =
     (case ascii_upper c of
        None \<Rightarrow> None
      | Some u \<Rightarrow> upper_into (out[pos := u]) (pos + 1) cs)"

definition short_name_from_segment :: "bytes option \<Rightarrow> nat \<Rightarrow> josh_fat32_status + bytes" where
  "short_name_from_segment segment len =
     (case segment of
        None \<Rightarrow> Inl JOSH_FAT32_BAD_PATH
      | Some seg \<Rightarrow>
          if len = 0 \<or> len > 12 then Inl JOSH_FAT32_BAD_PATH
          else
            (case segment_dot (take len seg) 0 len len of
               None \<Rightarrow> Inl JOSH_FAT32_BAD_PATH
             | Some dot \<Rightarrow>
                 let base_len = dot; ext_len = (if dot = len then 0 else len - dot - 1)
                 in if base_len = 0 \<or> base_len > 8 \<or> ext_len > 3 then Inl JOSH_FAT32_BAD_PATH
                    else
                      (case upper_into (replicate 11 0x20) 0 (take base_len seg) of
                         None \<Rightarrow> Inl JOSH_FAT32_BAD_PATH
                       | Some out \<Rightarrow>
                           (case upper_into out 8 (take ext_len (drop (dot + 1) seg)) of
                              None \<Rightarrow> Inl JOSH_FAT32_BAD_PATH
                            | Some out' \<Rightarrow> Inr out'))))"

section \<open>Directories\<close>

text \<open>
  The entry loop over one sector, \<open>n\<close> entries left. The value \<open>None\<close> means that the loop ran to
  its end; \<open>Some\<close> is a \<open>return\<close> from inside the loop.
\<close>

definition entry_file :: "bytes \<Rightarrow> josh_fat32_file" where
  "entry_file entry =
     (let high = (ucast (read_le16 (drop 20 entry)) :: u32);
          low = (ucast (read_le16 (drop 26 entry)) :: u32)
      in \<lparr> first_cluster = push_bit 16 high OR low, file_size = read_le32 (drop 28 entry),
           attributes = entry ! 11 \<rparr>)"

fun scan_entries :: "bytes \<Rightarrow> bytes \<Rightarrow> nat \<Rightarrow> (josh_fat32_status + josh_fat32_file) option" where
  "scan_entries sector short_name 0 = None"
| "scan_entries entry short_name (Suc n) =
     (if entry ! 0 = 0x00 then Some (Inl JOSH_FAT32_NOT_FOUND)
      else if entry ! 0 = 0xE5 then scan_entries (drop 32 entry) short_name n
      else if entry ! 11 = FAT_ATTR_LFN \<or> entry ! 11 AND FAT_ATTR_VOLUME \<noteq> 0
      then scan_entries (drop 32 entry) short_name n
      else if memcmp entry short_name 11 \<noteq> 0 then scan_entries (drop 32 entry) short_name n
      else
        let file = entry_file entry
        in if first_cluster file < 2 \<and> file_size file \<noteq> 0 then Some (Inl JOSH_FAT32_CORRUPT)
           else Some (Inr file))"

fun scan_sectors :: "josh_fat32 \<Rightarrow> u64 \<Rightarrow> bytes \<Rightarrow> u32 \<Rightarrow> nat
    \<Rightarrow> (josh_fat32_status + josh_fat32_file) option" where
  "scan_sectors fs base_lba short_name sector_index 0 = None"
| "scan_sectors fs base_lba short_name sector_index (Suc n) =
     (case read_sector (fs_device fs) (base_lba + ucast sector_index) of
        None \<Rightarrow> Some (Inl JOSH_FAT32_IO_ERROR)
      | Some sector \<Rightarrow>
          (case scan_entries sector short_name 16 of
             Some r \<Rightarrow> Some r
           | None \<Rightarrow> scan_sectors fs base_lba short_name (sector_index + 1) n))"

partial_function (option) find_loop :: "josh_fat32 \<Rightarrow> bytes \<Rightarrow> u32 \<Rightarrow> u32
    \<Rightarrow> (josh_fat32_status + josh_fat32_file) option" where
  "find_loop fs short_name visited cluster =
     (if visited \<le> cluster_count fs
      then
        (case cluster_lba fs cluster of
           Inl status \<Rightarrow> Some (Inl status)
         | Inr base_lba \<Rightarrow>
             (case scan_sectors fs base_lba short_name 0 (unat (sectors_per_cluster fs)) of
                Some r \<Rightarrow> Some r
              | None \<Rightarrow>
                  (case next_cluster fs cluster of
                     Inl status \<Rightarrow> Some (Inl status)
                   | Inr nxt \<Rightarrow>
                       if nxt \<ge> FAT32_EOC_MIN then Some (Inl JOSH_FAT32_NOT_FOUND)
                       else find_loop fs short_name (visited + 1) nxt)))
      else Some (Inl JOSH_FAT32_CORRUPT))"

definition find_in_directory :: "josh_fat32 \<Rightarrow> u32 \<Rightarrow> bytes
    \<Rightarrow> (josh_fat32_status + josh_fat32_file) option" where
  "find_in_directory fs directory_cluster short_name = find_loop fs short_name 0 directory_cluster"

section \<open>Mount\<close>

text \<open>\<open>fs_ptr\<close> says whether the destination pointer is not \<open>NULL\<close>.\<close>

definition josh_fat32_mount :: "josh_block_device option \<Rightarrow> josh_partition option \<Rightarrow> bool
    \<Rightarrow> josh_fat32_status + josh_fat32" where
  "josh_fat32_mount device partition0 fs_ptr =
     (case (device, partition0) of
        (Some dev, Some part) \<Rightarrow>
          if \<not> fs_ptr \<or> sector_count part = 0 then Inl JOSH_FAT32_NOT_FAT32
          else if first_lba part \<ge> dev_sector_count dev
                  \<or> sector_count part > dev_sector_count dev - first_lba part
          then Inl JOSH_FAT32_CORRUPT
          else
            (case read_sector dev (first_lba part) of
               None \<Rightarrow> Inl JOSH_FAT32_IO_ERROR
             | Some boot \<Rightarrow>
                 if boot ! 510 \<noteq> 0x55 \<or> boot ! 511 \<noteq> 0xAA then Inl JOSH_FAT32_NOT_FAT32
                 else
                   let bytes_per_sector = read_le16 (drop 11 boot);
                       spc = boot ! 13;
                       reserved = read_le16 (drop 14 boot);
                       fats = boot ! 16;
                       root_entries = read_le16 (drop 17 boot);
                       total16 = read_le16 (drop 19 boot);
                       fat16 = read_le16 (drop 22 boot);
                       total32 = read_le32 (drop 32 boot);
                       fat32 = read_le32 (drop 36 boot);
                       root = read_le32 (drop 44 boot)
                   in
                   if bytes_per_sector \<noteq> 512 then Inl JOSH_FAT32_UNSUPPORTED
                   else if \<not> power_of_two_u8 spc \<or> spc > 128 then Inl JOSH_FAT32_CORRUPT
                   else if reserved = 0 \<or> fats = 0 \<or> fats > 2 \<or> root_entries \<noteq> 0 \<or> fat16 \<noteq> 0
                           \<or> fat32 = 0
                   then Inl JOSH_FAT32_NOT_FAT32
                   else
                     let total = (if total16 \<noteq> 0 then ucast total16 else total32)
                     in
                     if total = 0 \<or> (ucast total :: u64) > sector_count part
                     then Inl JOSH_FAT32_CORRUPT
                     else
                       let fat_area = (ucast fats :: u64) * ucast fat32
                       in
                       if (ucast reserved :: u64) + fat_area \<ge> ucast total
                       then Inl JOSH_FAT32_CORRUPT
                       else
                         let data_sectors = (ucast ((ucast (total - ucast reserved) :: u64) - fat_area) :: u32);
                             clusters = data_sectors div ucast spc
                         in
                         if clusters < FAT32_MIN_CLUSTERS then Inl JOSH_FAT32_NOT_FAT32
                         else if root < 2 \<or> root \<ge> clusters + 2 then Inl JOSH_FAT32_CORRUPT
                         else Inr \<lparr> fs_device = dev, partition_lba = first_lba part,
                                    partition_sectors = ucast total, fat_lba = ucast reserved,
                                    data_lba = ucast ((ucast reserved :: u64) + fat_area),
                                    sectors_per_fat = fat32, cluster_count = clusters,
                                    root_cluster = root, sectors_per_cluster = spc,
                                    fat_count = fats \<rparr>)
      | _ \<Rightarrow> Inl JOSH_FAT32_NOT_FAT32)"

section \<open>Paths\<close>

definition skip_slashes :: "bytes \<Rightarrow> bytes" where
  "skip_slashes path = dropWhile (\<lambda>c. c = 0x2F) path"

definition path_segment :: "bytes \<Rightarrow> bytes" where
  "path_segment path = takeWhile (\<lambda>c. c \<noteq> 0x2F) path"

definition path_rest :: "bytes \<Rightarrow> bytes" where
  "path_rest path = skip_slashes (dropWhile (\<lambda>c. c \<noteq> 0x2F) path)"

lemma short_name_length_pos: "short_name_from_segment (Some seg) len = Inr name \<Longrightarrow> len \<noteq> 0"
  by (simp add: short_name_from_segment_def split: if_split_asm)

lemma path_rest_length: "length (path_rest path) + length (path_segment path) \<le> length path"
proof -
  have "length (path_rest path) \<le> length (dropWhile (\<lambda>c. c \<noteq> 0x2F) path)"
    by (simp add: path_rest_def skip_slashes_def length_dropWhile_le)
  moreover have "length path = length (path_segment path) + length (dropWhile (\<lambda>c. c \<noteq> 0x2F) path)"
    unfolding path_segment_def by (metis length_append takeWhile_dropWhile_id)
  ultimately show ?thesis by simp
qed

function open_loop :: "josh_fat32 \<Rightarrow> u32 \<Rightarrow> bytes \<Rightarrow> (josh_fat32_status + josh_fat32_file) option" where
  "open_loop fs directory path =
     (case short_name_from_segment (Some path) (length (path_segment path)) of
        Inl status \<Rightarrow> Some (Inl status)
      | Inr short_name \<Rightarrow>
          (case find_in_directory fs directory short_name of
             None \<Rightarrow> None
           | Some (Inl status) \<Rightarrow> Some (Inl status)
           | Some (Inr found) \<Rightarrow>
               if path_rest path = [] then Some (Inr found)
               else if attributes found AND FAT_ATTR_DIRECTORY = 0
               then Some (Inl JOSH_FAT32_NOT_DIRECTORY)
               else if \<not> cluster_valid fs (first_cluster found) then Some (Inl JOSH_FAT32_CORRUPT)
               else open_loop fs (first_cluster found) (path_rest path)))"
  by pat_completeness auto
termination
proof (relation "measure (\<lambda>(fs, directory, path). length path)")
  fix path :: bytes and name
  assume "short_name_from_segment (Some path) (length (path_segment path)) = Inr name"
  then have "length (path_segment path) \<noteq> 0" by (rule short_name_length_pos)
  then have "length (path_rest path) < length path" using path_rest_length [of path] by linarith
  then show "((fs, c, path_rest path), fs, d, path) \<in> measure (\<lambda>(fs, directory, path). length path)"
    for fs c d by simp
qed simp

declare open_loop.simps [simp del]

definition josh_fat32_open_path :: "josh_fat32 option \<Rightarrow> bytes option \<Rightarrow> bool
    \<Rightarrow> (josh_fat32_status + josh_fat32_file) option" where
  "josh_fat32_open_path fs path file_ptr =
     (case (fs, path) of
        (Some f, Some p) \<Rightarrow>
          if \<not> file_ptr then Some (Inl JOSH_FAT32_BAD_PATH)
          else if skip_slashes p = []
          then Some (Inr \<lparr> first_cluster = root_cluster f, file_size = 0,
                           attributes = FAT_ATTR_DIRECTORY \<rparr>)
          else open_loop f (root_cluster f) (skip_slashes p)
      | _ \<Rightarrow> Some (Inl JOSH_FAT32_BAD_PATH))"

section \<open>Reading\<close>

text \<open>The skip loop: every failure, also the end of the chain, is reported as corruption.\<close>

fun skip_loop :: "josh_fat32 \<Rightarrow> nat \<Rightarrow> u32 \<Rightarrow> u32 option" where
  "skip_loop fs 0 cluster = Some cluster"
| "skip_loop fs (Suc n) cluster =
     (case next_cluster fs cluster of
        Inl status \<Rightarrow> None
      | Inr nxt \<Rightarrow> if nxt \<ge> FAT32_EOC_MIN then None else skip_loop fs n nxt)"

text \<open>
  The sector loop inside one cluster, \<open>n\<close> sectors from the end of the cluster. It returns whether
  a read failed, the bytes in the buffer and how many are still wanted.
\<close>

fun read_sectors :: "josh_fat32 \<Rightarrow> u64 \<Rightarrow> u32 \<Rightarrow> nat \<Rightarrow> u32 \<Rightarrow> bytes \<Rightarrow> u32 \<Rightarrow> bool \<times> bytes \<times> u32" where
  "read_sectors fs base_lba s 0 byte_offset out remaining = (True, out, remaining)"
| "read_sectors fs base_lba s (Suc n) byte_offset out remaining =
     (if remaining > 0
      then
        (case read_sector (fs_device fs) (base_lba + ucast s) of
           None \<Rightarrow> (False, out, remaining)
         | Some sector \<Rightarrow>
             let take0 = 512 - byte_offset;
                 take1 = (if take0 > remaining then remaining else take0)
             in read_sectors fs base_lba (s + 1) n 0
                  (out @ take (unat take1) (drop (unat byte_offset) sector)) (remaining - take1))
      else (True, out, remaining))"

partial_function (option) read_loop :: "josh_fat32 \<Rightarrow> u32 \<Rightarrow> u32 \<Rightarrow> u32 \<Rightarrow> bytes \<Rightarrow> u32
    \<Rightarrow> (josh_fat32_status \<times> bytes) option" where
  "read_loop fs cluster offset_in_cluster visited out remaining =
     (if remaining > 0
      then
        if visited > cluster_count fs then Some (JOSH_FAT32_CORRUPT, out)
        else
          (case cluster_lba fs cluster of
             Inl status \<Rightarrow> Some (status, out)
           | Inr base_lba \<Rightarrow>
               let first_sector = offset_in_cluster div 512;
                   byte_offset = offset_in_cluster mod 512
               in
               (case read_sectors fs base_lba first_sector
                       (unat (sectors_per_cluster fs) - unat first_sector) byte_offset out remaining of
                  (ok, out', remaining') \<Rightarrow>
                    if \<not> ok then Some (JOSH_FAT32_IO_ERROR, out')
                    else if remaining' = 0 then Some (JOSH_FAT32_OK, out')
                    else
                      (case next_cluster fs cluster of
                         Inl status \<Rightarrow> Some (status, out')
                       | Inr nxt \<Rightarrow>
                           if nxt \<ge> FAT32_EOC_MIN then Some (JOSH_FAT32_CORRUPT, out')
                           else read_loop fs nxt 0 (visited + 1) out' remaining')))
      else Some (JOSH_FAT32_OK, out))"

text \<open>
  \<open>buffer\<close> says whether the destination pointer is not \<open>NULL\<close>. The result is the status, the
  bytes written to the buffer from its start (also on failure) and the value stored in
  \<open>*bytes_read\<close> when that pointer is given.
\<close>

definition josh_fat32_read_file :: "josh_fat32 option \<Rightarrow> josh_fat32_file option \<Rightarrow> u32 \<Rightarrow> bool \<Rightarrow> u32
    \<Rightarrow> (josh_fat32_status \<times> bytes \<times> u32) option" where
  "josh_fat32_read_file fs file offset buffer len0 =
     (case (fs, file) of
        (Some f, Some fl) \<Rightarrow>
          if \<not> buffer \<and> len0 \<noteq> 0 then Some (JOSH_FAT32_BAD_PATH, [], 0)
          else if attributes fl AND FAT_ATTR_DIRECTORY \<noteq> 0
          then Some (JOSH_FAT32_NOT_DIRECTORY, [], 0)
          else if offset > file_size fl then Some (JOSH_FAT32_BAD_PATH, [], 0)
          else
            let available = file_size fl - offset;
                len = (if len0 > available then available else len0)
            in
            if len = 0 then Some (JOSH_FAT32_OK, [], 0)
            else if \<not> cluster_valid f (first_cluster fl) then Some (JOSH_FAT32_CORRUPT, [], 0)
            else
              let cluster_bytes = (ucast (sectors_per_cluster f) :: u32) * 512;
                  skip_clusters = offset div cluster_bytes;
                  offset_in_cluster = offset mod cluster_bytes
              in
              (case skip_loop f (unat skip_clusters) (first_cluster fl) of
                 None \<Rightarrow> Some (JOSH_FAT32_CORRUPT, [], 0)
               | Some cluster \<Rightarrow>
                   (case read_loop f cluster offset_in_cluster skip_clusters [] len of
                      None \<Rightarrow> None
                    | Some (status, out) \<Rightarrow>
                        if status = JOSH_FAT32_OK then Some (JOSH_FAT32_OK, out, len)
                        else Some (status, out, 0)))
      | _ \<Rightarrow> Some (JOSH_FAT32_BAD_PATH, [], 0))"

definition josh_fat32_status_string :: "josh_fat32_status \<Rightarrow> string" where
  "josh_fat32_status_string status =
     (case status of
        JOSH_FAT32_OK \<Rightarrow> ''ok''
      | JOSH_FAT32_IO_ERROR \<Rightarrow> ''I/O error''
      | JOSH_FAT32_NOT_FAT32 \<Rightarrow> ''not FAT32''
      | JOSH_FAT32_CORRUPT \<Rightarrow> ''corrupt FAT32''
      | JOSH_FAT32_UNSUPPORTED \<Rightarrow> ''unsupported FAT32 feature''
      | JOSH_FAT32_NOT_FOUND \<Rightarrow> ''path not found''
      | JOSH_FAT32_NOT_DIRECTORY \<Rightarrow> ''not a directory''
      | JOSH_FAT32_BAD_PATH \<Rightarrow> ''invalid path''
      | JOSH_FAT32_BUFFER_TOO_SMALL \<Rightarrow> ''buffer too small'')"

section \<open>Layout of a mounted file system\<close>

text \<open>
  The invariant of a mounted file system: the reserved sectors, the FAT copies and the data
  clusters follow each other inside the partition, which lies on the device.
\<close>

definition fat32_inv :: "josh_fat32 \<Rightarrow> bool" where
  "fat32_inv fs \<longleftrightarrow>
     unat (partition_lba fs) + unat (partition_sectors fs) \<le> unat (dev_sector_count (fs_device fs))
     \<and> unat (partition_sectors fs) < 2 ^ 32
     \<and> 0 < unat (sectors_per_cluster fs) \<and> unat (sectors_per_cluster fs) \<le> 128
     \<and> 0 < unat (fat_lba fs) \<and> 0 < unat (sectors_per_fat fs)
     \<and> (fat_count fs = 1 \<or> fat_count fs = 2)
     \<and> unat (data_lba fs) = unat (fat_lba fs) + unat (fat_count fs) * unat (sectors_per_fat fs)
     \<and> unat (data_lba fs) + unat (cluster_count fs) * unat (sectors_per_cluster fs)
         \<le> unat (partition_sectors fs)
     \<and> 65525 \<le> unat (cluster_count fs)
     \<and> 2 \<le> unat (root_cluster fs) \<and> unat (root_cluster fs) < unat (cluster_count fs) + 2"

lemma fat32_inv_no_wrap:
  assumes "fat32_inv fs"
  shows "unat (cluster_count fs + 2) = unat (cluster_count fs) + 2"
proof -
  have "unat (cluster_count fs) \<le> unat (cluster_count fs) * unat (sectors_per_cluster fs)"
    using assms by (simp add: fat32_inv_def)
  moreover have "2 \<le> unat (data_lba fs)"
  proof -
    have "1 \<le> unat (fat_count fs) * unat (sectors_per_fat fs)"
      using assms by (auto simp: fat32_inv_def)
    then show ?thesis using assms unfolding fat32_inv_def by linarith
  qed
  ultimately have "unat (cluster_count fs) + 2 < 2 ^ 32"
    using assms unfolding fat32_inv_def by linarith
  then show ?thesis by (simp add: unat_add_lem [THEN iffD1])
qed

lemma cluster_valid_iff:
  "fat32_inv fs \<Longrightarrow>
     cluster_valid fs c \<longleftrightarrow> 2 \<le> unat c \<and> unat c < unat (cluster_count fs) + 2"
  by (simp add: cluster_valid_def word_le_nat_alt word_less_nat_alt fat32_inv_no_wrap)

text \<open>The first sector of a cluster, relative to the partition.\<close>

definition cluster_start :: "josh_fat32 \<Rightarrow> u32 \<Rightarrow> nat" where
  "cluster_start fs c =
     unat (data_lba fs) + (unat c - 2) * unat (sectors_per_cluster fs)"

lemma cluster_start_bound:
  assumes "fat32_inv fs" "cluster_valid fs c"
  shows "cluster_start fs c + unat (sectors_per_cluster fs) \<le> unat (partition_sectors fs)"
proof -
  have "unat c - 2 + 1 \<le> unat (cluster_count fs)"
    using assms cluster_valid_iff [OF assms(1), of c] by linarith
  then have "(unat c - 2 + 1) * unat (sectors_per_cluster fs)
      \<le> unat (cluster_count fs) * unat (sectors_per_cluster fs)"
    by (rule mult_le_mono1)
  then show ?thesis using assms(1) by (simp add: cluster_start_def fat32_inv_def)
qed

lemma cluster_lba_ok:
  assumes "fat32_inv fs" "cluster_valid fs c"
  obtains lba where "cluster_lba fs c = Inr lba"
    "unat lba = unat (partition_lba fs) + cluster_start fs c"
proof -
  let ?rel = "(ucast (data_lba fs) :: u64) + ucast (c - 2) * ucast (sectors_per_cluster fs)"
  note bound = cluster_start_bound [OF assms]
  have small: "unat (partition_sectors fs) < 2 ^ 32" "0 < unat (sectors_per_cluster fs)"
    using assms(1) by (simp_all add: fat32_inv_def)
  have c: "unat (c - 2) = unat c - 2"
    using assms(2) by (simp add: cluster_valid_def unat_diff_le)
  have mul: "unat (ucast (c - 2) * ucast (sectors_per_cluster fs) :: u64)
      = (unat c - 2) * unat (sectors_per_cluster fs)"
    using bound small c by (simp add: cluster_start_def unat_mult_lem [THEN iffD1])
  then have rel: "unat ?rel = cluster_start fs c"
    using bound small by (simp add: cluster_start_def unat_add_lem [THEN iffD1])
  have lt: "?rel < partition_sectors fs"
    using rel bound small by (simp add: word_less_nat_alt)
  then have "unat (partition_sectors fs - ?rel) = unat (partition_sectors fs) - cluster_start fs c"
    by (simp add: unat_diff_le less_imp_le rel)
  then have "(ucast (sectors_per_cluster fs) :: u64) \<le> partition_sectors fs - ?rel"
    using bound by (simp add: word_le_nat_alt)
  with lt have "\<not> partition_sectors fs \<le> ?rel"
    "\<not> partition_sectors fs - ?rel < ucast (sectors_per_cluster fs)"
    by (simp_all only: not_le not_less)
  with assms(2) have ok: "cluster_lba fs c = Inr (partition_lba fs + ?rel)"
    by (simp add: cluster_lba_def)
  have "unat (partition_lba fs) + cluster_start fs c < 2 ^ 64"
    using assms(1) bound small(2) unsigned_less [of "dev_sector_count (fs_device fs)", where ?'a = nat]
    by (simp add: fat32_inv_def)
  then have "unat (partition_lba fs + ?rel) = unat (partition_lba fs) + cluster_start fs c"
    by (simp add: unat_add_lem [THEN iffD1] rel)
  with ok show ?thesis by (rule that)
qed

lemma cluster_lba_invalid: "\<not> cluster_valid fs c \<Longrightarrow> cluster_lba fs c = Inl JOSH_FAT32_CORRUPT"
  by (simp add: cluster_lba_def)

text \<open>Distinct clusters occupy disjoint runs of sectors behind the FAT copies.\<close>

lemma clusters_disjoint:
  assumes "fat32_inv fs" "cluster_valid fs c" "cluster_valid fs d" "c \<noteq> d"
  shows "{cluster_start fs c ..< cluster_start fs c + unat (sectors_per_cluster fs)}
    \<inter> {cluster_start fs d ..< cluster_start fs d + unat (sectors_per_cluster fs)} = {}"
proof -
  have *: "cluster_start fs a + unat (sectors_per_cluster fs) \<le> cluster_start fs b"
    if "unat a < unat b" "2 \<le> unat a" for a b
  proof -
    have "(unat a - 2 + 1) * unat (sectors_per_cluster fs)
        \<le> (unat b - 2) * unat (sectors_per_cluster fs)"
      using that by (intro mult_le_mono1) linarith
    then show ?thesis by (simp add: cluster_start_def)
  qed
  have "unat c < unat d \<or> unat d < unat c" using assms(4) by (simp add: word_unat_eq_iff neq_iff)
  then show ?thesis
    using * [of c d] * [of d c] assms(2,3) cluster_valid_iff [OF assms(1)] by auto
qed

section \<open>Mount\<close>

lemma mountE:
  assumes "josh_fat32_mount (Some dev) (Some part) ptr = Inr fs"
  obtains boot total clusters where "read_sector dev (first_lba part) = Some boot"
    "total = (if read_le16 (drop 19 boot) \<noteq> 0 then ucast (read_le16 (drop 19 boot))
              else read_le32 (drop 32 boot))"
    "clusters = ucast ((ucast (total - ucast (read_le16 (drop 14 boot))) :: u64)
       - ucast (boot ! 16) * ucast (read_le32 (drop 36 boot))) div ucast (boot ! 13)"
    "first_lba part < dev_sector_count dev \<and> sector_count part \<le> dev_sector_count dev - first_lba part"
    "boot ! 13 \<noteq> 0" "boot ! 13 \<le> 128"
    "read_le16 (drop 14 boot) \<noteq> 0 \<and> boot ! 16 \<noteq> 0 \<and> boot ! 16 \<le> 2 \<and> read_le32 (drop 36 boot) \<noteq> 0"
    "(ucast total :: u64) \<le> sector_count part"
    "(ucast (read_le16 (drop 14 boot)) :: u64) + ucast (boot ! 16) * ucast (read_le32 (drop 36 boot))
       < ucast total"
    "FAT32_MIN_CLUSTERS \<le> clusters"
    "2 \<le> read_le32 (drop 44 boot) \<and> read_le32 (drop 44 boot) < clusters + 2"
    "\<lparr> fs_device = dev, partition_lba = first_lba part, partition_sectors = ucast total,
        fat_lba = ucast (read_le16 (drop 14 boot)),
        data_lba = ucast ((ucast (read_le16 (drop 14 boot)) :: u64)
                     + ucast (boot ! 16) * ucast (read_le32 (drop 36 boot))),
        sectors_per_fat = read_le32 (drop 36 boot), cluster_count = clusters,
        root_cluster = read_le32 (drop 44 boot), sectors_per_cluster = boot ! 13,
        fat_count = boot ! 16 \<rparr> = fs"
proof -
  from assms obtain boot where boot: "read_sector dev (first_lba part) = Some boot"
    by (simp add: josh_fat32_mount_def split: option.splits if_split_asm)
  define total where "total = (if read_le16 (drop 19 boot) \<noteq> 0 then ucast (read_le16 (drop 19 boot))
              else read_le32 (drop 32 boot))"
  note unfolded = assms [unfolded josh_fat32_mount_def prod.case option.case boot Let_def,
      folded total_def]
  show ?thesis
    by (rule that [OF boot total_def refl]; use unfolded in
      \<open>simp add: power_of_two_u8_def not_le not_less split: if_split_asm\<close>)
qed

lemma ucast_down_small: "unat (w :: u64) < 2 ^ 32 \<Longrightarrow> unat (ucast w :: u32) = unat w"
  by (simp add: unsigned_ucast_eq take_bit_nat_eq_self)

text \<open>The arithmetic of the mount code does not wrap.\<close>

lemma mount_arith:
  fixes reserved :: u16 and fats :: u8 and spf total :: u32
  assumes "fats \<le> 2" "(ucast reserved :: u64) + ucast fats * ucast spf < ucast total"
  shows "unat (ucast ((ucast reserved :: u64) + ucast fats * ucast spf) :: u32)
      = unat reserved + unat fats * unat spf"
    and "unat (ucast ((ucast (total - ucast reserved) :: u64) - ucast fats * ucast spf) :: u32)
      = unat total - (unat reserved + unat fats * unat spf)"
    and "unat reserved + unat fats * unat spf < unat total"
proof -
  have "unat fats \<le> 2" using assms(1) by (simp add: word_le_nat_alt)
  then have "unat fats * unat spf \<le> 2 * 2 ^ 32"
    using unsigned_less [of spf, where ?'a = nat] by (intro mult_le_mono) simp_all
  then have mul: "unat (ucast fats * ucast spf :: u64) = unat fats * unat spf"
    and le: "unat fats * unat spf \<le> 2 ^ 33"
    by (simp_all add: unat_mult_lem [THEN iffD1])
  have sum: "unat ((ucast reserved :: u64) + ucast fats * ucast spf)
      = unat reserved + unat fats * unat spf"
    using le mul unsigned_less [of reserved, where ?'a = nat]
    by (simp add: unat_add_lem [THEN iffD1])
  with assms(2) show lt: "unat reserved + unat fats * unat spf < unat total"
    by (simp add: word_less_nat_alt)
  have tot: "unat total < 2 ^ 32" using unsigned_less [of total, where ?'a = nat] by simp
  with lt sum show "unat (ucast ((ucast reserved :: u64) + ucast fats * ucast spf) :: u32)
      = unat reserved + unat fats * unat spf"
    by (simp add: ucast_down_small)
  have "unat (total - ucast reserved) = unat total - unat reserved"
    using lt by (simp add: unat_diff_le word_le_nat_alt)
  then have "unat ((ucast (total - ucast reserved) :: u64) - ucast fats * ucast spf)
      = unat total - unat reserved - unat fats * unat spf"
    using lt mul by (simp add: unat_diff_le word_le_nat_alt)
  then show "unat (ucast ((ucast (total - ucast reserved) :: u64) - ucast fats * ucast spf) :: u32)
      = unat total - (unat reserved + unat fats * unat spf)"
    using tot by (simp add: ucast_down_small)
qed

lemma mount_inv:
  assumes "josh_fat32_mount (Some dev) (Some part) ptr = Inr fs"
  shows "fat32_inv fs" "fs_device fs = dev" "partition_lba fs = first_lba part"
    "unat (partition_sectors fs) \<le> unat (sector_count part)"
proof -
  obtain boot total clusters where "read_sector dev (first_lba part) = Some boot"
    "total = (if read_le16 (drop 19 boot) \<noteq> 0 then ucast (read_le16 (drop 19 boot))
              else read_le32 (drop 32 boot))"
    and m: "clusters = ucast ((ucast (total - ucast (read_le16 (drop 14 boot))) :: u64)
       - ucast (boot ! 16) * ucast (read_le32 (drop 36 boot))) div ucast (boot ! 13)"
    "first_lba part < dev_sector_count dev \<and> sector_count part \<le> dev_sector_count dev - first_lba part"
    "boot ! 13 \<noteq> 0" "boot ! 13 \<le> 128"
    "read_le16 (drop 14 boot) \<noteq> 0 \<and> boot ! 16 \<noteq> 0 \<and> boot ! 16 \<le> 2 \<and> read_le32 (drop 36 boot) \<noteq> 0"
    "(ucast total :: u64) \<le> sector_count part"
    "(ucast (read_le16 (drop 14 boot)) :: u64) + ucast (boot ! 16) * ucast (read_le32 (drop 36 boot))
       < ucast total"
    "FAT32_MIN_CLUSTERS \<le> clusters"
    "2 \<le> read_le32 (drop 44 boot) \<and> read_le32 (drop 44 boot) < clusters + 2"
    "\<lparr> fs_device = dev, partition_lba = first_lba part, partition_sectors = ucast total,
        fat_lba = ucast (read_le16 (drop 14 boot)),
        data_lba = ucast ((ucast (read_le16 (drop 14 boot)) :: u64)
                     + ucast (boot ! 16) * ucast (read_le32 (drop 36 boot))),
        sectors_per_fat = read_le32 (drop 36 boot), cluster_count = clusters,
        root_cluster = read_le32 (drop 44 boot), sectors_per_cluster = boot ! 13,
        fat_count = boot ! 16 \<rparr> = fs"
    using assms by (rule mountE)
  let ?R = "unat (read_le16 (drop 14 boot))"
  let ?F = "unat (boot ! 16) * unat (read_le32 (drop 36 boot))"
  have fats: "boot ! 16 \<le> 2" using m(5) by simp
  note ar = mount_arith [OF fats m(7)]
  have spc: "0 < unat (boot ! 13)" "unat (boot ! 13) \<le> 128"
    using m(3,4) by (simp_all add: unat_gt_0 word_le_nat_alt)
  have clusters: "unat clusters = (unat total - (?R + ?F)) div unat (boot ! 13)"
    unfolding m(1) by (simp add: unat_div_distrib ar(2))
  then have "unat clusters * unat (boot ! 13) \<le> unat total - (?R + ?F)"
    by (simp only: div_times_less_eq_dividend)
  then have data: "?R + ?F + unat clusters * unat (boot ! 13) \<le> unat total"
    using ar(3) by linarith
  have "unat (dev_sector_count dev - first_lba part) = unat (dev_sector_count dev) - unat (first_lba part)"
    using m(2) by (simp add: unat_diff_le less_imp_le)
  then have dev: "unat (first_lba part) + unat total \<le> unat (dev_sector_count dev)"
    using m(2,6) by (auto simp: word_le_nat_alt word_less_nat_alt)
  have tot: "unat total < 2 ^ 32" using unsigned_less [of total, where ?'a = nat] by simp
  have "unat clusters \<le> unat clusters * unat (boot ! 13)" using spc by simp
  moreover have "1 \<le> ?R" "1 \<le> ?F" using m(5) by (auto simp: Suc_le_eq unat_gt_0)
  ultimately have "unat clusters + 2 < 2 ^ 32" using data tot by linarith
  then have "unat (clusters + 2) = unat clusters + 2" by (simp add: unat_add_lem [THEN iffD1])
  then have root: "2 \<le> unat (read_le32 (drop 44 boot))" "unat (read_le32 (drop 44 boot)) < unat clusters + 2"
    using m(9) by (simp_all add: word_le_nat_alt word_less_nat_alt)
  have cnt: "boot ! 16 = 1 \<or> boot ! 16 = 2"
  proof -
    have "unat (boot ! 16) \<le> 2" "unat (boot ! 16) \<noteq> 0" using m(5) by (auto simp: word_le_nat_alt unat_gt_0)
    then have "unat (boot ! 16) = 1 \<or> unat (boot ! 16) = 2" by linarith
    then show ?thesis by (simp add: word_unat_eq_iff)
  qed
  show "fat32_inv fs"
    unfolding m(10) [symmetric] fat32_inv_def
    using dev tot spc cnt data root ar(1) m(5,8) \<open>1 \<le> ?R\<close>
    by (simp add: unat_gt_0 FAT32_MIN_CLUSTERS_def word_le_nat_alt)
  show "fs_device fs = dev" "partition_lba fs = first_lba part"
    "unat (partition_sectors fs) \<le> unat (sector_count part)"
    using m(6) unfolding m(10) [symmetric] by (simp_all add: word_le_nat_alt)
qed

lemma fat32_inv_count: "fat32_inv fs \<Longrightarrow> cluster_count fs < - 1"
proof -
  assume "fat32_inv fs"
  then have "unat (cluster_count fs) + 2 = unat (cluster_count fs + 2)"
    by (simp add: fat32_inv_no_wrap)
  also have "\<dots> < 2 ^ 32" using unsigned_less [of "cluster_count fs + 2", where ?'a = nat] by simp
  finally show ?thesis
    by (simp add: word_less_nat_alt unsigned_minus_1_eq_mask mask_eq_exp_minus_1)
qed

section \<open>Every call returns\<close>

lemma find_loop_returns:
  assumes "fat32_inv fs"
  shows "\<exists>r. find_loop fs name v c = Some r"
proof -
  have "\<forall>c. \<exists>r. find_loop fs name v c = Some r"
    using fat32_inv_count [OF assms]
  proof (induction v rule: count_up_induct)
    case (step v)
    then show ?case
      by (subst find_loop.simps) (simp split: sum.split option.split)
  qed
  then show ?thesis ..
qed

lemma read_loop_returns:
  assumes "fat32_inv fs"
  shows "\<exists>r. read_loop fs c off v out rem = Some r"
proof -
  have "\<forall>c off out rem. \<exists>r. read_loop fs c off v out rem = Some r"
    using fat32_inv_count [OF assms]
  proof (induction v rule: count_up_induct)
    case (step v)
    then show ?case
      by (subst read_loop.simps) (simp add: not_less Let_def split: sum.split prod.split)
  qed
  then show ?thesis by blast
qed

lemma open_loop_returns:
  assumes "fat32_inv fs"
  shows "\<exists>r. open_loop fs d path = Some r"
  using assms
proof (induction fs d path rule: open_loop.induct)
  case (1 fs d path)
  have r: "find_in_directory fs d name \<noteq> None" for name
    unfolding find_in_directory_def using find_loop_returns [OF 1(2), of name 0 d] by auto
  show ?case
    using 1 by (subst open_loop.simps) (auto simp: r split: sum.split option.split)
qed

section \<open>File contents\<close>

text \<open>
  The specification of a file: the bytes of a cluster, and of the first \<open>n\<close> clusters of a chain.
\<close>

definition cluster_data :: "josh_fat32 \<Rightarrow> u32 \<Rightarrow> bytes option" where
  "cluster_data fs c =
     (case cluster_lba fs c of
        Inl status \<Rightarrow> None
      | Inr lba \<Rightarrow> read_run (fs_device fs) lba (unat (sectors_per_cluster fs)))"

definition chain_next :: "josh_fat32 \<Rightarrow> u32 \<Rightarrow> u32 option" where
  "chain_next fs c =
     (case next_cluster fs c of
        Inl status \<Rightarrow> None
      | Inr nxt \<Rightarrow> if nxt \<ge> FAT32_EOC_MIN then None else Some nxt)"

fun chain_data :: "josh_fat32 \<Rightarrow> nat \<Rightarrow> u32 \<Rightarrow> bytes option" where
  "chain_data fs 0 c = Some []"
| "chain_data fs (Suc n) c =
     (case cluster_data fs c of
        None \<Rightarrow> None
      | Some bs \<Rightarrow>
          if n = 0 then Some bs
          else
            (case chain_next fs c of
               None \<Rightarrow> None
             | Some nxt \<Rightarrow> map_option (\<lambda>rest. bs @ rest) (chain_data fs n nxt)))"

definition cluster_size :: "josh_fat32 \<Rightarrow> nat" where
  "cluster_size fs = 512 * unat (sectors_per_cluster fs)"

lemma cluster_data_length:
  "device_fills_sectors (fs_device fs) \<Longrightarrow> cluster_data fs c = Some bs \<Longrightarrow> length bs = cluster_size fs"
  by (auto simp: cluster_data_def cluster_size_def read_run_length split: sum.splits)

lemma cluster_data_valid: "cluster_data fs c = Some bs \<Longrightarrow> cluster_valid fs c"
  by (auto simp: cluster_data_def cluster_lba_def split: sum.splits if_split_asm)

lemma chain_data_length:
  "device_fills_sectors (fs_device fs) \<Longrightarrow> chain_data fs n c = Some bs \<Longrightarrow>
     length bs = n * cluster_size fs"
  by (induction n arbitrary: c bs)
    (auto simp: cluster_data_length split: option.splits if_split_asm)

lemma chain_data_SucE:
  assumes "chain_data fs (Suc n) c = Some content"
  obtains bs where "cluster_data fs c = Some bs" "n = 0" "content = bs"
  | bs nxt rest where "cluster_data fs c = Some bs" "n \<noteq> 0" "chain_next fs c = Some nxt"
      "chain_data fs n nxt = Some rest" "content = bs @ rest"
  using assms by (auto split: option.splits if_split_asm)

lemma chain_data_prefix:
  assumes "chain_data fs (Suc n) c = Some content"
  obtains bs tail where "cluster_data fs c = Some bs" "content = bs @ tail"
  using assms by (auto split: option.splits if_split_asm)

lemma skip_loop_chain_next:
  "skip_loop fs (Suc n) c = (case chain_next fs c of None \<Rightarrow> None | Some nxt \<Rightarrow> skip_loop fs n nxt)"
  by (simp add: chain_next_def split: sum.split)

lemma skip_loop_chain:
  assumes "device_fills_sectors (fs_device fs)" "chain_data fs n c = Some content" "k < n"
  shows "\<exists>c'. skip_loop fs k c = Some c' \<and>
    chain_data fs (n - k) c' = Some (drop (k * cluster_size fs) content)"
  using assms(2,3)
proof (induction k arbitrary: n c content)
  case 0
  then show ?case by simp
next
  case (Suc k)
  then obtain m where n: "n = Suc m" "k < m" by (cases n) auto
  from Suc.prems(1) n obtain bs nxt rest where c: "cluster_data fs c = Some bs"
    "chain_next fs c = Some nxt" "chain_data fs m nxt = Some rest" "content = bs @ rest"
    by (auto split: option.splits)
  have "length bs = cluster_size fs" using assms(1) c(1) by (rule cluster_data_length)
  then show ?case
    using Suc.IH [OF c(3) n(2)] c(2,4) n(1) by (simp only: skip_loop_chain_next) simp
qed

lemma next_cluster_not_ok: "next_cluster fs c \<noteq> Inl JOSH_FAT32_OK"
  by (simp add: next_cluster_def Let_def split: option.split)

lemma cluster_lba_not_ok: "cluster_lba fs c \<noteq> Inl JOSH_FAT32_OK"
  by (simp add: cluster_lba_def Let_def)

section \<open>The sector loop\<close>

text \<open>What the loop leaves in the buffer, given the bytes of the sectors it may read.\<close>

lemma read_sectors_run:
  assumes "device_fills_sectors (fs_device fs)" "read_run (fs_device fs) (base + ucast s) n = Some bs"
    and "unat s + n \<le> 128" "unat bo < 512" "n = 0 \<longrightarrow> bo = 0"
  shows "read_sectors fs base s n bo out rem =
    (True, out @ take (unat rem) (drop (unat bo) bs),
     of_nat (unat rem - (512 * n - unat bo)))"
  using assms(2-5)
proof (induction n arbitrary: s bo bs out rem)
  case 0
  then show ?case by simp
next
  case (Suc n)
  then obtain sec rest where r: "read_sector (fs_device fs) (base + ucast s) = Some sec"
    "read_run (fs_device fs) (base + ucast s + 1) n = Some rest" "bs = sec @ rest"
    by (auto split: option.splits)
  have len: "length sec = 512" using assms(1) r(1) by (rule device_fills_sectors_length)
  show ?case
  proof (cases "rem = 0")
    case True
    then show ?thesis by simp
  next
    case False
    define t where "t = (if 512 - bo > rem then rem else 512 - bo)"
    have bo: "unat (512 - bo) = 512 - unat bo"
      using Suc.prems(3) by (simp add: unat_diff_le word_le_nat_alt)
    have t: "unat t = min (512 - unat bo) (unat rem)"
      using bo by (simp add: t_def word_less_nat_alt)
    then have rem: "unat (rem - t) = unat rem - (512 - unat bo)"
      by (simp add: unat_diff_le word_le_nat_alt)
    have s1: "unat (s + 1) = unat s + 1"
      using Suc.prems(2) by (simp add: unat_add_lem [THEN iffD1])
    then have "ucast (s + 1) = (ucast s + 1 :: u64)"
      using Suc.prems(2) by (simp add: word_unat_eq_iff unat_add_lem [THEN iffD1])
    then have "read_run (fs_device fs) (base + ucast (s + 1)) n = Some rest"
      using r(2) by (simp add: add.assoc)
    from Suc.IH [OF this, of 0] s1 Suc.prems(2)
    have IH: "read_sectors fs base (s + 1) n 0 out' rem' =
        (True, out' @ take (unat rem') rest, of_nat (unat rem' - 512 * n))" for out' rem'
      by simp
    have "take (unat rem) (drop (unat bo) bs) =
        take (unat t) (drop (unat bo) sec) @ take (unat (rem - t)) rest"
      using len Suc.prems(3) unfolding r(3) t rem by (simp add: min_def)
    then show ?thesis
      using False r(1) rem Suc.prems(3)
      by (simp add: t_def [symmetric] IH Let_def word_gt_0)
  qed
qed

lemma read_sectors_count:
  assumes "device_fills_sectors (fs_device fs)" "unat bo < 512"
    and "read_sectors fs base s n bo out rem = (ok, out', rem')"
  shows "length out' + unat rem' = length out + unat rem"
  using assms(2,3)
proof (induction n arbitrary: s bo out rem)
  case (Suc n)
  then show ?case
  proof (cases "rem = 0 \<or> read_sector (fs_device fs) (base + ucast s) = None")
    case False
    then obtain sec where sec: "read_sector (fs_device fs) (base + ucast s) = Some sec" by auto
    have len: "length sec = 512" using assms(1) sec by (rule device_fills_sectors_length)
    define t where "t = (if 512 - bo > rem then rem else 512 - bo)"
    have bo: "unat (512 - bo) = 512 - unat bo"
      using Suc.prems(1) by (simp add: unat_diff_le word_le_nat_alt)
    have "t \<le> rem" by (simp add: t_def not_less)
    then have t: "unat (rem - t) = unat rem - unat t" "unat t \<le> unat rem"
      by (simp_all add: unat_diff_le word_le_nat_alt)
    have "unat t \<le> 512 - unat bo" using bo by (simp add: t_def word_less_nat_alt)
    then have "length (take (unat t) (drop (unat bo) sec)) = unat t" using len by simp
    moreover have "read_sectors fs base (s + 1) n 0 (out @ take (unat t) (drop (unat bo) sec)) (rem - t)
        = (ok, out', rem')"
      using Suc.prems False sec by (simp add: t_def Let_def word_gt_0)
    from Suc.IH [OF _ this] have "length out' + unat rem' =
        length out + length (take (unat t) (drop (unat bo) sec)) + unat (rem - t)"
      by simp
    ultimately show ?thesis using t by linarith
  qed (auto split: if_split_asm)
qed simp

section \<open>Reading a file\<close>

lemma read_loop_chain:
  assumes inv: "fat32_inv fs" and fills: "device_fills_sectors (fs_device fs)"
    and "chain_data fs n c = Some content" "unat off < cluster_size fs" "0 < rem"
    and "unat off + unat rem \<le> length content" "unat v + n \<le> unat (cluster_count fs) + 1"
  shows "read_loop fs c off v out rem = Some (JOSH_FAT32_OK, out @ take (unat rem) (drop (unat off) content))"
  using assms(3-7)
proof (induction n arbitrary: c content off v out rem)
  case 0
  then show ?case by (simp add: word_less_nat_alt)
next
  case (Suc n)
  from Suc.prems(1) obtain bs tail where bs: "cluster_data fs c = Some bs" and
    tail: "content = bs @ tail"
    by (rule chain_data_prefix)
  then obtain lba where lba: "cluster_lba fs c = Inr lba"
    "read_run (fs_device fs) lba (unat (sectors_per_cluster fs)) = Some bs"
    by (auto simp: cluster_data_def split: sum.splits)
  let ?spc = "unat (sectors_per_cluster fs)" and ?s = "unat off div 512" and ?bo = "unat off mod 512"
  have spc: "0 < ?spc" "?spc \<le> 128" using inv by (simp_all add: fat32_inv_def)
  have lenbs: "length bs = 512 * ?spc"
    using fills bs by (simp add: cluster_data_length cluster_size_def)
  have s: "unat (off div 512) = ?s" "unat (off mod 512) = ?bo"
    by (simp_all add: unat_div_distrib unat_mod_distrib)
  have s_lt: "?s < ?spc" using Suc.prems(2) by (simp add: cluster_size_def less_mult_imp_div_less mult.commute)
  have run: "read_run (fs_device fs) (lba + ucast (off div 512)) (?spc - ?s) = Some (drop (512 * ?s) bs)"
    using read_run_drop [OF fills lba(2), of ?s] s_lt s(1) by (simp add: ucast_unat_of_nat)
  have "read_sectors fs lba (off div 512) (?spc - ?s) (off mod 512) out rem =
      (True, out @ take (unat rem) (drop ?bo (drop (512 * ?s) bs)),
       of_nat (unat rem - (512 * (?spc - ?s) - ?bo)))"
    using read_sectors_run [OF fills run] s s_lt spc by simp
  moreover have "drop ?bo (drop (512 * ?s) bs) = drop (unat off) bs" by simp
  moreover have "512 * (?spc - ?s) - ?bo = length bs - unat off"
    unfolding lenbs by (simp add: diff_mult_distrib2 diff_diff_left) 
  ultimately have rs: "read_sectors fs lba (off div 512) (?spc - ?s) (off mod 512) out rem =
      (True, out @ take (unat rem) (drop (unat off) bs), of_nat (unat rem - (length bs - unat off)))"
    by simp
  have v: "\<not> cluster_count fs < v" using Suc.prems(5) by (simp add: word_less_nat_alt)
  let ?rem' = "of_nat (unat rem - (length bs - unat off)) :: u32"
  have rem': "unat ?rem' = unat rem - (length bs - unat off)"
    using unsigned_less [of rem, where ?'a = nat] by (simp add: unat_of_nat)
  show ?case
  proof (cases "?rem' = 0")
    case True
    then have "unat rem \<le> length bs - unat off" using rem' by simp
    then have "take (unat rem) (drop (unat off) content) = take (unat rem) (drop (unat off) bs)"
      by (simp add: tail)
    then show ?thesis
      using Suc.prems(3) v lba(1) s rs True by (subst read_loop.simps) (simp add: Let_def)
  next
    case False
    then have big: "length bs - unat off < unat rem" using rem' by (simp add: word_unat_eq_iff)
    have off: "unat off \<le> length bs" using Suc.prems(2) lenbs by (simp add: cluster_size_def)
    from Suc.prems(1) show ?thesis
    proof (cases rule: chain_data_SucE)
      case (1 bs')
      then show ?thesis using big Suc.prems(4) bs by simp
    next
      case (2 bs' nxt rest)
      then have c: "content = bs @ rest" "chain_data fs n nxt = Some rest"
        "next_cluster fs c = Inr nxt" "\<not> nxt \<ge> FAT32_EOC_MIN"
        using bs by (auto simp: chain_next_def split: sum.splits if_split_asm)
      have v1: "unat (v + 1) = unat v + 1"
        using fat32_inv_count [OF inv] v by (simp add: unat_inc [of v "-1"] not_less)
      have "read_loop fs nxt 0 (v + 1) (out @ take (unat rem) (drop (unat off) bs)) ?rem' =
          Some (JOSH_FAT32_OK, (out @ take (unat rem) (drop (unat off) bs)) @ take (unat ?rem') (drop (unat (0 :: u32)) rest))"
      proof (rule Suc.IH [OF c(2)])
        show "unat (0 :: u32) < cluster_size fs" using spc by (simp add: cluster_size_def)
        show "0 < ?rem'" using False by (simp add: word_gt_0)
        show "unat (0 :: u32) + unat ?rem' \<le> length rest"
          using Suc.prems(4) off c(1) rem' by simp
        show "unat (v + 1) + n \<le> unat (cluster_count fs) + 1" using Suc.prems(5) v1 by simp
      qed
      moreover have "take (unat rem) (drop (unat off) content) =
          take (unat rem) (drop (unat off) bs) @ take (unat ?rem') rest"
        using off unfolding c(1) rem' by simp
      ultimately show ?thesis
        using Suc.prems(3) v lba(1) s rs False c(3,4) by (subst read_loop.simps) (simp add: Let_def)
    qed
  qed
qed

lemma cluster_bytes_word:
  assumes "fat32_inv fs"
  shows "unat ((ucast (sectors_per_cluster fs) :: u32) * 512) = cluster_size fs" "0 < cluster_size fs"
proof -
  have "unat (sectors_per_cluster fs) \<le> 128" "0 < unat (sectors_per_cluster fs)"
    using assms by (simp_all add: fat32_inv_def)
  then show "unat ((ucast (sectors_per_cluster fs) :: u32) * 512) = cluster_size fs"
    "0 < cluster_size fs"
    by (simp_all add: cluster_size_def unat_mult_lem [THEN iffD1])
qed

lemma read_file_unfold:
  assumes "attributes file AND FAT_ATTR_DIRECTORY = 0" "offset \<le> file_size file"
    and len: "len = (if len0 > file_size file - offset then file_size file - offset else len0)"
  shows "josh_fat32_read_file (Some fs) (Some file) offset True len0 =
    (if len = 0 then Some (JOSH_FAT32_OK, [], 0)
     else if \<not> cluster_valid fs (first_cluster file) then Some (JOSH_FAT32_CORRUPT, [], 0)
     else
       case skip_loop fs (unat (offset div (ucast (sectors_per_cluster fs) * 512))) (first_cluster file) of
         None \<Rightarrow> Some (JOSH_FAT32_CORRUPT, [], 0)
       | Some cluster \<Rightarrow>
          (case read_loop fs cluster (offset mod (ucast (sectors_per_cluster fs) * 512))
                  (offset div (ucast (sectors_per_cluster fs) * 512)) [] len of
             None \<Rightarrow> None
           | Some (status, out) \<Rightarrow>
               if status = JOSH_FAT32_OK then Some (JOSH_FAT32_OK, out, len)
               else Some (status, out, 0)))"
  using assms(1,2) unfolding len by (simp add: josh_fat32_read_file_def Let_def leD)

lemma read_file_slice:
  assumes inv: "fat32_inv fs" and fills: "device_fills_sectors (fs_device fs)"
    and reg: "attributes file AND FAT_ATTR_DIRECTORY = 0" "offset \<le> file_size file"
    and chain: "chain_data fs n (first_cluster file) = Some content"
      "unat (file_size file) \<le> length content" "n \<le> unat (cluster_count fs) + 1"
  shows "josh_fat32_read_file (Some fs) (Some file) offset True len0 =
    Some (JOSH_FAT32_OK,
      take (min (unat len0) (unat (file_size file) - unat offset)) (drop (unat offset) content),
      min len0 (file_size file - offset))"
proof -
  define len where "len = (if len0 > file_size file - offset then file_size file - offset else len0)"
  have min: "min len0 (file_size file - offset) = len"
    by (auto simp: len_def min_def)
  have avail: "unat (file_size file - offset) = unat (file_size file) - unat offset"
    using reg(2) by (rule unat_diff_le)
  have unat_len: "unat len = min (unat len0) (unat (file_size file) - unat offset)"
    using avail by (simp add: len_def word_less_nat_alt)
  show ?thesis
  proof (cases "len = 0")
    case True
    then show ?thesis
      unfolding min unat_len [symmetric] read_file_unfold [OF reg len_def] by simp
  next
    case False
    then have pos: "0 < unat len" by (simp add: unat_gt_0)
    then have lt: "unat offset + unat len \<le> unat (file_size file)" using unat_len by linarith
    let ?cs = "cluster_size fs" and ?cb = "(ucast (sectors_per_cluster fs) :: u32) * 512"
    have cs: "unat ?cb = ?cs" "0 < ?cs" using cluster_bytes_word [OF inv] .
    let ?k = "unat offset div ?cs"
    have dm: "unat (offset div ?cb) = ?k" "unat (offset mod ?cb) = unat offset mod ?cs"
      by (simp_all add: unat_div_distrib unat_mod_distrib cs)
    have total: "length content = n * ?cs" using fills chain(1) by (rule chain_data_length)
    then have "unat offset < n * ?cs" using lt pos chain(2) by linarith
    then have k: "?k < n" by (simp add: less_mult_imp_div_less)
    then obtain m where "n = Suc m" by (cases n) auto
    with chain(1) obtain bs where "cluster_data fs (first_cluster file) = Some bs"
      by (metis chain_data_prefix)
    then have valid: "cluster_valid fs (first_cluster file)" by (rule cluster_data_valid)
    obtain c where c: "skip_loop fs ?k (first_cluster file) = Some c"
      "chain_data fs (n - ?k) c = Some (drop (?k * ?cs) content)"
      using skip_loop_chain [OF fills chain(1) k] by blast
    have split: "?k * ?cs + unat offset mod ?cs = unat offset" by simp
    have "read_loop fs c (offset mod ?cb) (offset div ?cb) [] len =
        Some (JOSH_FAT32_OK, [] @ take (unat len) (drop (unat (offset mod ?cb)) (drop (?k * ?cs) content)))"
    proof (rule read_loop_chain [OF inv fills c(2)])
      show "unat (offset mod ?cb) < ?cs" using dm cs by simp
      show "0 < len" using False by (simp add: word_gt_0)
      show "unat (offset mod ?cb) + unat len \<le> length (drop (?k * ?cs) content)"
        using lt chain(2) split unfolding dm(2) length_drop by linarith
      show "unat (offset div ?cb) + (n - ?k) \<le> unat (cluster_count fs) + 1"
        using chain(3) k dm by simp
    qed
    moreover have "drop (unat (offset mod ?cb)) (drop (?k * ?cs) content) = drop (unat offset) content"
      unfolding dm(2) drop_drop using split by (simp add: add.commute)
    ultimately show ?thesis
      unfolding min unat_len [symmetric] read_file_unfold [OF reg len_def]
      using False valid c(1) dm(1) by simp
  qed
qed

text \<open>
  C5. Reading a file is slicing its contents. On a mounted file system, for a regular file whose
  chain of \<open>n\<close> clusters is readable and covers the size of its directory entry, any offset inside
  the file and any requested length, the call succeeds and delivers exactly the bytes of the
  concatenated clusters from the offset on, cut at the end of the file.
\<close>

theorem read_file_content:
  assumes inv: "fat32_inv fs" and fills: "device_fills_sectors (fs_device fs)"
    and reg: "attributes file AND FAT_ATTR_DIRECTORY = 0" "offset \<le> file_size file"
    and chain: "chain_data fs n (first_cluster file) = Some content"
      "unat (file_size file) \<le> length content" "n \<le> unat (cluster_count fs) + 1"
  shows "josh_fat32_read_file (Some fs) (Some file) offset True len0 =
    Some (JOSH_FAT32_OK,
      take (min (unat len0) (unat (file_size file) - unat offset)) (drop (unat offset) content),
      min len0 (file_size file - offset))"
  using assms by (rule read_file_slice)

lemma read_loop_count:
  assumes "fat32_inv fs" "device_fills_sectors (fs_device fs)"
    and "read_loop fs c off v out rem = Some (status, out')"
  shows "length out' \<le> length out + unat rem"
    and "status = JOSH_FAT32_OK \<Longrightarrow> length out' = length out + unat rem"
proof -
  have "\<forall>c off out rem status out'. read_loop fs c off v out rem = Some (status, out') \<longrightarrow>
      length out' \<le> length out + unat rem
      \<and> (status = JOSH_FAT32_OK \<longrightarrow> length out' = length out + unat rem)"
    using fat32_inv_count [OF assms(1)]
  proof (induction v rule: count_up_induct)
    case (step v)
    show ?case
    proof (intro allI impI)
      fix c off out rem status out'
      assume r: "read_loop fs c off v out rem = Some (status, out')"
      show "length out' \<le> length out + unat rem
        \<and> (status = JOSH_FAT32_OK \<longrightarrow> length out' = length out + unat rem)"
      proof (cases "0 < rem \<and> v \<le> cluster_count fs \<and> (\<exists>lba. cluster_lba fs c = Inr lba)")
        case True
        then obtain lba where lba: "cluster_lba fs c = Inr lba" by blast
        obtain ok o1 r1 where rs: "read_sectors fs lba (off div 512)
            (unat (sectors_per_cluster fs) - unat (off div 512)) (off mod 512) out rem = (ok, o1, r1)"
          by (metis prod.collapse)
        have "unat (off mod 512) < 512" by (simp add: unat_mod_distrib)
        note b = read_sectors_count [OF assms(2) this rs]
        have "length out' \<le> length o1 + unat r1
            \<and> (status = JOSH_FAT32_OK \<longrightarrow> length out' = length o1 + unat r1)"
          if "read_loop fs d 0 (v + 1) o1 r1 = Some (status, out')" for d
          using step True that by blast
        then have deep: ?thesis if "read_loop fs d 0 (v + 1) o1 r1 = Some (status, out')" for d
          using that b by auto
        have unfold: "(if \<not> ok then Some (JOSH_FAT32_IO_ERROR, o1)
            else if r1 = 0 then Some (JOSH_FAT32_OK, o1)
            else case next_cluster fs c of Inl st \<Rightarrow> Some (st, o1)
              | Inr nxt \<Rightarrow> if nxt \<ge> FAT32_EOC_MIN then Some (JOSH_FAT32_CORRUPT, o1)
                  else read_loop fs nxt 0 (v + 1) o1 r1) = Some (status, out')"
          using r [unfolded read_loop.simps [of fs c off v]] True lba
          by (simp add: Let_def rs leD)
        show ?thesis
          by (cases "next_cluster fs c")
            (use unfold deep b next_cluster_not_ok [of fs c] in \<open>auto split: if_split_asm\<close>)
      next
        case False
        then show ?thesis
          using r [unfolded read_loop.simps [of fs c off v]] cluster_lba_not_ok [of fs c]
          by (auto simp: not_less not_le split: if_split_asm sum.split_asm)
      qed
    qed
  qed
  then show "length out' \<le> length out + unat rem"
    and "status = JOSH_FAT32_OK \<Longrightarrow> length out' = length out + unat rem"
    using assms(3) by blast+
qed

lemma read_file_outcome:
  assumes inv: "fat32_inv fs" and fills: "device_fills_sectors (fs_device fs)"
  shows "\<exists>status out n. josh_fat32_read_file (Some fs) (Some file) offset buffer len0 = Some (status, out, n)
    \<and> length out \<le> unat len0 \<and> length out \<le> unat (file_size file) - unat offset
    \<and> (if status = JOSH_FAT32_OK then length out = unat n else n = 0)"
proof (cases "buffer \<and> attributes file AND FAT_ATTR_DIRECTORY = 0 \<and> offset \<le> file_size file")
  case True
  then have reg: "attributes file AND FAT_ATTR_DIRECTORY = 0" "offset \<le> file_size file" and buffer
    by simp_all
  define len where "len = (if len0 > file_size file - offset then file_size file - offset else len0)"
  have avail: "unat (file_size file - offset) = unat (file_size file) - unat offset"
    using True by (simp add: unat_diff_le)
  then have len: "unat len \<le> unat len0" "unat len \<le> unat (file_size file) - unat offset"
    by (auto simp: len_def word_less_nat_alt)
  let ?cb = "(ucast (sectors_per_cluster fs) :: u32) * 512"
  have "\<exists>status out. read_loop fs c (offset mod ?cb) (offset div ?cb) [] len = Some (status, out)
      \<and> length out \<le> unat len \<and> (status = JOSH_FAT32_OK \<longrightarrow> length out = unat len)" for c
    using read_loop_returns [OF inv] read_loop_count [OF inv fills]
    by (metis (no_types, lifting) add_0 list.size(3) surj_pair)
  then obtain st o1 where rl: "\<And>c. read_loop fs c (offset mod ?cb) (offset div ?cb) [] len = Some (st c, o1 c)"
    "\<And>c. length (o1 c) \<le> unat len" "\<And>c. st c = JOSH_FAT32_OK \<Longrightarrow> length (o1 c) = unat len"
    by metis
  have "length (o1 c) \<le> unat len0" "length (o1 c) \<le> unat (file_size file) - unat offset" for c
    using rl(2) [of c] len by linarith+
  then show ?thesis
    using \<open>buffer\<close> rl len by (simp add: read_file_unfold [OF reg len_def]) (auto split: option.split)
next
  case False
  then show ?thesis
    by (cases buffer) (auto simp: josh_fat32_read_file_def Let_def not_less not_le)
qed


section \<open>Only the partition is read\<close>

definition partition_region :: "josh_fat32 \<Rightarrow> u64 set" where
  "partition_region fs =
     {lba. unat (partition_lba fs) \<le> unat lba
         \<and> unat lba < unat (partition_lba fs) + unat (partition_sectors fs)}"

definition on_device :: "josh_fat32 \<Rightarrow> josh_block_device \<Rightarrow> josh_fat32" where
  "on_device fs dev = fs\<lparr>fs_device := dev\<rparr>"

lemma on_device_fields [simp]:
  "fs_device (on_device fs dev) = dev" "partition_lba (on_device fs dev) = partition_lba fs"
  "partition_sectors (on_device fs dev) = partition_sectors fs"
  "fat_lba (on_device fs dev) = fat_lba fs" "data_lba (on_device fs dev) = data_lba fs"
  "sectors_per_fat (on_device fs dev) = sectors_per_fat fs"
  "cluster_count (on_device fs dev) = cluster_count fs"
  "sectors_per_cluster (on_device fs dev) = sectors_per_cluster fs"
  "root_cluster (on_device fs dev) = root_cluster fs"
  by (simp_all add: on_device_def)

lemma on_device_clusters [simp]:
  "cluster_valid (on_device fs dev) c = cluster_valid fs c"
  "cluster_lba (on_device fs dev) c = cluster_lba fs c"
  by (simp_all add: cluster_valid_def cluster_lba_def Let_def)

lemma cluster_sector_in_region:
  assumes "fat32_inv fs" "cluster_lba fs c = Inr lba" "i < unat (sectors_per_cluster fs)"
  shows "lba + of_nat i \<in> partition_region fs"
proof -
  have valid: "cluster_valid fs c" using assms(2) by (auto simp: cluster_lba_def split: if_split_asm)
  have lba: "unat lba = unat (partition_lba fs) + cluster_start fs c"
    using cluster_lba_ok [OF assms(1) valid] assms(2) by auto
  note b = cluster_start_bound [OF assms(1) valid]
  have "unat lba + i < 2 ^ 64"
    using lba b assms(1,3) unsigned_less [of "dev_sector_count (fs_device fs)", where ?'a = nat]
    by (simp add: fat32_inv_def)
  then have "unat (lba + of_nat i) = unat lba + i"
    by (simp add: unat_add_lem [THEN iffD1] unat_of_nat)
  then show ?thesis using lba b assms(3) by (simp add: partition_region_def)
qed

lemma fat_sector_in_region:
  assumes "fat32_inv fs" "i < ucast (sectors_per_fat fs)"
  shows "partition_lba fs + ucast (fat_lba fs) + i \<in> partition_region fs"
proof -
  have i: "unat i < unat (sectors_per_fat fs)" using assms(2) by (simp add: word_less_nat_alt)
  have "unat (sectors_per_fat fs) \<le> unat (fat_count fs) * unat (sectors_per_fat fs)"
    using assms(1) by (auto simp: fat32_inv_def)
  then have "unat (fat_lba fs) + unat (sectors_per_fat fs) \<le> unat (partition_sectors fs)"
    using assms(1) unfolding fat32_inv_def by linarith
  then have le: "unat (fat_lba fs) + unat i < unat (partition_sectors fs)" using i by linarith
  then have no_wrap: "unat (partition_lba fs) + (unat (fat_lba fs) + unat i) < 2 ^ 64"
    using assms(1) unsigned_less [of "dev_sector_count (fs_device fs)", where ?'a = nat]
    by (simp add: fat32_inv_def)
  then have "unat (ucast (fat_lba fs) + i) = unat (fat_lba fs) + unat i"
    by (simp add: unat_add_lem [THEN iffD1])
  then have "unat (partition_lba fs + (ucast (fat_lba fs) + i)) =
      unat (partition_lba fs) + (unat (fat_lba fs) + unat i)"
    using no_wrap by (simp add: unat_add_lem [THEN iffD1])
  then show ?thesis using le by (simp add: partition_region_def add.assoc)
qed

lemma next_cluster_agree:
  assumes "fat32_inv fs" "agree_on (partition_region fs) (fs_device fs) dev"
  shows "next_cluster (on_device fs dev) c = next_cluster fs c"
proof -
  have "read_sector dev (partition_lba fs + ucast (fat_lba fs) + i) =
      read_sector (fs_device fs) (partition_lba fs + ucast (fat_lba fs) + i)"
    if "\<not> ucast (sectors_per_fat fs) \<le> i" for i
    using agree_onD [OF assms(2) fat_sector_in_region [OF assms(1)]] that by (simp add: not_le)
  then show ?thesis by (simp add: next_cluster_def Let_def)
qed

lemma scan_sectors_agree:
  assumes "\<forall>i. unat s \<le> i \<and> i < unat s + n \<longrightarrow>
      read_sector dev (base + of_nat i) = read_sector (fs_device fs) (base + of_nat i)"
    and "unat s + n \<le> 255"
  shows "scan_sectors (on_device fs dev) base name s n = scan_sectors fs base name s n"
  using assms
proof (induction n arbitrary: s)
  case (Suc n)
  have "read_sector dev (base + ucast s) = read_sector (fs_device fs) (base + ucast s)"
    using Suc.prems(1) [rule_format, of "unat s"] by simp
  moreover have "unat (s + 1) = unat s + 1"
    using Suc.prems(2) by (simp add: unat_add_lem [THEN iffD1])
  ultimately show ?case
    using Suc.prems Suc.IH [of "s + 1"] by (simp split: option.split)
qed simp

lemma read_sectors_agree:
  assumes "\<forall>i. unat s \<le> i \<and> i < unat s + n \<longrightarrow>
      read_sector dev (base + of_nat i) = read_sector (fs_device fs) (base + of_nat i)"
    and "unat s + n \<le> 255"
  shows "read_sectors (on_device fs dev) base s n bo out rem = read_sectors fs base s n bo out rem"
  using assms
proof (induction n arbitrary: s bo out rem)
  case (Suc n)
  have "read_sector dev (base + ucast s) = read_sector (fs_device fs) (base + ucast s)"
    using Suc.prems(1) [rule_format, of "unat s"] by simp
  moreover have "unat (s + 1) = unat s + 1"
    using Suc.prems(2) by (simp add: unat_add_lem [THEN iffD1])
  ultimately show ?case
    using Suc.prems Suc.IH [of "s + 1"] by (simp add: Let_def split: option.split)
qed simp

lemma cluster_sectors_agree:
  assumes "fat32_inv fs" "agree_on (partition_region fs) (fs_device fs) dev"
    and "cluster_lba fs c = Inr base" "i < unat (sectors_per_cluster fs)"
  shows "read_sector dev (base + of_nat i) = read_sector (fs_device fs) (base + of_nat i)"
  using agree_onD [OF assms(2) cluster_sector_in_region [OF assms(1,3,4)]] by simp

lemma find_loop_agree:
  assumes "fat32_inv fs" "agree_on (partition_region fs) (fs_device fs) dev"
  shows "find_loop (on_device fs dev) name v c = find_loop fs name v c"
proof -
  have "\<forall>c. find_loop (on_device fs dev) name v c = find_loop fs name v c"
    using fat32_inv_count [OF assms(1)]
  proof (induction v rule: count_up_induct)
    case (step v)
    have "scan_sectors (on_device fs dev) base name 0 (unat (sectors_per_cluster fs)) =
        scan_sectors fs base name 0 (unat (sectors_per_cluster fs))"
      if "cluster_lba fs c = Inr base" for c base
      using scan_sectors_agree [of 0] cluster_sectors_agree [OF assms that] assms(1)
      by (simp add: fat32_inv_def)
    then show ?case using step next_cluster_agree [OF assms]
      by (subst (1 2) find_loop.simps) (auto split: sum.split option.split)
  qed
  then show ?thesis ..
qed

lemma read_loop_agree:
  assumes "fat32_inv fs" "agree_on (partition_region fs) (fs_device fs) dev"
  shows "read_loop (on_device fs dev) c off v out rem = read_loop fs c off v out rem"
proof -
  have "\<forall>c off out rem. read_loop (on_device fs dev) c off v out rem = read_loop fs c off v out rem"
    using fat32_inv_count [OF assms(1)]
  proof (induction v rule: count_up_induct)
    case (step v)
    have spc: "unat (sectors_per_cluster fs) \<le> 128" using assms(1) by (simp add: fat32_inv_def)
    have "read_sectors (on_device fs dev) base s (unat (sectors_per_cluster fs) - unat s) bo out rem =
        read_sectors fs base s (unat (sectors_per_cluster fs) - unat s) bo out rem"
      if "cluster_lba fs c = Inr base" for c base s bo out rem
    proof (cases "unat s \<le> unat (sectors_per_cluster fs)")
      case True
      then show ?thesis
        using read_sectors_agree [of s] cluster_sectors_agree [OF assms that] spc by simp
    qed simp
    then show ?case using step next_cluster_agree [OF assms]
      by (subst (1 2) read_loop.simps)
        (auto simp: Let_def not_less split: sum.split prod.split)
  qed
  then show ?thesis by blast
qed

lemma skip_loop_agree:
  assumes "fat32_inv fs" "agree_on (partition_region fs) (fs_device fs) dev"
  shows "skip_loop (on_device fs dev) n c = skip_loop fs n c"
  by (induction n arbitrary: c) (simp_all add: next_cluster_agree [OF assms] split: sum.split)

lemma open_loop_agree:
  assumes "fat32_inv fs" "agree_on (partition_region fs) (fs_device fs) dev"
  shows "open_loop (on_device fs dev) d path = open_loop fs d path"
  using assms
proof (induction fs d path rule: open_loop.induct)
  case (1 fs d path)
  have "find_in_directory (on_device fs dev) d name = find_in_directory fs d name" for name
    by (simp add: find_in_directory_def find_loop_agree [OF 1(2,3)])
  then show ?case
    using 1 by (subst (1 2) open_loop.simps) (auto split: sum.split option.split)
qed

lemma open_path_agree:
  assumes "fat32_inv fs" "agree_on (partition_region fs) (fs_device fs) dev"
  shows "josh_fat32_open_path (Some (on_device fs dev)) path ptr = josh_fat32_open_path (Some fs) path ptr"
  by (simp add: josh_fat32_open_path_def open_loop_agree [OF assms] split: option.split)

lemma read_file_agree:
  assumes "fat32_inv fs" "agree_on (partition_region fs) (fs_device fs) dev"
  shows "josh_fat32_read_file (Some (on_device fs dev)) fl offset buffer len
      = josh_fat32_read_file (Some fs) fl offset buffer len"
  by (simp add: josh_fat32_read_file_def Let_def skip_loop_agree [OF assms]
      read_loop_agree [OF assms] split: option.split)

text \<open>
  C25. The driver reads nothing outside the mounted partition: two disks that agree on the sectors
  of the partition give the same answers to every path lookup and every read.
\<close>

theorem fat32_reads_only_partition:
  assumes "fat32_inv fs" "agree_on (partition_region fs) (fs_device fs) dev"
  shows "josh_fat32_open_path (Some (on_device fs dev)) path ptr = josh_fat32_open_path (Some fs) path ptr
    \<and> josh_fat32_read_file (Some (on_device fs dev)) fl offset buffer len
        = josh_fat32_read_file (Some fs) fl offset buffer len"
  using open_path_agree [OF assms] read_file_agree [OF assms] by blast

text \<open>
  C22. A volume that mounts is laid out soundly: it lies inside the partition and on the device, the
  FAT copies sit between the reserved sectors and the data area, every cluster number the driver
  accepts denotes sectors of the data area, distinct clusters are disjoint, the root directory is a
  cluster, and no address computed from these numbers wraps.
\<close>

theorem mount_layout:
  assumes "josh_fat32_mount (Some dev) (Some part) ptr = Inr fs"
  shows "fat32_inv fs \<and> fs_device fs = dev \<and> partition_lba fs = first_lba part
    \<and> unat (partition_sectors fs) \<le> unat (sector_count part)
    \<and> (\<forall>c lba. cluster_lba fs c = Inr lba \<longrightarrow> cluster_valid fs c
        \<and> unat lba = unat (partition_lba fs) + cluster_start fs c
        \<and> unat (data_lba fs) \<le> cluster_start fs c
        \<and> cluster_start fs c + unat (sectors_per_cluster fs) \<le> unat (partition_sectors fs))
    \<and> (\<forall>c d. cluster_valid fs c \<and> cluster_valid fs d \<and> c \<noteq> d \<longrightarrow>
        {cluster_start fs c ..< cluster_start fs c + unat (sectors_per_cluster fs)}
        \<inter> {cluster_start fs d ..< cluster_start fs d + unat (sectors_per_cluster fs)} = {})"
proof -
  note inv = mount_inv [OF assms]
  have "cluster_valid fs c \<and> unat lba = unat (partition_lba fs) + cluster_start fs c
      \<and> unat (data_lba fs) \<le> cluster_start fs c
      \<and> cluster_start fs c + unat (sectors_per_cluster fs) \<le> unat (partition_sectors fs)"
    if "cluster_lba fs c = Inr lba" for c lba
  proof -
    have valid: "cluster_valid fs c" using that cluster_lba_invalid [of fs c] by auto
    obtain lba' where "cluster_lba fs c = Inr lba'"
      "unat lba' = unat (partition_lba fs) + cluster_start fs c"
      using inv(1) valid by (rule cluster_lba_ok)
    then show ?thesis
      using valid cluster_start_bound [OF inv(1) valid] that by (simp add: cluster_start_def)
  qed
  then show ?thesis using inv clusters_disjoint [OF inv(1)] by blast
qed

lemma scan_entries_found:
  "scan_entries entry name n = Some (Inr fl) \<Longrightarrow> file_size fl \<noteq> 0 \<Longrightarrow> 2 \<le> first_cluster fl"
  by (induction entry name n rule: scan_entries.induct)
    (auto simp: Let_def not_less split: if_split_asm)

lemma scan_sectors_found:
  "scan_sectors fs base name s n = Some (Inr fl) \<Longrightarrow> file_size fl \<noteq> 0 \<Longrightarrow> 2 \<le> first_cluster fl"
  by (induction fs base name s n rule: scan_sectors.induct)
    (auto dest: scan_entries_found split: option.split_asm)

lemma find_loop_found:
  assumes "fat32_inv fs" "find_loop fs name v c = Some (Inr fl)" "file_size fl \<noteq> 0"
  shows "2 \<le> first_cluster fl"
proof -
  have "\<forall>c. find_loop fs name v c = Some (Inr fl) \<longrightarrow> 2 \<le> first_cluster fl"
    using fat32_inv_count [OF assms(1)]
  proof (induction v rule: count_up_induct)
    case (step v)
    show ?case
    proof (intro allI impI)
      fix c
      assume "find_loop fs name v c = Some (Inr fl)"
      then show "2 \<le> first_cluster fl"
        unfolding find_loop.simps [of fs name v c] using step assms(3)
        by (auto dest: scan_sectors_found split: sum.split_asm option.split_asm if_split_asm)
    qed
  qed
  then show ?thesis using assms(2) by blast
qed

lemma open_loop_found:
  assumes "fat32_inv fs" "open_loop fs d path = Some (Inr fl)" "file_size fl \<noteq> 0"
  shows "2 \<le> first_cluster fl"
  using assms
proof (induction fs d path rule: open_loop.induct)
  case (1 fs d path)
  show ?case
    using 1(3) [unfolded open_loop.simps [of fs d]] 1(1,2,4) find_loop_found [OF 1(2), of _ 0 d fl]
    by (auto simp: find_in_directory_def split: sum.split_asm option.split_asm if_split_asm)
qed

lemma open_path_outcome:
  assumes "fat32_inv fs"
  shows "\<exists>r. josh_fat32_open_path (Some fs) (Some path) True = Some r
    \<and> (\<forall>fl. r = Inr fl \<and> file_size fl \<noteq> 0 \<longrightarrow> 2 \<le> first_cluster fl)"
proof (cases "skip_slashes path = []")
  case True
  then show ?thesis by (simp add: josh_fat32_open_path_def)
next
  case False
  obtain r where r: "open_loop fs (root_cluster fs) (skip_slashes path) = Some r"
    using open_loop_returns [OF assms] by blast
  with False show ?thesis
    using open_loop_found [OF assms] by (auto simp: josh_fat32_open_path_def)
qed

text \<open>
  Looking up a path on a mounted volume always returns, even when the directory chains are
  cyclic, and a non-empty file that is found has a data cluster number.
\<close>

lemma open_path_total:
  assumes "fat32_inv fs"
  shows "\<exists>r. josh_fat32_open_path (Some fs) (Some path) True = Some r
    \<and> (\<forall>fl. r = Inr fl \<and> file_size fl \<noteq> 0 \<longrightarrow> 2 \<le> first_cluster fl)"
  using assms by (rule open_path_outcome)

section \<open>A concrete volume\<close>

text \<open>
  A volume of one-sector clusters at sector 2048: 32 reserved sectors, one FAT of 512 sectors, the
  root directory in cluster 2 and one file of two clusters, 3 and 4.
\<close>

definition sample_boot :: bytes where
  "sample_boot = replicate 11 0 @ le16_bytes 512 @ [1] @ le16_bytes 32 @ [1] @ le16_bytes 0
     @ le16_bytes 0 @ [0] @ le16_bytes 0 @ replicate 8 0 @ le32_bytes 66069 @ le32_bytes 512
     @ replicate 4 0 @ le32_bytes 2 @ replicate 462 0 @ [0x55, 0xAA]"

definition sample_fat :: bytes where
  "sample_fat = le32_bytes 0x0FFFFFF8 @ le32_bytes 0x0FFFFFFF @ le32_bytes 0x0FFFFFFF
     @ le32_bytes 4 @ le32_bytes 0x0FFFFFFF @ replicate 492 0"

definition sample_root :: bytes where
  "sample_root = ascii ''KERNEL  ELF'' @ [0x20] @ replicate 8 0 @ le16_bytes 0 @ replicate 4 0
     @ le16_bytes 3 @ le32_bytes 700 @ replicate 480 0"

definition sample_volume :: josh_block_device where
  "sample_volume = memory_disk (\<lambda>lba. if lba = 2048 then sample_boot
     else if lba = 2080 then sample_fat else if lba = 2592 then sample_root
     else if lba = 2593 then replicate 512 1 else if lba = 2594 then replicate 512 2
     else replicate 512 0) 70000"

definition sample_partition :: josh_partition where
  "sample_partition = \<lparr> scheme = JOSH_PARTITION_SCHEME_MBR, first_lba = 2048, sector_count = 67000,
     mbr_type = 0x0C, gpt_type_guid = replicate 16 0, gpt_unique_guid = replicate 16 0 \<rparr>"

definition sample_fs :: josh_fat32 where
  "sample_fs = \<lparr> fs_device = sample_volume, partition_lba = 2048, partition_sectors = 66069,
     fat_lba = 32, data_lba = 544, sectors_per_fat = 512, cluster_count = 65525,
     root_cluster = 2, sectors_per_cluster = 1, fat_count = 1 \<rparr>"

definition sample_file :: josh_fat32_file where
  "sample_file = \<lparr> first_cluster = 3, file_size = 700, attributes = 0x20 \<rparr>"

lemma sample_fs_fields [simp]:
  "fs_device sample_fs = sample_volume" "partition_lba sample_fs = 2048"
  "partition_sectors sample_fs = 66069" "fat_lba sample_fs = 32" "data_lba sample_fs = 544"
  "sectors_per_fat sample_fs = 512" "cluster_count sample_fs = 65525" "root_cluster sample_fs = 2"
  "sectors_per_cluster sample_fs = 1"
  by (simp_all add: sample_fs_def)

lemma sample_volume_reads [simp]:
  "read_sector sample_volume 2048 = Some sample_boot"
  "read_sector sample_volume 2080 = Some sample_fat"
  "read_sector sample_volume 2592 = Some sample_root"
  "read_sector sample_volume 2593 = Some (replicate 512 1)"
  "read_sector sample_volume 2594 = Some (replicate 512 2)"
  "dev_sector_count sample_volume = 70000"
  by (simp_all add: sample_volume_def)

lemma sample_volume_fills: "device_fills_sectors sample_volume"
  unfolding sample_volume_def
  by (rule memory_disk_fills) (simp add: sample_boot_def sample_fat_def sample_root_def)

lemma sample_mount: "josh_fat32_mount (Some sample_volume) (Some sample_partition) True = Inr sample_fs"
proof -
  have f: "sample_boot ! 510 = 0x55" "sample_boot ! 511 = 0xAA" "sample_boot ! 13 = 1" "sample_boot ! 16 = 1"
    "read_le16 (drop 11 sample_boot) = 512" "read_le16 (drop 14 sample_boot) = 32"
    "read_le16 (drop 17 sample_boot) = 0" "read_le16 (drop 19 sample_boot) = 0"
    "read_le16 (drop 22 sample_boot) = 0" "read_le32 (drop 32 sample_boot) = 66069"
    "read_le32 (drop 36 sample_boot) = 512" "read_le32 (drop 44 sample_boot) = 2"
    by (simp_all add: sample_boot_def nth_append read_le16_le16_bytes read_le32_le32_bytes)
  show ?thesis
    by (simp add: josh_fat32_mount_def sample_partition_def f Let_def power_of_two_u8_def
        sample_fs_def FAT32_MIN_CLUSTERS_def)
qed

lemma sample_inv: "fat32_inv sample_fs" "device_fills_sectors (fs_device sample_fs)"
  by (rule mount_inv [OF sample_mount]) (simp add: sample_volume_fills)

lemma sample_chain: "chain_data sample_fs 2 3 = Some (replicate 512 1 @ replicate 512 2)"
proof -
  have v: "cluster_valid sample_fs 3" "cluster_valid sample_fs 4"
    by (simp_all add: cluster_valid_def)
  have d: "cluster_data sample_fs 3 = Some (replicate 512 1)" "cluster_data sample_fs 4 = Some (replicate 512 2)"
    by (simp_all add: cluster_data_def cluster_lba_def v)
  have "next_cluster sample_fs 3 = Inr 4"
    by (simp add: next_cluster_def v Let_def sample_fat_def fat32_constants
        read_le32_le32_bytes)
  then have "chain_next sample_fs 3 = Some 4" by (simp add: chain_next_def FAT32_EOC_MIN_def)
  with d show ?thesis by (simp add: numeral_2_eq_2)
qed

theorem mount_layout_witness:
  "josh_fat32_mount (Some sample_volume) (Some sample_partition) True = Inr sample_fs
   \<and> fat32_inv sample_fs \<and> unat (partition_sectors sample_fs) \<le> unat (sector_count sample_partition)"
  using mount_layout [OF sample_mount] sample_mount by simp

theorem read_file_content_witness:
  "josh_fat32_read_file (Some sample_fs) (Some sample_file) 500 True 100 =
     Some (JOSH_FAT32_OK, replicate 12 1 @ replicate 88 2, 100)"
  using read_file_content [OF sample_inv, of sample_file 500 2 "replicate 512 1 @ replicate 512 2" 100]
    sample_chain
  by (simp add: sample_file_def FAT_ATTR_DIRECTORY_def min_def)


theorem open_path_total_witness:
  "\<exists>r. josh_fat32_open_path (Some sample_fs) (Some (ascii ''/kernel.elf'')) True = Some r"
  using open_path_total [OF sample_inv(1), of "ascii ''/kernel.elf''"] by auto

definition sample_volume_other :: josh_block_device where
  "sample_volume_other = memory_disk (\<lambda>lba. if lba = 0 then replicate 512 0xFF
     else the (read_sector sample_volume lba)) 70000"

theorem fat32_reads_only_partition_witness:
  "read_sector sample_volume 0 \<noteq> read_sector sample_volume_other 0
   \<and> josh_fat32_open_path (Some (on_device sample_fs sample_volume_other)) (Some (ascii ''/KERNEL.ELF'')) True
     = josh_fat32_open_path (Some sample_fs) (Some (ascii ''/KERNEL.ELF'')) True"
proof -
  have "agree_on (partition_region sample_fs) sample_volume sample_volume_other"
    by (auto simp: agree_on_def partition_region_def sample_volume_other_def
        sample_volume_def)
  then have "agree_on (partition_region sample_fs) (fs_device sample_fs) sample_volume_other"
    by simp
  from fat32_reads_only_partition [OF sample_inv(1) this]
  have "josh_fat32_open_path (Some (on_device sample_fs sample_volume_other)) (Some (ascii ''/KERNEL.ELF'')) True
     = josh_fat32_open_path (Some sample_fs) (Some (ascii ''/KERNEL.ELF'')) True" by blast
  moreover have "read_sector sample_volume 0 \<noteq> read_sector sample_volume_other 0"
    by (simp add: sample_volume_def sample_volume_other_def)
  ultimately show ?thesis by blast
qed


section \<open>Directory lookup\<close>

text \<open>
  The specification: a directory is a list of 32-byte entries; entries from the first one with a
  zero byte on do not exist; deleted entries, long-name fragments and volume labels never match.
\<close>

fun dir_entries :: "nat \<Rightarrow> bytes \<Rightarrow> bytes list" where
  "dir_entries 0 content = []"
| "dir_entries (Suc n) content = take 32 content # dir_entries n (drop 32 content)"

definition dir_match :: "bytes \<Rightarrow> bytes \<Rightarrow> bool" where
  "dir_match name e \<longleftrightarrow>
     e ! 0 \<noteq> 0xE5 \<and> e ! 11 \<noteq> FAT_ATTR_LFN \<and> e ! 11 AND FAT_ATTR_VOLUME = 0 \<and> take 11 e = name"

definition dir_lookup :: "bytes \<Rightarrow> bytes list \<Rightarrow> josh_fat32_status + josh_fat32_file" where
  "dir_lookup name es =
     (case find (dir_match name) (takeWhile (\<lambda>e. e ! 0 \<noteq> 0) es) of
        None \<Rightarrow> Inl JOSH_FAT32_NOT_FOUND
      | Some e \<Rightarrow>
          if first_cluster (entry_file e) < 2 \<and> file_size (entry_file e) \<noteq> 0
          then Inl JOSH_FAT32_CORRUPT else Inr (entry_file e))"

fun dir_scan :: "bytes \<Rightarrow> bytes list \<Rightarrow> (josh_fat32_status + josh_fat32_file) option" where
  "dir_scan name [] = None"
| "dir_scan name (e # es) =
     (if e ! 0 = 0 then Some (Inl JOSH_FAT32_NOT_FOUND)
      else if dir_match name e
      then Some (if first_cluster (entry_file e) < 2 \<and> file_size (entry_file e) \<noteq> 0
                 then Inl JOSH_FAT32_CORRUPT else Inr (entry_file e))
      else dir_scan name es)"

lemma dir_scan_lookup:
  "dir_lookup name es = (case dir_scan name es of None \<Rightarrow> Inl JOSH_FAT32_NOT_FOUND | Some r \<Rightarrow> r)"
  by (induction es) (auto simp: dir_lookup_def)

lemma dir_scan_append:
  "dir_scan name (xs @ ys) = (case dir_scan name xs of None \<Rightarrow> dir_scan name ys | Some r \<Rightarrow> Some r)"
  by (induction xs) auto

lemma dir_entries_append:
  "length a = 32 * m \<Longrightarrow> dir_entries (m + k) (a @ b) = dir_entries m a @ dir_entries k b"
  by (induction m arbitrary: a) auto

lemma entry_take_32:
  assumes "32 \<le> length e"
  shows "entry_file (take 32 e) = entry_file e" "take 32 e ! 0 = e ! 0" "take 32 e ! 11 = e ! 11"
    "take 11 (take 32 e) = take 11 e"
  using assms by (simp_all add: entry_file_def read_le16_def read_le32_def min_def)

lemma scan_entries_dir_scan:
  assumes "length name = 11" "32 * n \<le> length e"
  shows "scan_entries e name n = dir_scan name (dir_entries n e)"
  using assms(2)
proof (induction n arbitrary: e)
  case (Suc n)
  then have e: "32 \<le> length e" and IH: "scan_entries (drop 32 e) name n = dir_scan name (dir_entries n (drop 32 e))"
    by simp_all
  have "memcmp e name 11 = 0 \<longleftrightarrow> take 11 e = name"
    using e assms(1) memcmp_zero_iff [of 11 e name] by simp
  then show ?case
    using IH by (auto simp: entry_take_32 [OF e] dir_match_def Let_def)
qed simp

lemma scan_sectors_dir_scan:
  assumes "device_fills_sectors (fs_device fs)" "length name = 11"
    and "read_run (fs_device fs) (base + ucast s) n = Some bs" "unat s + n \<le> 255"
  shows "scan_sectors fs base name s n = dir_scan name (dir_entries (16 * n) bs)"
  using assms(3,4)
proof (induction n arbitrary: s bs)
  case (Suc n)
  then obtain sec rest where r: "read_sector (fs_device fs) (base + ucast s) = Some sec"
    "read_run (fs_device fs) (base + ucast s + 1) n = Some rest" "bs = sec @ rest"
    by (auto split: option.splits)
  have len: "length sec = 512" using assms(1) r(1) by (rule device_fills_sectors_length)
  have s1: "unat (s + 1) = unat s + 1"
    using Suc.prems(2) by (simp add: unat_add_lem [THEN iffD1])
  then have "ucast (s + 1) = (ucast s + 1 :: u64)"
    using Suc.prems(2) by (simp add: word_unat_eq_iff unat_add_lem [THEN iffD1])
  then have "read_run (fs_device fs) (base + ucast (s + 1)) n = Some rest"
    using r(2) by (simp add: add.assoc)
  then have IH: "scan_sectors fs base name (s + 1) n = dir_scan name (dir_entries (16 * n) rest)"
    using Suc.IH s1 Suc.prems(2) by simp
  have "dir_entries (16 * Suc n) bs = dir_entries 16 sec @ dir_entries (16 * n) rest"
    using dir_entries_append [of sec 16 "16 * n" rest] len by (simp add: r(3))
  then show ?case
    using r(1) IH scan_entries_dir_scan [OF assms(2), of 16 sec] len
    by (simp add: dir_scan_append split: option.split)
qed simp

text \<open>The \<open>n\<close>-th cluster of the chain is its last one.\<close>

fun chain_ends :: "josh_fat32 \<Rightarrow> nat \<Rightarrow> u32 \<Rightarrow> bool" where
  "chain_ends fs 0 c = False"
| "chain_ends fs (Suc n) c =
     (if n = 0 then (case next_cluster fs c of Inl st \<Rightarrow> False | Inr nxt \<Rightarrow> nxt \<ge> FAT32_EOC_MIN)
      else (case chain_next fs c of None \<Rightarrow> False | Some nxt \<Rightarrow> chain_ends fs n nxt))"

lemma find_loop_dir_scan:
  assumes inv: "fat32_inv fs" and fills: "device_fills_sectors (fs_device fs)" and len: "length name = 11"
    and "chain_data fs n c = Some content" "chain_ends fs n c" "unat v + n \<le> unat (cluster_count fs) + 1"
  shows "find_loop fs name v c =
    Some (dir_lookup name (dir_entries (n * (16 * unat (sectors_per_cluster fs))) content))"
  using assms(4-6)
proof (induction n arbitrary: v c content)
  case (Suc n)
  let ?k = "16 * unat (sectors_per_cluster fs)"
  from Suc.prems(1) obtain bs tail where bs: "cluster_data fs c = Some bs" and tail: "content = bs @ tail"
    by (rule chain_data_prefix)
  then obtain lba where lba: "cluster_lba fs c = Inr lba"
    "read_run (fs_device fs) lba (unat (sectors_per_cluster fs)) = Some bs"
    by (auto simp: cluster_data_def split: sum.splits)
  have spc: "unat (sectors_per_cluster fs) \<le> 128" using inv by (simp add: fat32_inv_def)
  have scan: "scan_sectors fs lba name 0 (unat (sectors_per_cluster fs)) = dir_scan name (dir_entries ?k bs)"
    using scan_sectors_dir_scan [OF fills len, of lba 0] lba(2) spc by simp
  have lenbs: "length bs = 32 * ?k"
    using fills bs by (simp add: cluster_data_length cluster_size_def)
  have v: "v \<le> cluster_count fs" using Suc.prems(3) by (simp add: word_le_nat_alt)
  have split: "dir_entries (Suc n * ?k) content = dir_entries ?k bs @ dir_entries (n * ?k) tail"
    using dir_entries_append [OF lenbs, of "n * ?k" tail] by (simp add: tail)
  show ?case
  proof (cases "dir_scan name (dir_entries ?k bs)")
    case (Some r)
    then show ?thesis
      unfolding find_loop.simps [of fs name v c] split dir_scan_lookup dir_scan_append
      using v lba(1) scan by simp
  next
    case None
    show ?thesis
    proof (cases "n = 0")
      case True
      then obtain nxt where "next_cluster fs c = Inr nxt" "nxt \<ge> FAT32_EOC_MIN"
        using Suc.prems(2) by (auto split: sum.split_asm)
      then show ?thesis
        unfolding find_loop.simps [of fs name v c] split dir_scan_lookup dir_scan_append
        using v lba(1) scan None True by simp
    next
      case False
      then obtain nxt where nxt: "chain_next fs c = Some nxt" "chain_data fs n nxt = Some tail"
        "chain_ends fs n nxt"
        using Suc.prems(1,2) bs tail by (auto split: option.split_asm)
      then have n2: "next_cluster fs c = Inr nxt" "\<not> nxt \<ge> FAT32_EOC_MIN"
        by (auto simp: chain_next_def split: sum.split_asm if_split_asm)
      have "unat (v + 1) = unat v + 1"
        using fat32_inv_count [OF inv] v by (simp add: unat_inc [of v "-1"])
      then have "find_loop fs name (v + 1) nxt = Some (dir_lookup name (dir_entries (n * ?k) tail))"
        using Suc.IH [OF nxt(2,3), of "v + 1"] Suc.prems(3) by simp
      then show ?thesis
        unfolding find_loop.simps [of fs name v c] split dir_scan_lookup dir_scan_append
        using v lba(1) scan None n2 by simp
    qed
  qed
qed simp

text \<open>
  C23. Walking a directory cluster by cluster and sector by sector is looking the name up in the
  list of entries of the whole directory: the first live entry with that short name decides, entries
  behind the end marker do not exist, and a directory without the name gives \<open>NOT_FOUND\<close>.
\<close>

theorem find_in_directory_lookup:
  assumes "fat32_inv fs" "device_fills_sectors (fs_device fs)" "length name = 11"
    and "chain_data fs n c = Some content" "chain_ends fs n c" "n \<le> unat (cluster_count fs) + 1"
  shows "find_in_directory fs c name = Some (dir_lookup name (dir_entries (length content div 32) content))"
proof -
  have "length content div 32 = n * (16 * unat (sectors_per_cluster fs))"
    using chain_data_length [OF assms(2,4)] by (simp add: cluster_size_def)
  then show ?thesis
    using find_loop_dir_scan [OF assms(1-5), of 0] assms(6) by (simp add: find_in_directory_def)
qed

theorem find_in_directory_lookup_witness:
  "find_in_directory sample_fs 2 (ascii ''KERNEL  ELF'') = Some (Inr sample_file)"
proof -
  have v: "cluster_valid sample_fs 2" by (simp add: cluster_valid_def)
  have c: "chain_data sample_fs 1 2 = Some sample_root"
    by (simp add: cluster_data_def cluster_lba_def v)
  have "next_cluster sample_fs 2 = Inr 0x0FFFFFFF"
    by (simp add: next_cluster_def v Let_def sample_fat_def fat32_constants read_le32_le32_bytes)
  then have e: "chain_ends sample_fs 1 2" by (simp add: FAT32_EOC_MIN_def)
  let ?e = "take 32 sample_root"
  have f: "?e ! 0 = 0x4B" "?e ! 11 = 0x20" "take 11 ?e = ascii ''KERNEL  ELF''" "entry_file ?e = sample_file"
    by (simp_all add: sample_root_def entry_file_def sample_file_def read_le16_le16_bytes
      read_le_bytes)
  have len: "length sample_root div 32 = Suc 15" by (simp add: sample_root_def)
  have "dir_lookup (ascii ''KERNEL  ELF'') (dir_entries (Suc 15) sample_root) = Inr sample_file"
    unfolding dir_entries.simps(2)
    using f by (simp add: dir_scan_lookup dir_match_def fat32_constants sample_file_def del: ascii_Cons)
  then show ?thesis
    using find_in_directory_lookup [OF sample_inv, of "ascii ''KERNEL  ELF''" 1 2 sample_root] c e
    by (simp add: len del: dir_entries.simps)
qed

section \<open>Short names\<close>

text \<open>The reference: split at the dot, upper-case both parts, pad with blanks to 8 and 3.\<close>

definition pad_to :: "nat \<Rightarrow> bytes \<Rightarrow> bytes" where
  "pad_to n cs = cs @ replicate (n - length cs) 0x20"

definition segment_base :: "bytes \<Rightarrow> bytes" where
  "segment_base seg = takeWhile (\<lambda>c. c \<noteq> 0x2E) seg"

definition segment_ext :: "bytes \<Rightarrow> bytes" where
  "segment_ext seg = tl (dropWhile (\<lambda>c. c \<noteq> 0x2E) seg)"

definition short_name_ok :: "bytes \<Rightarrow> bool" where
  "short_name_ok seg \<longleftrightarrow>
     segment_base seg \<noteq> [] \<and> length (segment_base seg) \<le> 8 \<and> length (segment_ext seg) \<le> 3
     \<and> (\<forall>c \<in> set (segment_base seg) \<union> set (segment_ext seg). ascii_upper c \<noteq> None)"

definition short_name_spec :: "bytes \<Rightarrow> bytes" where
  "short_name_spec seg =
     pad_to 8 (map (the \<circ> ascii_upper) (segment_base seg))
     @ pad_to 3 (map (the \<circ> ascii_upper) (segment_ext seg))"

lemma ascii_upper_dot: "ascii_upper 0x2E = None"
  by (simp add: ascii_upper_def short_name_punctuation_allowed_def ascii_def)

lemma segment_dot_none: "0x2E \<notin> set cs \<Longrightarrow> segment_dot cs i len dot = Some dot"
  by (induction cs arbitrary: i) auto

lemma segment_dot_second:
  "dot \<noteq> len \<Longrightarrow> segment_dot cs i len dot = (if 0x2E \<in> set cs then None else Some dot)"
  by (induction cs arbitrary: i) auto

lemma segment_dot_first:
  "0x2E \<notin> set a \<Longrightarrow> i + length a < len \<Longrightarrow>
     segment_dot (a @ 0x2E # b) i len len = (if 0x2E \<in> set b then None else Some (i + length a))"
  by (induction a arbitrary: i) (auto simp: segment_dot_second)

lemma upper_into_eq:
  "pos + length cs \<le> length out \<Longrightarrow>
     upper_into out pos cs =
       (if \<forall>c \<in> set cs. ascii_upper c \<noteq> None
        then Some (take pos out @ map (the \<circ> ascii_upper) cs @ drop (pos + length cs) out) else None)"
proof (induction cs arbitrary: out pos)
  case (Cons c cs)
  then have "upper_into (out[pos := u]) (pos + 1) cs =
      (if \<forall>c \<in> set cs. ascii_upper c \<noteq> None
       then Some (take pos out @ u # map (the \<circ> ascii_upper) cs @ drop (pos + 1 + length cs) out) else None)" for u
    by (simp add: take_Suc_conv_app_nth)
  then show ?case by (auto split: option.split)
qed simp

lemma segment_split:
  assumes "seg = a @ 0x2E # b" "0x2E \<notin> set a"
  shows "segment_base seg = a" "segment_ext seg = b"
  using assms by (auto simp: segment_base_def segment_ext_def takeWhile_append dropWhile_append)

lemma segment_no_dot:
  assumes "0x2E \<notin> set seg"
  shows "segment_base seg = seg" "segment_ext seg = []"
proof -
  have "dropWhile (\<lambda>c. c \<noteq> 0x2E) seg = []" using assms by (auto simp: dropWhile_eq_Nil_conv)
  then show "segment_base seg = seg" "segment_ext seg = []"
    using assms
    by (simp_all add: segment_base_def segment_ext_def takeWhile_eq_all_conv del: dropWhile_eq_Nil_conv)
      blast
qed

lemma upper_both:
  assumes "length a \<le> 8" "length b \<le> 3"
  shows "(case upper_into (replicate 11 0x20) 0 a of None \<Rightarrow> Inl JOSH_FAT32_BAD_PATH
          | Some out \<Rightarrow> (case upper_into out 8 b of None \<Rightarrow> Inl JOSH_FAT32_BAD_PATH | Some x \<Rightarrow> Inr x))
    = (if \<forall>c \<in> set a \<union> set b. ascii_upper c \<noteq> None
       then Inr (pad_to 8 (map (the \<circ> ascii_upper) a) @ pad_to 3 (map (the \<circ> ascii_upper) b))
       else Inl JOSH_FAT32_BAD_PATH)"
proof -
  have "replicate (11 - length a) (0x20 :: u8) = replicate (8 - length a) 0x20 @ replicate 3 0x20"
    using assms(1) by (simp add: replicate_add [symmetric])
  then have "drop (length a) (replicate 11 (0x20 :: u8)) = replicate (8 - length a) 0x20 @ replicate 3 0x20"
    by simp
  with assms show ?thesis
    by (simp add: upper_into_eq pad_to_def ball_Un)
qed

text \<open>
  A path component becomes the 8.3 name the directory stores: the part before the only dot and
  the part behind it, in upper case, padded with blanks to eight and three bytes. Components that
  are empty, too long, have two dots or a character no short name may contain are rejected.
\<close>

lemma short_name_from_segment_spec:
  "short_name_from_segment (Some seg) (length seg) =
     (if short_name_ok seg then Inr (short_name_spec seg) else Inl JOSH_FAT32_BAD_PATH)"
proof (cases "0x2E \<in> set seg")
  case True
  then obtain a b where seg: "seg = a @ 0x2E # b" "0x2E \<notin> set a" by (meson split_list_first)
  note parts = segment_split [OF seg]
  have dot: "segment_dot seg 0 (length seg) (length seg) = (if 0x2E \<in> set b then None else Some (length a))"
    using segment_dot_first [OF seg(2), of 0 "length seg" b] by (simp add: seg(1))
  have ab: "take (length a) seg = a" "drop (Suc (length a)) seg = b" "length seg = length a + 1 + length b"
    by (simp_all add: seg(1))
  show ?thesis
  proof (cases "0x2E \<in> set b")
    case True
    then have "\<not> (\<forall>c \<in> set a \<union> set b. ascii_upper c \<noteq> None)"
      using ascii_upper_dot by (metis UnI2)
    then have "\<not> short_name_ok seg" by (simp add: short_name_ok_def parts)
    then show ?thesis using dot True by (simp add: short_name_from_segment_def)
  next
    case False
    then have "short_name_from_segment (Some seg) (length seg) =
        (if a = [] \<or> 8 < length a \<or> 3 < length b then Inl JOSH_FAT32_BAD_PATH
         else case upper_into (replicate 11 0x20) 0 a of None \<Rightarrow> Inl JOSH_FAT32_BAD_PATH
          | Some out \<Rightarrow> (case upper_into out 8 b of None \<Rightarrow> Inl JOSH_FAT32_BAD_PATH | Some x \<Rightarrow> Inr x))"
      using dot by (auto simp: short_name_from_segment_def ab Let_def cong: option.case_cong)
    then show ?thesis
      using upper_both [of a b]
      by (auto simp: short_name_ok_def short_name_spec_def parts)
  qed
next
  case False
  note parts = segment_no_dot [OF False]
  have dot: "segment_dot seg 0 (length seg) (length seg) = Some (length seg)"
    using False by (rule segment_dot_none)
  have "short_name_from_segment (Some seg) (length seg) =
      (if seg = [] \<or> 8 < length seg then Inl JOSH_FAT32_BAD_PATH
       else case upper_into (replicate 11 0x20) 0 seg of None \<Rightarrow> Inl JOSH_FAT32_BAD_PATH
        | Some out \<Rightarrow> (case upper_into out 8 [] of None \<Rightarrow> Inl JOSH_FAT32_BAD_PATH | Some x \<Rightarrow> Inr x))"
    using dot by (auto simp: short_name_from_segment_def Let_def cong: option.case_cong)
  then show ?thesis
    using upper_both [of seg "[]"]
    by (auto simp: short_name_ok_def short_name_spec_def parts)
qed

end
