(* ===== verification/JB_Config.thy ===== *)
theory JB_Config
  imports JB_Prelude
begin

text \<open>
  The boot configuration parser of \<open>boot/core/config.h\<close> and \<open>boot/core/config.c\<close>.

  A span (pointer and length) into the text is the list of its bytes; spans are never \<open>NULL\<close>, so
  the tests of a span pointer are not repeated. A fixed-size character array is a byte list of that
  length. Where the source scans with an index, the model recurses on the bytes from that index on.
  A setter returns its status and the structure as it leaves it, failures included.
\<close>

section \<open>Data\<close>

datatype josh_boot_config_status =
    JOSH_CONFIG_OK
  | JOSH_CONFIG_INVALID_ARGUMENT
  | JOSH_CONFIG_TOO_LARGE
  | JOSH_CONFIG_SYNTAX
  | JOSH_CONFIG_UNKNOWN_KEY
  | JOSH_CONFIG_DUPLICATE_KEY
  | JOSH_CONFIG_MISSING_REQUIRED
  | JOSH_CONFIG_UNSUPPORTED_VERSION
  | JOSH_CONFIG_INVALID_VALUE
  | JOSH_CONFIG_UNSUPPORTED_FEATURE

record josh_boot_config =
  cfg_version :: u32
  timeout_seconds :: u32
  cfg_flags :: u32
  default_entry :: bytes
  entry_id :: bytes
  display_name :: bytes
  kernel_path :: bytes
  previous_kernel_path :: bytes
  recovery_kernel_path :: bytes
  command_line :: bytes

definition JOSH_BOOT_CONFIG_VERSION :: u32 where "JOSH_BOOT_CONFIG_VERSION = 1"
definition JOSH_BOOT_CONFIG_MAX_BYTES :: nat where "JOSH_BOOT_CONFIG_MAX_BYTES = 1024"
definition JOSH_BOOT_CONFIG_ENTRY_ID_MAX :: nat where "JOSH_BOOT_CONFIG_ENTRY_ID_MAX = 15"
definition JOSH_BOOT_CONFIG_NAME_MAX :: nat where "JOSH_BOOT_CONFIG_NAME_MAX = 31"
definition JOSH_BOOT_CONFIG_PATH_MAX :: nat where "JOSH_BOOT_CONFIG_PATH_MAX = 95"
definition JOSH_BOOT_CONFIG_CMDLINE_MAX :: nat where "JOSH_BOOT_CONFIG_CMDLINE_MAX = 127"
definition JOSH_BOOT_CONFIG_FLAG_RECOVERY :: u32 where "JOSH_BOOT_CONFIG_FLAG_RECOVERY = 1"
definition JOSH_BOOT_CONFIG_FLAG_DEVELOPMENT :: u32 where "JOSH_BOOT_CONFIG_FLAG_DEVELOPMENT = 2"

definition FIELD_VERSION :: u32 where "FIELD_VERSION = push_bit 0 1"
definition FIELD_DEFAULT :: u32 where "FIELD_DEFAULT = push_bit 1 1"
definition FIELD_TIMEOUT :: u32 where "FIELD_TIMEOUT = push_bit 2 1"
definition FIELD_ENTRY :: u32 where "FIELD_ENTRY = push_bit 3 1"
definition FIELD_NAME :: u32 where "FIELD_NAME = push_bit 4 1"
definition FIELD_KERNEL :: u32 where "FIELD_KERNEL = push_bit 5 1"
definition FIELD_CMDLINE :: u32 where "FIELD_CMDLINE = push_bit 6 1"
definition FIELD_FLAGS :: u32 where "FIELD_FLAGS = push_bit 7 1"
definition FIELD_PREVIOUS_KERNEL :: u32 where "FIELD_PREVIOUS_KERNEL = push_bit 8 1"
definition FIELD_RECOVERY_KERNEL :: u32 where "FIELD_RECOVERY_KERNEL = push_bit 9 1"

definition REQUIRED_FIELDS :: u32 where
  "REQUIRED_FIELDS = FIELD_VERSION OR FIELD_DEFAULT OR FIELD_TIMEOUT OR FIELD_ENTRY OR FIELD_NAME
     OR FIELD_KERNEL"

lemmas config_sizes = JOSH_BOOT_CONFIG_VERSION_def JOSH_BOOT_CONFIG_MAX_BYTES_def
  JOSH_BOOT_CONFIG_ENTRY_ID_MAX_def JOSH_BOOT_CONFIG_NAME_MAX_def JOSH_BOOT_CONFIG_PATH_MAX_def
  JOSH_BOOT_CONFIG_CMDLINE_MAX_def JOSH_BOOT_CONFIG_FLAG_RECOVERY_def
  JOSH_BOOT_CONFIG_FLAG_DEVELOPMENT_def

lemmas field_codes = FIELD_VERSION_def FIELD_DEFAULT_def FIELD_TIMEOUT_def FIELD_ENTRY_def
  FIELD_NAME_def FIELD_KERNEL_def FIELD_CMDLINE_def FIELD_FLAGS_def FIELD_PREVIOUS_KERNEL_def
  FIELD_RECOVERY_KERNEL_def

section \<open>Values\<close>

text \<open>\<open>zero_bytes\<close> on the whole structure.\<close>

definition zero_config :: josh_boot_config where
  "zero_config =
     \<lparr> cfg_version = 0, timeout_seconds = 0, cfg_flags = 0,
       default_entry = replicate (JOSH_BOOT_CONFIG_ENTRY_ID_MAX + 1) 0,
       entry_id = replicate (JOSH_BOOT_CONFIG_ENTRY_ID_MAX + 1) 0,
       display_name = replicate (JOSH_BOOT_CONFIG_NAME_MAX + 1) 0,
       kernel_path = replicate (JOSH_BOOT_CONFIG_PATH_MAX + 1) 0,
       previous_kernel_path = replicate (JOSH_BOOT_CONFIG_PATH_MAX + 1) 0,
       recovery_kernel_path = replicate (JOSH_BOOT_CONFIG_PATH_MAX + 1) 0,
       command_line = replicate (JOSH_BOOT_CONFIG_CMDLINE_MAX + 1) 0 \<rparr>"

fun span_equal :: "bytes \<Rightarrow> bytes \<Rightarrow> bool" where
  "span_equal chars [] = (chars = [])"
| "span_equal [] (c # literal) = False"
| "span_equal (t # chars) (c # literal) = (if t \<noteq> c then False else span_equal chars literal)"

text \<open>The capacity is the length of the destination array; \<open>None\<close> when the value does not fit.\<close>

definition copy_value :: "bytes \<Rightarrow> bytes \<Rightarrow> bytes option" where
  "copy_value destination v =
     (if length destination = 0 \<or> length v \<ge> length destination then None
      else Some (v @ 0 # drop (length v + 1) destination))"

definition entry_id_valid :: "bytes \<Rightarrow> bool" where
  "entry_id_valid v \<longleftrightarrow>
     \<not> (length v = 0 \<or> length v > JOSH_BOOT_CONFIG_ENTRY_ID_MAX)
     \<and> list_all (\<lambda>c. (c \<ge> 0x61 \<and> c \<le> 0x7A) \<or> (c \<ge> 0x41 \<and> c \<le> 0x5A) \<or> (c \<ge> 0x30 \<and> c \<le> 0x39)
                      \<or> c = 0x2D \<or> c = 0x5F) v"

definition display_name_valid :: "bytes \<Rightarrow> bool" where
  "display_name_valid v \<longleftrightarrow>
     \<not> (length v = 0 \<or> length v > JOSH_BOOT_CONFIG_NAME_MAX)
     \<and> list_all (\<lambda>c. \<not> (c < 0x20 \<or> c > 0x7E)) v"

definition path_valid :: "bytes \<Rightarrow> bool" where
  "path_valid v \<longleftrightarrow>
     \<not> (length v < 2 \<or> length v > JOSH_BOOT_CONFIG_PATH_MAX \<or> v ! 0 \<noteq> 0x2F)
     \<and> list_all (\<lambda>c. \<not> (c < 0x21 \<or> c > 0x7E \<or> c = 0x5C)) v"

definition command_line_valid :: "bytes \<Rightarrow> bool" where
  "command_line_valid v \<longleftrightarrow>
     \<not> length v > JOSH_BOOT_CONFIG_CMDLINE_MAX \<and> list_all (\<lambda>c. \<not> (c < 0x20 \<or> c > 0x7E)) v"

fun parse_u32_loop :: "bytes \<Rightarrow> u32 \<Rightarrow> u32 option" where
  "parse_u32_loop [] result = Some result"
| "parse_u32_loop (c # cs) result =
     (if c < 0x30 \<or> c > 0x39 then None
      else
        let digit = (ucast (c - 0x30) :: u32)
        in if result > (0xFFFFFFFF - digit) div 10 then None
           else parse_u32_loop cs (result * 10 + digit))"

definition parse_u32 :: "bytes \<Rightarrow> u32 option" where
  "parse_u32 v = (if length v = 0 then None else parse_u32_loop v 0)"

text \<open>
  The loop over the comma-separated flags: whether it succeeds, and \<open>*flags\<close> as it leaves it. It
  is entered with a non-empty rest.
\<close>

function parse_flags_loop :: "bytes \<Rightarrow> u32 \<Rightarrow> bool \<times> u32" where
  "parse_flags_loop v flags =
     (let seg = takeWhile (\<lambda>c. c \<noteq> 0x2C) v; rest = dropWhile (\<lambda>c. c \<noteq> 0x2C) v
      in if seg = [] then (False, flags)
         else
           case (if span_equal seg (ascii ''recovery'')
                 then if flags AND JOSH_BOOT_CONFIG_FLAG_RECOVERY \<noteq> 0 then None
                      else Some (flags OR JOSH_BOOT_CONFIG_FLAG_RECOVERY)
                 else if span_equal seg (ascii ''development'')
                 then if flags AND JOSH_BOOT_CONFIG_FLAG_DEVELOPMENT \<noteq> 0 then None
                      else Some (flags OR JOSH_BOOT_CONFIG_FLAG_DEVELOPMENT)
                 else None) of
             None \<Rightarrow> (False, flags)
           | Some flags' \<Rightarrow>
               if rest = [] then (True, flags')
               else if drop 1 rest = [] then (False, flags')
               else parse_flags_loop (drop 1 rest) flags')"
  by pat_completeness auto
termination
proof (relation "measure (\<lambda>(v, flags). length v)")
  fix v rest :: bytes and flags flags' :: u32
  assume "rest = dropWhile (\<lambda>c. c \<noteq> 0x2C) v" "rest \<noteq> []"
  then have "length (drop 1 rest) < length v"
    using length_drop_dropWhile [of v "\<lambda>c. c \<noteq> 0x2C"] by (metis dropWhile.simps(1))
  then show "((drop 1 rest, flags'), v, flags) \<in> measure (\<lambda>(v, flags). length v)" by simp
qed simp

declare parse_flags_loop.simps [simp del]

definition parse_flags :: "bytes \<Rightarrow> bool \<times> u32" where
  "parse_flags v =
     (if length v = 0 \<or> span_equal v (ascii ''none'') then (True, 0) else parse_flags_loop v 0)"

section \<open>Fields\<close>

definition fields :: "(bytes \<times> u32) list" where
  "fields =
     [(ascii ''version'', FIELD_VERSION),
      (ascii ''default'', FIELD_DEFAULT),
      (ascii ''timeout'', FIELD_TIMEOUT),
      (ascii ''entry'', FIELD_ENTRY),
      (ascii ''name'', FIELD_NAME),
      (ascii ''kernel'', FIELD_KERNEL),
      (ascii ''previous_kernel'', FIELD_PREVIOUS_KERNEL),
      (ascii ''recovery_kernel'', FIELD_RECOVERY_KERNEL),
      (ascii ''cmdline'', FIELD_CMDLINE),
      (ascii ''flags'', FIELD_FLAGS)]"

fun field_lookup :: "(bytes \<times> u32) list \<Rightarrow> bytes \<Rightarrow> u32" where
  "field_lookup [] key = 0"
| "field_lookup ((name, field) # fs) key = (if span_equal key name then field else field_lookup fs key)"

definition field_from_key :: "bytes \<Rightarrow> u32" where
  "field_from_key key = field_lookup fields key"

definition unsupported_key :: "bytes \<Rightarrow> bool" where
  "unsupported_key key \<longleftrightarrow> span_equal key (ascii ''module'') \<or> span_equal key (ascii ''initrd'')"

type_synonym setter = "josh_boot_config \<Rightarrow> bytes \<Rightarrow> josh_boot_config_status \<times> josh_boot_config"

definition set_version :: setter where
  "set_version config v =
     (case parse_u32 v of
        None \<Rightarrow> (JOSH_CONFIG_INVALID_VALUE, config)
      | Some version \<Rightarrow>
          if version \<noteq> JOSH_BOOT_CONFIG_VERSION then (JOSH_CONFIG_UNSUPPORTED_VERSION, config)
          else (JOSH_CONFIG_OK, config\<lparr>cfg_version := version\<rparr>))"

definition set_timeout :: setter where
  "set_timeout config v =
     (case parse_u32 v of
        None \<Rightarrow> (JOSH_CONFIG_INVALID_VALUE, config)
      | Some timeout \<Rightarrow>
          if timeout > 30 then (JOSH_CONFIG_INVALID_VALUE, config)
          else (JOSH_CONFIG_OK, config\<lparr>timeout_seconds := timeout\<rparr>))"

text \<open>The setter of an array gets the array and returns the new one, \<open>None\<close> for an invalid value.\<close>

definition set_entry_value :: "bytes \<Rightarrow> bytes \<Rightarrow> bytes option" where
  "set_entry_value destination v = (if \<not> entry_id_valid v then None else copy_value destination v)"

definition set_name :: setter where
  "set_name config v =
     (if \<not> display_name_valid v then (JOSH_CONFIG_INVALID_VALUE, config)
      else case copy_value (display_name config) v of
             None \<Rightarrow> (JOSH_CONFIG_INVALID_VALUE, config)
           | Some d \<Rightarrow> (JOSH_CONFIG_OK, config\<lparr>display_name := d\<rparr>))"

definition set_path :: "josh_boot_config \<Rightarrow> u32 \<Rightarrow> bytes \<Rightarrow> josh_boot_config_status \<times> josh_boot_config" where
  "set_path config field v =
     (let destination =
            (if field = FIELD_PREVIOUS_KERNEL then previous_kernel_path config
             else if field = FIELD_RECOVERY_KERNEL then recovery_kernel_path config
             else kernel_path config)
      in if \<not> path_valid v then (JOSH_CONFIG_INVALID_VALUE, config)
         else case copy_value destination v of
                None \<Rightarrow> (JOSH_CONFIG_INVALID_VALUE, config)
              | Some d \<Rightarrow>
                  (JOSH_CONFIG_OK,
                   if field = FIELD_PREVIOUS_KERNEL then config\<lparr>previous_kernel_path := d\<rparr>
                   else if field = FIELD_RECOVERY_KERNEL then config\<lparr>recovery_kernel_path := d\<rparr>
                   else config\<lparr>kernel_path := d\<rparr>))"

definition apply_field :: "josh_boot_config \<Rightarrow> u32 \<Rightarrow> bytes \<Rightarrow> josh_boot_config_status \<times> josh_boot_config" where
  "apply_field config field v =
     (if field = FIELD_VERSION then set_version config v
      else if field = FIELD_TIMEOUT then set_timeout config v
      else if field = FIELD_DEFAULT
      then (case set_entry_value (default_entry config) v of
              None \<Rightarrow> (JOSH_CONFIG_INVALID_VALUE, config)
            | Some d \<Rightarrow> (JOSH_CONFIG_OK, config\<lparr>default_entry := d\<rparr>))
      else if field = FIELD_ENTRY
      then (case set_entry_value (entry_id config) v of
              None \<Rightarrow> (JOSH_CONFIG_INVALID_VALUE, config)
            | Some d \<Rightarrow> (JOSH_CONFIG_OK, config\<lparr>entry_id := d\<rparr>))
      else if field = FIELD_NAME then set_name config v
      else if field = FIELD_KERNEL \<or> field = FIELD_PREVIOUS_KERNEL \<or> field = FIELD_RECOVERY_KERNEL
      then set_path config field v
      else if field = FIELD_CMDLINE
      then (if \<not> command_line_valid v then (JOSH_CONFIG_INVALID_VALUE, config)
            else case copy_value (command_line config) v of
                   None \<Rightarrow> (JOSH_CONFIG_INVALID_VALUE, config)
                 | Some d \<Rightarrow> (JOSH_CONFIG_OK, config\<lparr>command_line := d\<rparr>))
      else if field = FIELD_FLAGS
      then (case parse_flags v of
              (ok, fl) \<Rightarrow> (if ok then JOSH_CONFIG_OK else JOSH_CONFIG_INVALID_VALUE, config\<lparr>cfg_flags := fl\<rparr>))
      else (JOSH_CONFIG_UNKNOWN_KEY, config))"

definition set_field :: "josh_boot_config \<Rightarrow> u32 \<Rightarrow> bytes \<Rightarrow> bytes
    \<Rightarrow> josh_boot_config_status \<times> josh_boot_config \<times> u32" where
  "set_field config seen key v =
     (let field = field_from_key key
      in if field = 0
         then (if unsupported_key key then JOSH_CONFIG_UNSUPPORTED_FEATURE
               else JOSH_CONFIG_UNKNOWN_KEY, config, seen)
         else if seen AND field \<noteq> 0 then (JOSH_CONFIG_DUPLICATE_KEY, config, seen)
         else case apply_field config field v of (status, config') \<Rightarrow> (status, config', seen OR field))"

section \<open>The parser\<close>

text \<open>The line at the start of the rest of the text, without its end-of-line characters.\<close>

definition chomp_cr :: "bytes \<Rightarrow> bytes" where
  "chomp_cr line = (if line \<noteq> [] \<and> last line = 0x0D then butlast line else line)"

function parse_loop :: "josh_boot_config \<Rightarrow> u32 \<Rightarrow> bytes
    \<Rightarrow> josh_boot_config_status \<times> josh_boot_config \<times> u32" where
  "parse_loop config seen rest =
     (if rest = [] then (JOSH_CONFIG_OK, config, seen)
      else
        let line = chomp_cr (takeWhile (\<lambda>c. c \<noteq> 0x0A) rest);
            rest' = drop 1 (dropWhile (\<lambda>c. c \<noteq> 0x0A) rest)
        in if line = [] then parse_loop config seen rest'
           else if line ! 0 = 0x23 then parse_loop config seen rest'
           else
             let key = takeWhile (\<lambda>c. c \<noteq> 0x3D) line;
                 at_equals = dropWhile (\<lambda>c. c \<noteq> 0x3D) line
             in if key = [] \<or> at_equals = [] then (JOSH_CONFIG_SYNTAX, config, seen)
                else case set_field config seen key (drop 1 at_equals) of
                       (status, config', seen') \<Rightarrow>
                         if status \<noteq> JOSH_CONFIG_OK then (status, config', seen')
                         else parse_loop config' seen' rest')"
  by pat_completeness auto
termination
  by (relation "measure (\<lambda>(config, seen, rest). length rest)")
    (simp_all only: in_measure prod.case length_drop_dropWhile wf_measure not_False_eq_True)

declare parse_loop.simps [simp del]

definition josh_boot_config_parse :: "bytes option \<Rightarrow> nat \<Rightarrow> josh_boot_config option
    \<Rightarrow> josh_boot_config_status \<times> josh_boot_config option" where
  "josh_boot_config_parse chars len config =
     (case (chars, config) of
        (Some t, Some c0) \<Rightarrow>
          if len = 0 \<or> len > JOSH_BOOT_CONFIG_MAX_BYTES then (JOSH_CONFIG_TOO_LARGE, config)
          else
            (case parse_loop zero_config 0 (take len t) of
               (status, c, seen) \<Rightarrow>
                 if status \<noteq> JOSH_CONFIG_OK then (status, Some c)
                 else if seen AND REQUIRED_FIELDS \<noteq> REQUIRED_FIELDS
                 then (JOSH_CONFIG_MISSING_REQUIRED, Some c)
                 else if length (cstr (default_entry c)) \<noteq> length (cstr (entry_id c))
                         \<or> \<not> span_equal (cstr (default_entry c)) (cstr (entry_id c))
                 then (JOSH_CONFIG_INVALID_VALUE, Some c)
                 else (JOSH_CONFIG_OK, Some c))
      | _ \<Rightarrow> (JOSH_CONFIG_INVALID_ARGUMENT, config))"

definition josh_boot_config_status_string :: "josh_boot_config_status \<Rightarrow> string" where
  "josh_boot_config_status_string status =
     (case status of
        JOSH_CONFIG_OK \<Rightarrow> ''ok''
      | JOSH_CONFIG_INVALID_ARGUMENT \<Rightarrow> ''invalid argument''
      | JOSH_CONFIG_TOO_LARGE \<Rightarrow> ''config too large''
      | JOSH_CONFIG_SYNTAX \<Rightarrow> ''syntax error''
      | JOSH_CONFIG_UNKNOWN_KEY \<Rightarrow> ''unknown key''
      | JOSH_CONFIG_DUPLICATE_KEY \<Rightarrow> ''duplicate key''
      | JOSH_CONFIG_MISSING_REQUIRED \<Rightarrow> ''missing required field''
      | JOSH_CONFIG_UNSUPPORTED_VERSION \<Rightarrow> ''unsupported version''
      | JOSH_CONFIG_INVALID_VALUE \<Rightarrow> ''invalid value''
      | JOSH_CONFIG_UNSUPPORTED_FEATURE \<Rightarrow> ''unsupported feature'')"

section \<open>Numbers and spans\<close>

lemma span_equal_iff [simp]: "span_equal chars literal \<longleftrightarrow> chars = literal"
  by (induction chars literal rule: span_equal.induct) auto

text \<open>The decimal value of a digit string, as a natural number.\<close>

definition digit_char :: "u8 \<Rightarrow> bool" where
  "digit_char c \<longleftrightarrow> 0x30 \<le> c \<and> c \<le> 0x39"

fun decimal :: "nat \<Rightarrow> bytes \<Rightarrow> nat" where
  "decimal acc [] = acc"
| "decimal acc (c # cs) = decimal (acc * 10 + (unat c - 48)) cs"

lemma decimal_ge: "acc \<le> decimal acc cs"
proof (induction cs arbitrary: acc)
  case (Cons c cs)
  have "acc \<le> acc * 10 + (unat c - 48)" by simp
  also have "\<dots> \<le> decimal (acc * 10 + (unat c - 48)) cs" by (rule Cons.IH)
  finally show ?case by simp
qed simp

lemma digit_value:
  assumes "digit_char c"
  shows "unat (ucast (c - 0x30) :: u32) = unat c - 48" "unat c - 48 \<le> 9"
  using assms by (auto simp: digit_char_def unat_diff_le word_le_nat_alt)

lemma u32_accumulate:
  fixes r d :: u32
  assumes "unat d \<le> 9"
  shows "r > (0xFFFFFFFF - d) div 10 \<longleftrightarrow> 2 ^ 32 \<le> unat r * 10 + unat d"
    and "unat r * 10 + unat d < 2 ^ 32 \<Longrightarrow> unat (r * 10 + d) = unat r * 10 + unat d"
proof -
  have "unat (0xFFFFFFFF - d) = 4294967295 - unat d"
    using assms by (simp add: unat_diff_le word_le_nat_alt)
  then have "unat ((0xFFFFFFFF - d) div 10) = (4294967295 - unat d) div 10"
    by (simp add: unat_div_distrib)
  then show "r > (0xFFFFFFFF - d) div 10 \<longleftrightarrow> 2 ^ 32 \<le> unat r * 10 + unat d"
    using assms by (simp add: word_less_nat_alt) linarith
  assume "unat r * 10 + unat d < 2 ^ 32"
  then show "unat (r * 10 + d) = unat r * 10 + unat d"
    by (simp add: unat_add_lem [THEN iffD1] unat_mult_lem [THEN iffD1])
qed

lemma parse_u32_loop_eq:
  "parse_u32_loop cs r =
     (if list_all digit_char cs \<and> decimal (unat r) cs < 2 ^ 32
      then Some (of_nat (decimal (unat r) cs)) else None)"
proof (induction cs arbitrary: r)
  case Nil
  have "unat r < 2 ^ 32" using unsigned_less [of r, where ?'a = nat] by simp
  then show ?case by simp
next
  case (Cons c cs)
  show ?case
  proof (cases "digit_char c")
    case True
    let ?d = "ucast (c - 0x30) :: u32"
    note d = digit_value [OF True]
    have not: "\<not> (c < 0x30 \<or> c > 0x39)" using True by (auto simp: digit_char_def)
    show ?thesis
    proof (cases "unat r * 10 + unat ?d < 2 ^ 32")
      case small: True
      then have "\<not> r > (0xFFFFFFFF - ?d) div 10"
        using u32_accumulate(1) [of ?d r] d by simp
      then show ?thesis
        using not True Cons.IH [of "r * 10 + ?d"] u32_accumulate(2) [of ?d r] small d
        by (simp add: Let_def)
    next
      case False
      then have "r > (0xFFFFFFFF - ?d) div 10" using u32_accumulate(1) [of ?d r] d by simp
      moreover have "\<not> decimal (unat r * 10 + unat ?d) cs < 2 ^ 32"
        using False decimal_ge [of "unat r * 10 + unat ?d" cs] by linarith
      ultimately show ?thesis using not d by (simp add: Let_def)
    qed
  next
    case False
    then have "c < 0x30 \<or> c > 0x39" by (auto simp: digit_char_def)
    with False show ?thesis by simp
  qed
qed

lemma parse_u32_eq:
  "parse_u32 v =
     (if v \<noteq> [] \<and> list_all digit_char v \<and> decimal 0 v < 2 ^ 32
      then Some (of_nat (decimal 0 v)) else None)"
  by (simp add: parse_u32_def parse_u32_loop_eq)

text \<open>The printer of numbers.\<close>

fun decimal_digits :: "nat \<Rightarrow> bytes" where
  "decimal_digits n =
     (if n < 10 then [of_nat (48 + n)] else decimal_digits (n div 10) @ [of_nat (48 + n mod 10)])"

declare decimal_digits.simps [simp del]

lemma decimal_append: "decimal acc (xs @ ys) = decimal (decimal acc xs) ys"
  by (induction xs arbitrary: acc) simp_all

lemma digit_of_nat:
  assumes "n < 10"
  shows "digit_char (of_nat (48 + n))" "unat (of_nat (48 + n) :: u8) = 48 + n"
proof -
  show u: "unat (of_nat (48 + n) :: u8) = 48 + n" using assms by (simp add: unat_of_nat del: of_nat_add)
  show "digit_char (of_nat (48 + n))"
    using u assms by (simp add: digit_char_def word_le_nat_alt del: of_nat_add)
qed

lemma decimal_digits:
  "decimal_digits n \<noteq> []" "list_all digit_char (decimal_digits n)" "decimal 0 (decimal_digits n) = n"
proof -
  have "decimal_digits n \<noteq> [] \<and> list_all digit_char (decimal_digits n) \<and> decimal 0 (decimal_digits n) = n"
  proof (induction n rule: decimal_digits.induct)
    case (1 n)
    show ?case
    proof (cases "n < 10")
      case True
      then show ?thesis
        using digit_of_nat [of n] by (simp add: decimal_digits.simps del: of_nat_add)
    next
      case False
      then show ?thesis
        using 1 digit_of_nat [of "n mod 10"]
        by (simp add: decimal_digits.simps [of n] decimal_append del: of_nat_add)
    qed
  qed
  then show "decimal_digits n \<noteq> []" "list_all digit_char (decimal_digits n)"
    "decimal 0 (decimal_digits n) = n" by simp_all
qed

text \<open>
  C28. Numbers in the configuration are read exactly: a non-empty string of digits whose value fits
  in 32 bits gives that value, everything else, overflow included, is rejected, and every 32-bit
  number is read back from its decimal form.
\<close>

theorem parse_u32_exact:
  "(\<forall>v. parse_u32 v =
      (if v \<noteq> [] \<and> list_all digit_char v \<and> decimal 0 v < 2 ^ 32
       then Some (of_nat (decimal 0 v)) else None))
   \<and> (\<forall>n. parse_u32 (decimal_digits (unat n)) = Some n)"
proof (intro conjI allI)
  show "parse_u32 (decimal_digits (unat n)) = Some n" for n :: u32
    using unsigned_less [of n, where ?'a = nat] by (simp add: parse_u32_eq decimal_digits)
qed (rule parse_u32_eq)

section \<open>Lines\<close>

text \<open>The lines of the text that are neither empty nor comments.\<close>

function significant_lines :: "bytes \<Rightarrow> bytes list" where
  "significant_lines rest =
     (if rest = [] then []
      else
        let line = chomp_cr (takeWhile (\<lambda>c. c \<noteq> 0x0A) rest)
        in (if line = [] \<or> line ! 0 = 0x23 then [] else [line])
           @ significant_lines (drop 1 (dropWhile (\<lambda>c. c \<noteq> 0x0A) rest)))"
  by pat_completeness auto
termination
  by (relation "measure length")
    (simp_all only: in_measure length_drop_dropWhile wf_measure not_False_eq_True)

declare significant_lines.simps [simp del]

fun run_lines :: "josh_boot_config \<Rightarrow> u32 \<Rightarrow> bytes list
    \<Rightarrow> josh_boot_config_status \<times> josh_boot_config \<times> u32" where
  "run_lines config seen [] = (JOSH_CONFIG_OK, config, seen)"
| "run_lines config seen (line # lines) =
     (let key = takeWhile (\<lambda>c. c \<noteq> 0x3D) line; at_equals = dropWhile (\<lambda>c. c \<noteq> 0x3D) line
      in if key = [] \<or> at_equals = [] then (JOSH_CONFIG_SYNTAX, config, seen)
         else case set_field config seen key (drop 1 at_equals) of
                (status, config', seen') \<Rightarrow>
                  if status \<noteq> JOSH_CONFIG_OK then (status, config', seen')
                  else run_lines config' seen' lines)"

lemma parse_loop_lines: "parse_loop config seen chars = run_lines config seen (significant_lines chars)"
proof (induction config seen chars rule: parse_loop.induct)
  case (1 config seen rest)
  show ?case
  proof (cases "rest = []")
    case True
    then show ?thesis by (simp add: parse_loop.simps significant_lines.simps)
  next
    case False
    let ?line = "chomp_cr (takeWhile (\<lambda>c. c \<noteq> 0x0A) rest)"
    note unfold = parse_loop.simps [of config seen rest] significant_lines.simps [of rest]
    show ?thesis
    proof (cases "?line = [] \<or> ?line ! 0 = 0x23")
      case True
      then show ?thesis using False 1(1,2) unfolding unfold by (auto simp: Let_def)
    next
      case line: False
      then show ?thesis
        using False 1(3) [OF False refl refl] unfolding unfold
        by (auto simp: Let_def split: prod.split)
    qed
  qed
qed

section \<open>What an accepted configuration looks like\<close>

text \<open>An array of capacity \<open>cap\<close> that holds a zero-terminated value satisfying \<open>P\<close>, zeros behind it.\<close>

definition holds :: "nat \<Rightarrow> (bytes \<Rightarrow> bool) \<Rightarrow> bytes \<Rightarrow> bool" where
  "holds cap P array \<longleftrightarrow>
     length array = cap \<and> length (cstr array) < cap \<and> P (cstr array)
     \<and> array = cstr array @ replicate (cap - length (cstr array)) 0"

definition config_wf :: "josh_boot_config \<Rightarrow> bool" where
  "config_wf c \<longleftrightarrow>
     cfg_version c = 1 \<and> timeout_seconds c \<le> 30 \<and> cfg_flags c \<le> 3
     \<and> holds 16 entry_id_valid (entry_id c) \<and> default_entry c = entry_id c
     \<and> holds 32 display_name_valid (display_name c)
     \<and> holds 96 path_valid (kernel_path c)
     \<and> holds 96 (\<lambda>v. v = [] \<or> path_valid v) (previous_kernel_path c)
     \<and> holds 96 (\<lambda>v. v = [] \<or> path_valid v) (recovery_kernel_path c)
     \<and> holds 128 command_line_valid (command_line c)"

lemma cstr_append_zero: "0 \<notin> set v \<Longrightarrow> cstr (v @ 0 # rest) = v"
  by (simp add: cstr_def takeWhile_append)

lemma cstr_zeros [simp]: "cstr (replicate n 0) = []"
  by (cases n) (simp_all add: cstr_def)

lemma holds_zeros: "0 < n \<Longrightarrow> P [] \<Longrightarrow> holds n P (replicate n 0)"
  by (simp add: holds_def)

lemma copy_value_zeros:
  assumes "length v < n"
  shows "copy_value (replicate n 0) v = Some (v @ replicate (n - length v) 0)"
proof -
  have "n - length v = Suc (n - (length v + 1))" using assms by simp
  then show ?thesis using assms by (simp add: copy_value_def)
qed

lemma holds_value:
  assumes "length v < n" "0 \<notin> set v" "P v"
  shows "holds n P (v @ replicate (n - length v) 0)" "cstr (v @ replicate (n - length v) 0) = v"
proof -
  obtain m where "n - length v = Suc m" using assms(1) by (cases "n - length v") auto
  then show c: "cstr (v @ replicate (n - length v) 0) = v" using assms(2) by (simp add: cstr_append_zero)
  show "holds n P (v @ replicate (n - length v) 0)"
    using assms by (simp add: holds_def c)
qed

text \<open>Valid values contain no terminator, no line end and fit their array.\<close>

definition plain :: "bytes \<Rightarrow> bool" where
  "plain v \<longleftrightarrow> list_all (\<lambda>c. 0x20 \<le> c \<and> c \<le> 0x7E) v"

lemma plain_no: "plain v \<Longrightarrow> 0 \<notin> set v" "plain v \<Longrightarrow> 0x0A \<notin> set v" "plain v \<Longrightarrow> 0x0D \<notin> set v"
  by (auto simp: plain_def list_all_iff)

lemma valid_plain:
  "entry_id_valid v \<Longrightarrow> plain v \<and> length v < 16 \<and> v \<noteq> []"
  "display_name_valid v \<Longrightarrow> plain v \<and> length v < 32 \<and> v \<noteq> []"
  "path_valid v \<Longrightarrow> plain v \<and> length v < 96 \<and> v \<noteq> []"
  "command_line_valid v \<Longrightarrow> plain v \<and> length v < 128"
proof -
  have word: "0x20 \<le> c \<and> c \<le> 0x7E"
    if "(c \<ge> 0x61 \<and> c \<le> 0x7A) \<or> (c \<ge> 0x41 \<and> c \<le> 0x5A) \<or> (c \<ge> 0x30 \<and> c \<le> 0x39) \<or> c = 0x2D \<or> c = 0x5F"
    for c :: u8
    using that by (auto simp: word_le_nat_alt)
  show "entry_id_valid v \<Longrightarrow> plain v \<and> length v < 16 \<and> v \<noteq> []"
    using word by (auto simp: entry_id_valid_def plain_def list_all_iff config_sizes)
  show "display_name_valid v \<Longrightarrow> plain v \<and> length v < 32 \<and> v \<noteq> []"
    by (auto simp: display_name_valid_def plain_def list_all_iff config_sizes not_less)
  show "path_valid v \<Longrightarrow> plain v \<and> length v < 96 \<and> v \<noteq> []"
    by (auto simp: path_valid_def plain_def list_all_iff config_sizes word_le_nat_alt word_less_nat_alt)
  show "command_line_valid v \<Longrightarrow> plain v \<and> length v < 128"
    by (auto simp: command_line_valid_def plain_def list_all_iff config_sizes not_less)
qed

text \<open>The invariant of the line loop: a field whose bit is not set is still zero.\<close>

definition field_slot :: "nat \<Rightarrow> (bytes \<Rightarrow> bool) \<Rightarrow> bool \<Rightarrow> bytes \<Rightarrow> bool" where
  "field_slot cap P present array \<longleftrightarrow>
     (if present then holds cap P array else array = replicate cap 0)"

definition config_inv :: "u32 \<Rightarrow> josh_boot_config \<Rightarrow> bool" where
  "config_inv seen c \<longleftrightarrow>
     (bit seen 0 \<longrightarrow> cfg_version c = 1)
     \<and> timeout_seconds c \<le> 30 \<and> cfg_flags c \<le> 3
     \<and> field_slot 16 entry_id_valid (bit seen 1) (default_entry c)
     \<and> field_slot 16 entry_id_valid (bit seen 3) (entry_id c)
     \<and> field_slot 32 display_name_valid (bit seen 4) (display_name c)
     \<and> field_slot 96 path_valid (bit seen 5) (kernel_path c)
     \<and> field_slot 128 command_line_valid (bit seen 6) (command_line c)
     \<and> field_slot 96 path_valid (bit seen 8) (previous_kernel_path c)
     \<and> field_slot 96 path_valid (bit seen 9) (recovery_kernel_path c)"

lemma field_slot_set:
  assumes "field_slot cap P False array" "P v" "plain v" "copy_value array v = Some d"
  shows "field_slot cap P True d"
proof -
  have array: "array = replicate cap 0" using assms(1) by (simp add: field_slot_def)
  have fits: "length v < cap" using assms(4) by (simp add: copy_value_def array split: if_split_asm)
  then have "d = v @ replicate (cap - length v) 0" using assms(4) by (simp add: array copy_value_zeros)
  then show ?thesis using holds_value(1) [OF fits plain_no(1) [OF assms(3)]] assms(2) by (simp add: field_slot_def)
qed

lemma zero_config_inv: "config_inv 0 zero_config"
  by (simp add: config_inv_def zero_config_def field_slot_def config_sizes)

lemma parse_flags_loop_bound: "flags \<le> 3 \<Longrightarrow> parse_flags_loop v flags = (ok, fl) \<Longrightarrow> fl \<le> 3"
proof (induction v flags rule: parse_flags_loop.induct)
  case (1 v flags)
  have or3: "flags OR 1 \<le> 3" "flags OR 2 \<le> 3"
  proof -
    have "unat flags < 4" using 1(2) by (simp add: word_le_nat_alt)
    then have "flags = 0 \<or> flags = 1 \<or> flags = 2 \<or> flags = 3"
      by (simp add: word_unat_eq_iff) linarith
    then show "flags OR 1 \<le> 3" "flags OR 2 \<le> 3" by auto
  qed
  show ?case
    using 1(3) 1(1) [OF refl refl] 1(2) or3
    by (subst (asm) parse_flags_loop.simps)
      (auto simp: Let_def config_sizes split: if_split_asm option.split_asm)
qed

lemma parse_flags_bound: "parse_flags v = (ok, fl) \<Longrightarrow> fl \<le> 3"
  using parse_flags_loop_bound [of 0 v ok fl] by (auto simp: parse_flags_def split: if_split_asm)

text \<open>The ten fields, and \<open>apply_field\<close> on each of them.\<close>

lemma apply_field_simps:
  "apply_field c FIELD_VERSION v = set_version c v"
  "apply_field c FIELD_TIMEOUT v = set_timeout c v"
  "apply_field c FIELD_DEFAULT v =
     (case set_entry_value (default_entry c) v of None \<Rightarrow> (JOSH_CONFIG_INVALID_VALUE, c)
      | Some d \<Rightarrow> (JOSH_CONFIG_OK, c\<lparr>default_entry := d\<rparr>))"
  "apply_field c FIELD_ENTRY v =
     (case set_entry_value (entry_id c) v of None \<Rightarrow> (JOSH_CONFIG_INVALID_VALUE, c)
      | Some d \<Rightarrow> (JOSH_CONFIG_OK, c\<lparr>entry_id := d\<rparr>))"
  "apply_field c FIELD_NAME v = set_name c v"
  "apply_field c FIELD_KERNEL v =
     (if \<not> path_valid v then (JOSH_CONFIG_INVALID_VALUE, c)
      else case copy_value (kernel_path c) v of None \<Rightarrow> (JOSH_CONFIG_INVALID_VALUE, c)
      | Some d \<Rightarrow> (JOSH_CONFIG_OK, c\<lparr>kernel_path := d\<rparr>))"
  "apply_field c FIELD_PREVIOUS_KERNEL v =
     (if \<not> path_valid v then (JOSH_CONFIG_INVALID_VALUE, c)
      else case copy_value (previous_kernel_path c) v of None \<Rightarrow> (JOSH_CONFIG_INVALID_VALUE, c)
      | Some d \<Rightarrow> (JOSH_CONFIG_OK, c\<lparr>previous_kernel_path := d\<rparr>))"
  "apply_field c FIELD_RECOVERY_KERNEL v =
     (if \<not> path_valid v then (JOSH_CONFIG_INVALID_VALUE, c)
      else case copy_value (recovery_kernel_path c) v of None \<Rightarrow> (JOSH_CONFIG_INVALID_VALUE, c)
      | Some d \<Rightarrow> (JOSH_CONFIG_OK, c\<lparr>recovery_kernel_path := d\<rparr>))"
  "apply_field c FIELD_CMDLINE v =
     (if \<not> command_line_valid v then (JOSH_CONFIG_INVALID_VALUE, c)
      else case copy_value (command_line c) v of None \<Rightarrow> (JOSH_CONFIG_INVALID_VALUE, c)
      | Some d \<Rightarrow> (JOSH_CONFIG_OK, c\<lparr>command_line := d\<rparr>))"
  "apply_field c FIELD_FLAGS v =
     (case parse_flags v of (ok, fl) \<Rightarrow>
        (if ok then JOSH_CONFIG_OK else JOSH_CONFIG_INVALID_VALUE, c\<lparr>cfg_flags := fl\<rparr>))"
  by (simp_all add: apply_field_def set_path_def field_codes Let_def cong: option.case_cong)

lemma field_from_key_cases:
  "field_from_key key = 0 \<or> field_from_key key \<in> {FIELD_VERSION, FIELD_DEFAULT, FIELD_TIMEOUT, FIELD_ENTRY,
     FIELD_NAME, FIELD_KERNEL, FIELD_CMDLINE, FIELD_FLAGS, FIELD_PREVIOUS_KERNEL, FIELD_RECOVERY_KERNEL}"
  by (simp add: field_from_key_def fields_def)

lemma seen_bits:
  fixes seen :: u32
  assumes "k < 32"
  shows "seen AND push_bit k 1 = 0 \<longleftrightarrow> \<not> bit seen k"
    and "bit (seen OR push_bit k 1) j \<longleftrightarrow> bit seen j \<or> j = k"
  using assms by (auto simp: push_bit_of_1 and_exp_eq_0_iff_not_bit bit_simps)

lemma field_bits:
  fixes seen :: u32
  shows "seen AND FIELD_VERSION = 0 \<longleftrightarrow> \<not> bit seen 0" "bit (seen OR FIELD_VERSION) j \<longleftrightarrow> bit seen j \<or> j = 0"
    "seen AND FIELD_DEFAULT = 0 \<longleftrightarrow> \<not> bit seen 1" "bit (seen OR FIELD_DEFAULT) j \<longleftrightarrow> bit seen j \<or> j = 1"
    "seen AND FIELD_TIMEOUT = 0 \<longleftrightarrow> \<not> bit seen 2" "bit (seen OR FIELD_TIMEOUT) j \<longleftrightarrow> bit seen j \<or> j = 2"
    "seen AND FIELD_ENTRY = 0 \<longleftrightarrow> \<not> bit seen 3" "bit (seen OR FIELD_ENTRY) j \<longleftrightarrow> bit seen j \<or> j = 3"
    "seen AND FIELD_NAME = 0 \<longleftrightarrow> \<not> bit seen 4" "bit (seen OR FIELD_NAME) j \<longleftrightarrow> bit seen j \<or> j = 4"
    "seen AND FIELD_KERNEL = 0 \<longleftrightarrow> \<not> bit seen 5" "bit (seen OR FIELD_KERNEL) j \<longleftrightarrow> bit seen j \<or> j = 5"
    "seen AND FIELD_CMDLINE = 0 \<longleftrightarrow> \<not> bit seen 6" "bit (seen OR FIELD_CMDLINE) j \<longleftrightarrow> bit seen j \<or> j = 6"
    "seen AND FIELD_FLAGS = 0 \<longleftrightarrow> \<not> bit seen 7" "bit (seen OR FIELD_FLAGS) j \<longleftrightarrow> bit seen j \<or> j = 7"
    "seen AND FIELD_PREVIOUS_KERNEL = 0 \<longleftrightarrow> \<not> bit seen 8" "bit (seen OR FIELD_PREVIOUS_KERNEL) j \<longleftrightarrow> bit seen j \<or> j = 8"
    "seen AND FIELD_RECOVERY_KERNEL = 0 \<longleftrightarrow> \<not> bit seen 9" "bit (seen OR FIELD_RECOVERY_KERNEL) j \<longleftrightarrow> bit seen j \<or> j = 9"
  unfolding field_codes by (rule seen_bits; simp)+

text \<open>
  Setting one field keeps the invariant: the slot that changes is the one whose bit is added.
\<close>

lemma apply_field_inv:
  assumes "config_inv seen c" "seen AND field = 0" "apply_field c field v = (JOSH_CONFIG_OK, c')"
    and "field \<in> {FIELD_VERSION, FIELD_DEFAULT, FIELD_TIMEOUT, FIELD_ENTRY,
     FIELD_NAME, FIELD_KERNEL, FIELD_CMDLINE, FIELD_FLAGS, FIELD_PREVIOUS_KERNEL, FIELD_RECOVERY_KERNEL}"
  shows "config_inv (seen OR field) c'"
proof -
  note slots = field_slot_set [where cap = 16 and P = entry_id_valid]
    field_slot_set [where cap = 32 and P = display_name_valid]
    field_slot_set [where cap = 96 and P = path_valid]
    field_slot_set [where cap = 128 and P = command_line_valid]
  from assms(4) consider (version) "field = FIELD_VERSION" | (timeout) "field = FIELD_TIMEOUT"
    | (default) "field = FIELD_DEFAULT" | (entry) "field = FIELD_ENTRY" | (name) "field = FIELD_NAME"
    | (kernel) "field = FIELD_KERNEL" | (previous) "field = FIELD_PREVIOUS_KERNEL"
    | (recovery) "field = FIELD_RECOVERY_KERNEL" | (cmdline) "field = FIELD_CMDLINE"
    | (flags) "field = FIELD_FLAGS"
    by blast
  then show ?thesis
  proof cases
    case version
    with assms(3) have "c' = c\<lparr>cfg_version := 1\<rparr>"
      by (auto simp: apply_field_simps set_version_def JOSH_BOOT_CONFIG_VERSION_def
          split: option.splits if_split_asm)
    then show ?thesis using assms(1) unfolding version
      by (simp add: config_inv_def field_bits)
  next
    case timeout
    with assms(3) obtain n where "c' = c\<lparr>timeout_seconds := n\<rparr>" "n \<le> 30"
      by (auto simp: apply_field_simps set_timeout_def not_less split: option.splits if_split_asm)
    then show ?thesis using assms(1) unfolding timeout
      by (simp add: config_inv_def field_bits)
  next
    case default
    with assms(3) obtain d where "c' = c\<lparr>default_entry := d\<rparr>" "entry_id_valid v"
      "copy_value (default_entry c) v = Some d"
      by (auto simp: apply_field_simps set_entry_value_def split: option.splits if_split_asm)
    then show ?thesis using assms(1,2) valid_plain(1) [of v] slots(1) [of "default_entry c" v d]
      unfolding default
      by (simp add: config_inv_def field_bits)
  next
    case entry
    with assms(3) obtain d where "c' = c\<lparr>entry_id := d\<rparr>" "entry_id_valid v"
      "copy_value (entry_id c) v = Some d"
      by (auto simp: apply_field_simps set_entry_value_def split: option.splits if_split_asm)
    then show ?thesis using assms(1,2) valid_plain(1) [of v] slots(1) [of "entry_id c" v d]
      unfolding entry
      by (simp add: config_inv_def field_bits)
  next
    case name
    with assms(3) obtain d where "c' = c\<lparr>display_name := d\<rparr>" "display_name_valid v"
      "copy_value (display_name c) v = Some d"
      by (auto simp: apply_field_simps set_name_def split: option.splits if_split_asm)
    then show ?thesis using assms(1,2) valid_plain(2) [of v] slots(2) [of "display_name c" v d]
      unfolding name
      by (simp add: config_inv_def field_bits)
  next
    case kernel
    with assms(3) obtain d where "c' = c\<lparr>kernel_path := d\<rparr>" "path_valid v"
      "copy_value (kernel_path c) v = Some d"
      by (auto simp: apply_field_simps split: option.splits if_split_asm)
    then show ?thesis using assms(1,2) valid_plain(3) [of v] slots(3) [of "kernel_path c" v d]
      unfolding kernel
      by (simp add: config_inv_def field_bits)
  next
    case previous
    with assms(3) obtain d where "c' = c\<lparr>previous_kernel_path := d\<rparr>" "path_valid v"
      "copy_value (previous_kernel_path c) v = Some d"
      by (auto simp: apply_field_simps split: option.splits if_split_asm)
    then show ?thesis using assms(1,2) valid_plain(3) [of v] slots(3) [of "previous_kernel_path c" v d]
      unfolding previous
      by (simp add: config_inv_def field_bits)
  next
    case recovery
    with assms(3) obtain d where "c' = c\<lparr>recovery_kernel_path := d\<rparr>" "path_valid v"
      "copy_value (recovery_kernel_path c) v = Some d"
      by (auto simp: apply_field_simps split: option.splits if_split_asm)
    then show ?thesis using assms(1,2) valid_plain(3) [of v] slots(3) [of "recovery_kernel_path c" v d]
      unfolding recovery
      by (simp add: config_inv_def field_bits)
  next
    case cmdline
    with assms(3) obtain d where "c' = c\<lparr>command_line := d\<rparr>" "command_line_valid v"
      "copy_value (command_line c) v = Some d"
      by (auto simp: apply_field_simps split: option.splits if_split_asm)
    then show ?thesis using assms(1,2) valid_plain(4) [of v] slots(4) [of "command_line c" v d]
      unfolding cmdline
      by (simp add: config_inv_def field_bits)
  next
    case flags
    with assms(3) obtain fl where "c' = c\<lparr>cfg_flags := fl\<rparr>" "fl \<le> 3"
      by (auto simp: apply_field_simps dest: parse_flags_bound split: prod.splits if_split_asm)
    then show ?thesis using assms(1) unfolding flags
      by (simp add: config_inv_def field_bits)
  qed
qed

lemma set_field_OK:
  assumes "set_field c seen key v = (JOSH_CONFIG_OK, c', seen')"
  shows "field_from_key key \<noteq> 0" "seen AND field_from_key key = 0"
    "seen' = seen OR field_from_key key" "apply_field c (field_from_key key) v = (JOSH_CONFIG_OK, c')"
  using assms by (auto simp: set_field_def Let_def split: if_split_asm prod.split_asm)

lemma set_field_inv:
  assumes "config_inv seen c" "set_field c seen key v = (JOSH_CONFIG_OK, c', seen')"
  shows "config_inv seen' c'"
  using apply_field_inv [OF assms(1) set_field_OK(2,4) [OF assms(2)]] set_field_OK(1,3) [OF assms(2)]
    field_from_key_cases [of key] by blast

definition line_key :: "bytes \<Rightarrow> bytes" where
  "line_key line = takeWhile (\<lambda>c. c \<noteq> 0x3D) line"

definition line_value :: "bytes \<Rightarrow> bytes" where
  "line_value line = drop 1 (dropWhile (\<lambda>c. c \<noteq> 0x3D) line)"

lemma run_lines_Cons:
  "run_lines c seen (line # lines) =
     (if line_key line = [] \<or> 0x3D \<notin> set line then (JOSH_CONFIG_SYNTAX, c, seen)
      else case set_field c seen (line_key line) (line_value line) of
             (status, c', seen') \<Rightarrow>
               if status \<noteq> JOSH_CONFIG_OK then (status, c', seen') else run_lines c' seen' lines)"
  by (auto simp: line_key_def line_value_def Let_def)

lemma run_lines_OK_Cons:
  assumes "run_lines c seen (line # lines) = (JOSH_CONFIG_OK, c', seen')"
  obtains c1 seen1 where "line_key line \<noteq> []" "0x3D \<in> set line"
    "set_field c seen (line_key line) (line_value line) = (JOSH_CONFIG_OK, c1, seen1)"
    "run_lines c1 seen1 lines = (JOSH_CONFIG_OK, c', seen')"
  using assms unfolding run_lines_Cons by (auto split: if_split_asm prod.split_asm)

declare run_lines.simps(2) [simp del]

lemma run_lines_inv:
  "config_inv seen c \<Longrightarrow> run_lines c seen lines = (JOSH_CONFIG_OK, c', seen') \<Longrightarrow> config_inv seen' c'"
proof (induction lines arbitrary: c seen)
  case (Cons line lines)
  from Cons.prems(2) obtain c1 seen1 where
    "set_field c seen (line_key line) (line_value line) = (JOSH_CONFIG_OK, c1, seen1)"
    "run_lines c1 seen1 lines = (JOSH_CONFIG_OK, c', seen')"
    by (rule run_lines_OK_Cons)
  then show ?case using Cons set_field_inv by blast
qed simp

lemma parse_OK:
  assumes "josh_boot_config_parse (Some chars) len (Some c0) = (JOSH_CONFIG_OK, Some c)"
  obtains seen where "run_lines zero_config 0 (significant_lines (take len chars)) = (JOSH_CONFIG_OK, c, seen)"
    "seen AND REQUIRED_FIELDS = REQUIRED_FIELDS" "cstr (default_entry c) = cstr (entry_id c)"
    "0 < len" "len \<le> 1024"
  using assms
  by (auto simp: josh_boot_config_parse_def parse_loop_lines config_sizes split: if_split_asm prod.split_asm)

lemma required_bits:
  assumes "seen AND REQUIRED_FIELDS = REQUIRED_FIELDS"
  shows "bit seen 0" "bit seen 1" "bit seen 2" "bit seen 3" "bit seen 4" "bit seen 5"
proof -
  have "bit (seen AND REQUIRED_FIELDS) k = bit REQUIRED_FIELDS k" for k using assms by simp
  moreover have "bit REQUIRED_FIELDS k" if "k \<le> 5" for k
  proof -
    have "k = 0 \<or> k = 1 \<or> k = 2 \<or> k = 3 \<or> k = 4 \<or> k = 5" using that by linarith
    then show ?thesis by (auto simp: REQUIRED_FIELDS_def field_codes bit_simps)
  qed
  ultimately have "bit seen k" if "k \<le> 5" for k using that unfolding bit_and_iff by blast
  then show "bit seen 0" "bit seen 1" "bit seen 2" "bit seen 3" "bit seen 4" "bit seen 5" by simp_all
qed

lemma holds_cstr_eq: "holds n P a \<Longrightarrow> holds n Q b \<Longrightarrow> cstr a = cstr b \<Longrightarrow> a = b"
  unfolding holds_def by metis

lemma parse_wf:
  assumes "josh_boot_config_parse (Some chars) len (Some c0) = (JOSH_CONFIG_OK, Some c)"
  shows "config_wf c"
proof -
  obtain seen where r: "run_lines zero_config 0 (significant_lines (take len chars)) = (JOSH_CONFIG_OK, c, seen)"
    "seen AND REQUIRED_FIELDS = REQUIRED_FIELDS" "cstr (default_entry c) = cstr (entry_id c)"
    using assms by (rule parse_OK)
  have inv: "config_inv seen c" using zero_config_inv r(1) by (rule run_lines_inv)
  note bits = required_bits [OF r(2)]
  have opt: "holds 96 (\<lambda>v. v = [] \<or> path_valid v) a" if "field_slot 96 path_valid p a" for p a
    using that by (auto simp: field_slot_def holds_def split: if_split_asm)
  have cmd: "holds 128 command_line_valid a" if "field_slot 128 command_line_valid p a" for p a
    using that by (auto simp: field_slot_def holds_zeros command_line_valid_def split: if_split_asm)
  show ?thesis
    using inv bits opt cmd r(3) holds_cstr_eq unfolding config_inv_def config_wf_def
    by (simp add: field_slot_def) blast
qed

text \<open>
  C26. A configuration that is accepted is well formed: version 1, a timeout of at most 30 seconds,
  known flags only, the default entry is the entry that is described, and every string is valid,
  not longer than its array allows and terminated inside it; the alternative kernels are either
  absent or valid absolute paths.
\<close>

theorem config_parse_wf:
  assumes "josh_boot_config_parse (Some chars) len (Some c0) = (JOSH_CONFIG_OK, Some c)"
  shows "config_wf c"
  using assms by (rule parse_wf)

lemma run_lines_keys:
  assumes "run_lines c seen lines = (JOSH_CONFIG_OK, c', seen')"
  shows "list_all (\<lambda>l. field_from_key (line_key l) \<noteq> 0 \<and> 0x3D \<in> set l) lines"
    and "distinct (map line_key lines)"
    and "\<forall>l \<in> set lines. seen AND field_from_key (line_key l) = 0"
    and "seen' = fold (\<lambda>l s. s OR field_from_key (line_key l)) lines seen"
  using assms
proof (induction lines arbitrary: c seen)
  case (Cons line lines)
  {
    case 1
    then show ?case using Cons.IH(1) by (auto elim: run_lines_OK_Cons dest: set_field_OK)
  next
    case 2
    then obtain c1 seen1 where s: "set_field c seen (line_key line) (line_value line) = (JOSH_CONFIG_OK, c1, seen1)"
      "run_lines c1 seen1 lines = (JOSH_CONFIG_OK, c', seen')"
      by (rule run_lines_OK_Cons)
    have "line_key line \<notin> line_key ` set lines"
    proof
      assume "line_key line \<in> line_key ` set lines"
      then obtain l where "l \<in> set lines" "line_key l = line_key line" by auto
      then have "seen1 AND field_from_key (line_key line) = 0"
        using Cons.IH(3) [OF s(2)] by auto
      then show False
        using set_field_OK(1,3) [OF s(1)] by (simp add: bit.conj_disj_distrib2)
    qed
    then show ?case using Cons.IH(2) [OF s(2)] by simp
  next
    case 3
    then obtain c1 seen1 where s: "set_field c seen (line_key line) (line_value line) = (JOSH_CONFIG_OK, c1, seen1)"
      "run_lines c1 seen1 lines = (JOSH_CONFIG_OK, c', seen')"
      by (rule run_lines_OK_Cons)
    then show ?case
      using Cons.IH(3) [OF s(2)] set_field_OK(2,3) [OF s(1)]
      by (auto simp: bit.conj_disj_distrib2 or_eq_0_iff)
  next
    case 4
    then show ?case using Cons.IH(4) by (auto elim: run_lines_OK_Cons dest: set_field_OK)
  }
qed simp_all

lemma fold_or_bit:
  "bit (fold (\<lambda>l s. s OR f l) ls (seen :: u32)) k \<longleftrightarrow> bit seen k \<or> (\<exists>l \<in> set ls. bit (f l) k)"
  by (induction ls arbitrary: seen) (auto simp: bit_or_iff)

lemma field_from_key_bit:
  "bit (field_from_key key) 0 \<Longrightarrow> key = ascii ''version''"
  "bit (field_from_key key) 1 \<Longrightarrow> key = ascii ''default''"
  "bit (field_from_key key) 2 \<Longrightarrow> key = ascii ''timeout''"
  "bit (field_from_key key) 3 \<Longrightarrow> key = ascii ''entry''"
  "bit (field_from_key key) 4 \<Longrightarrow> key = ascii ''name''"
  "bit (field_from_key key) 5 \<Longrightarrow> key = ascii ''kernel''"
  by (simp_all add: field_from_key_def fields_def field_codes bit_simps split: if_split_asm)

text \<open>
  C27. An accepted text has no junk: every line that is neither blank nor a comment is
  \<open>key=value\<close> with a key of the format, no key occurs twice, and the six mandatory keys are there.
\<close>

theorem config_parse_keys:
  assumes "josh_boot_config_parse (Some chars) len (Some c0) = (JOSH_CONFIG_OK, Some c)"
  defines "lines \<equiv> significant_lines (take len chars)"
  shows "list_all (\<lambda>l. field_from_key (line_key l) \<noteq> 0 \<and> 0x3D \<in> set l) lines
    \<and> distinct (map line_key lines)
    \<and> {ascii ''version'', ascii ''default'', ascii ''timeout'', ascii ''entry'', ascii ''name'',
        ascii ''kernel''} \<subseteq> set (map line_key lines)"
proof -
  obtain seen where r: "run_lines zero_config 0 lines = (JOSH_CONFIG_OK, c, seen)"
    "seen AND REQUIRED_FIELDS = REQUIRED_FIELDS"
    using assms(1) unfolding lines_def by (rule parse_OK)
  note keys = run_lines_keys [OF r(1)]
  have "\<exists>l \<in> set lines. bit (field_from_key (line_key l)) k" if "bit seen k" for k
    using that unfolding keys(4) fold_or_bit by simp
  then have "ascii ''version'' \<in> line_key ` set lines" "ascii ''default'' \<in> line_key ` set lines"
    "ascii ''timeout'' \<in> line_key ` set lines" "ascii ''entry'' \<in> line_key ` set lines"
    "ascii ''name'' \<in> line_key ` set lines" "ascii ''kernel'' \<in> line_key ` set lines"
    using required_bits [OF r(2)] field_from_key_bit by (metis image_eqI)+
  then show ?thesis using keys(1,2) by (simp only: set_map insert_subset empty_subsetI)
qed

section \<open>Printing and parsing back\<close>

definition config_line :: "string \<Rightarrow> bytes \<Rightarrow> bytes" where
  "config_line key v = ascii key @ 0x3D # v"

definition optional_line :: "string \<Rightarrow> bytes \<Rightarrow> bytes list" where
  "optional_line key v = (if v = [] then [] else [config_line key v])"

definition flags_text :: "u32 \<Rightarrow> bytes" where
  "flags_text fl =
     (if fl = 0 then ascii ''none'' else if fl = 1 then ascii ''recovery''
      else if fl = 2 then ascii ''development'' else ascii ''recovery,development'')"

definition config_lines :: "josh_boot_config \<Rightarrow> bytes list" where
  "config_lines c =
     [config_line ''version'' (decimal_digits (unat (cfg_version c))),
      config_line ''default'' (cstr (default_entry c)),
      config_line ''timeout'' (decimal_digits (unat (timeout_seconds c))),
      config_line ''entry'' (cstr (entry_id c)),
      config_line ''name'' (cstr (display_name c)),
      config_line ''kernel'' (cstr (kernel_path c)),
      config_line ''cmdline'' (cstr (command_line c)),
      config_line ''flags'' (flags_text (cfg_flags c))]
     @ optional_line ''previous_kernel'' (cstr (previous_kernel_path c))
     @ optional_line ''recovery_kernel'' (cstr (recovery_kernel_path c))"

definition print_config :: "josh_boot_config \<Rightarrow> bytes" where
  "print_config c = concat (map (\<lambda>l. l @ [0x0A]) (config_lines c))"

lemma significant_lines_print:
  assumes "list_all (\<lambda>l. l \<noteq> [] \<and> l ! 0 \<noteq> 0x23 \<and> 0x0A \<notin> set l \<and> 0x0D \<notin> set l) ls"
  shows "significant_lines (concat (map (\<lambda>l. l @ [0x0A]) ls)) = ls"
  using assms
proof (induction ls)
  case Nil
  then show ?case by (simp add: significant_lines.simps)
next
  case (Cons l ls)
  let ?t = "concat (map (\<lambda>l. l @ [0x0A]) ls)"
  have "takeWhile (\<lambda>c. c \<noteq> 0x0A) (l @ [0x0A] @ ?t) = l" "dropWhile (\<lambda>c. c \<noteq> 0x0A) (l @ [0x0A] @ ?t) = 0x0A # ?t"
    using Cons.prems by (auto simp: takeWhile_append dropWhile_append)
  moreover have "l \<noteq> []" "0x0D \<notin> set l" using Cons.prems by simp_all
  then have "last l \<noteq> 0x0D" using last_in_set by metis
  then have "chomp_cr l = l" by (simp add: chomp_cr_def)
  ultimately show ?case
    using Cons by (simp add: significant_lines.simps [of "l @ 0x0A # ?t"])
qed

lemma config_line_parts:
  assumes "0x3D \<notin> set (ascii key)"
  shows "line_key (config_line key v) = ascii key" "line_value (config_line key v) = v"
    "0x3D \<in> set (config_line key v)"
  using assms by (auto simp: line_key_def line_value_def config_line_def takeWhile_append dropWhile_append)

lemma run_lines_config_line:
  assumes "0x3D \<notin> set (ascii key)" "ascii key \<noteq> []" "field_from_key (ascii key) = field" "field \<noteq> 0"
    and "seen AND field = 0" "apply_field c field v = (JOSH_CONFIG_OK, c')"
  shows "run_lines c seen (config_line key v # ls) = run_lines c' (seen OR field) ls"
  unfolding run_lines_Cons using assms by (simp add: config_line_parts set_field_def Let_def)

lemma copy_holds: "holds n P a \<Longrightarrow> copy_value (replicate n 0) (cstr a) = Some a"
  unfolding holds_def using copy_value_zeros by metis

lemma parse_flags_text:
  assumes "fl \<le> 3"
  shows "parse_flags (flags_text fl) = (True, fl)"
proof -
  have "unat fl \<le> 3" using assms by (simp add: word_le_nat_alt)
  then have "fl = 0 \<or> fl = 1 \<or> fl = 2 \<or> fl = 3" by (simp add: word_unat_eq_iff) linarith
  then show ?thesis
    by (elim disjE)
      (simp_all add: flags_text_def parse_flags_def parse_flags_loop.simps Let_def config_sizes)
qed

lemma apply_printed:
  assumes "config_wf c"
  shows "apply_field d FIELD_VERSION (decimal_digits (unat (cfg_version c))) = (JOSH_CONFIG_OK, d\<lparr>cfg_version := cfg_version c\<rparr>)"
    and "apply_field d FIELD_TIMEOUT (decimal_digits (unat (timeout_seconds c))) = (JOSH_CONFIG_OK, d\<lparr>timeout_seconds := timeout_seconds c\<rparr>)"
    and "default_entry d = replicate 16 0 \<Longrightarrow> apply_field d FIELD_DEFAULT (cstr (default_entry c)) = (JOSH_CONFIG_OK, d\<lparr>default_entry := default_entry c\<rparr>)"
    and "entry_id d = replicate 16 0 \<Longrightarrow> apply_field d FIELD_ENTRY (cstr (entry_id c)) = (JOSH_CONFIG_OK, d\<lparr>entry_id := entry_id c\<rparr>)"
    and "display_name d = replicate 32 0 \<Longrightarrow> apply_field d FIELD_NAME (cstr (display_name c)) = (JOSH_CONFIG_OK, d\<lparr>display_name := display_name c\<rparr>)"
    and "kernel_path d = replicate 96 0 \<Longrightarrow> apply_field d FIELD_KERNEL (cstr (kernel_path c)) = (JOSH_CONFIG_OK, d\<lparr>kernel_path := kernel_path c\<rparr>)"
    and "command_line d = replicate 128 0 \<Longrightarrow> apply_field d FIELD_CMDLINE (cstr (command_line c)) = (JOSH_CONFIG_OK, d\<lparr>command_line := command_line c\<rparr>)"
    and "apply_field d FIELD_FLAGS (flags_text (cfg_flags c)) = (JOSH_CONFIG_OK, d\<lparr>cfg_flags := cfg_flags c\<rparr>)"
    and "previous_kernel_path d = replicate 96 0 \<Longrightarrow> cstr (previous_kernel_path c) \<noteq> [] \<Longrightarrow>
      apply_field d FIELD_PREVIOUS_KERNEL (cstr (previous_kernel_path c)) = (JOSH_CONFIG_OK, d\<lparr>previous_kernel_path := previous_kernel_path c\<rparr>)"
    and "recovery_kernel_path d = replicate 96 0 \<Longrightarrow> cstr (recovery_kernel_path c) \<noteq> [] \<Longrightarrow>
      apply_field d FIELD_RECOVERY_KERNEL (cstr (recovery_kernel_path c)) = (JOSH_CONFIG_OK, d\<lparr>recovery_kernel_path := recovery_kernel_path c\<rparr>)"
proof -
  have num: "parse_u32 (decimal_digits (unat n)) = Some n" for n :: u32
    using unsigned_less [of n, where ?'a = nat] by (simp add: parse_u32_eq decimal_digits)
  note wf = assms [unfolded config_wf_def]
  have P: "P (cstr a)" if "holds n P a" for n P a using that by (simp add: holds_def)
  show "apply_field d FIELD_VERSION (decimal_digits (unat (cfg_version c))) = (JOSH_CONFIG_OK, d\<lparr>cfg_version := cfg_version c\<rparr>)"
    using wf by (simp add: apply_field_simps set_version_def num [of 1, simplified] JOSH_BOOT_CONFIG_VERSION_def)
  show "apply_field d FIELD_TIMEOUT (decimal_digits (unat (timeout_seconds c))) = (JOSH_CONFIG_OK, d\<lparr>timeout_seconds := timeout_seconds c\<rparr>)"
    using wf by (simp add: apply_field_simps set_timeout_def num leD)
  show "apply_field d FIELD_FLAGS (flags_text (cfg_flags c)) = (JOSH_CONFIG_OK, d\<lparr>cfg_flags := cfg_flags c\<rparr>)"
    using wf by (simp add: apply_field_simps parse_flags_text)
  show "apply_field d FIELD_DEFAULT (cstr (default_entry c)) = (JOSH_CONFIG_OK, d\<lparr>default_entry := default_entry c\<rparr>)"
    if "default_entry d = replicate 16 0"
    using that wf P [of 16 entry_id_valid] copy_holds [of 16 entry_id_valid]
    by (simp add: apply_field_simps set_entry_value_def)
  show "apply_field d FIELD_ENTRY (cstr (entry_id c)) = (JOSH_CONFIG_OK, d\<lparr>entry_id := entry_id c\<rparr>)"
    if "entry_id d = replicate 16 0"
    using that wf P [of 16 entry_id_valid] copy_holds [of 16 entry_id_valid]
    by (simp add: apply_field_simps set_entry_value_def)
  show "apply_field d FIELD_NAME (cstr (display_name c)) = (JOSH_CONFIG_OK, d\<lparr>display_name := display_name c\<rparr>)"
    if "display_name d = replicate 32 0"
    using that wf P [of 32 display_name_valid] copy_holds [of 32 display_name_valid]
    by (simp add: apply_field_simps set_name_def)
  show "apply_field d FIELD_KERNEL (cstr (kernel_path c)) = (JOSH_CONFIG_OK, d\<lparr>kernel_path := kernel_path c\<rparr>)"
    if "kernel_path d = replicate 96 0"
    using that wf P [of 96 path_valid] copy_holds [of 96 path_valid] by (simp add: apply_field_simps)
  show "apply_field d FIELD_CMDLINE (cstr (command_line c)) = (JOSH_CONFIG_OK, d\<lparr>command_line := command_line c\<rparr>)"
    if "command_line d = replicate 128 0"
    using that wf P [of 128 command_line_valid] copy_holds [of 128 command_line_valid]
    by (simp add: apply_field_simps)
  let ?opt = "\<lambda>v. v = [] \<or> path_valid v"
  show "apply_field d FIELD_PREVIOUS_KERNEL (cstr (previous_kernel_path c)) = (JOSH_CONFIG_OK, d\<lparr>previous_kernel_path := previous_kernel_path c\<rparr>)"
    if "previous_kernel_path d = replicate 96 0" "cstr (previous_kernel_path c) \<noteq> []"
    using that wf P [of 96 ?opt "previous_kernel_path c"] copy_holds [of 96 ?opt] by (simp add: apply_field_simps)
  show "apply_field d FIELD_RECOVERY_KERNEL (cstr (recovery_kernel_path c)) = (JOSH_CONFIG_OK, d\<lparr>recovery_kernel_path := recovery_kernel_path c\<rparr>)"
    if "recovery_kernel_path d = replicate 96 0" "cstr (recovery_kernel_path c) \<noteq> []"
    using that wf P [of 96 ?opt "recovery_kernel_path c"] copy_holds [of 96 ?opt] by (simp add: apply_field_simps)
qed

lemma printed_keys:
  "field_from_key (ascii ''version'') = FIELD_VERSION" "field_from_key (ascii ''default'') = FIELD_DEFAULT"
  "field_from_key (ascii ''timeout'') = FIELD_TIMEOUT" "field_from_key (ascii ''entry'') = FIELD_ENTRY"
  "field_from_key (ascii ''name'') = FIELD_NAME" "field_from_key (ascii ''kernel'') = FIELD_KERNEL"
  "field_from_key (ascii ''cmdline'') = FIELD_CMDLINE" "field_from_key (ascii ''flags'') = FIELD_FLAGS"
  "field_from_key (ascii ''previous_kernel'') = FIELD_PREVIOUS_KERNEL"
  "field_from_key (ascii ''recovery_kernel'') = FIELD_RECOVERY_KERNEL"
  by (simp_all add: field_from_key_def fields_def)

lemma field_nonzero:
  "FIELD_VERSION \<noteq> 0" "FIELD_DEFAULT \<noteq> 0" "FIELD_TIMEOUT \<noteq> 0" "FIELD_ENTRY \<noteq> 0" "FIELD_NAME \<noteq> 0"
  "FIELD_KERNEL \<noteq> 0" "FIELD_CMDLINE \<noteq> 0" "FIELD_FLAGS \<noteq> 0" "FIELD_PREVIOUS_KERNEL \<noteq> 0"
  "FIELD_RECOVERY_KERNEL \<noteq> 0"
  by (simp_all add: field_codes)

lemma run_required_lines:
  assumes "config_wf c"
  defines "d \<equiv> zero_config\<lparr>cfg_version := cfg_version c, default_entry := default_entry c,
      timeout_seconds := timeout_seconds c, entry_id := entry_id c, display_name := display_name c,
      kernel_path := kernel_path c, command_line := command_line c, cfg_flags := cfg_flags c\<rparr>"
  shows "run_lines zero_config 0
      ([config_line ''version'' (decimal_digits (unat (cfg_version c))),
        config_line ''default'' (cstr (default_entry c)),
        config_line ''timeout'' (decimal_digits (unat (timeout_seconds c))),
        config_line ''entry'' (cstr (entry_id c)),
        config_line ''name'' (cstr (display_name c)),
        config_line ''kernel'' (cstr (kernel_path c)),
        config_line ''cmdline'' (cstr (command_line c)),
        config_line ''flags'' (flags_text (cfg_flags c))] @ rest) = run_lines d 0xFF rest"
proof -
  note step = run_lines_config_line [OF _ _ printed_keys(1) field_nonzero(1)]
    run_lines_config_line [OF _ _ printed_keys(2) field_nonzero(2)]
    run_lines_config_line [OF _ _ printed_keys(3) field_nonzero(3)]
    run_lines_config_line [OF _ _ printed_keys(4) field_nonzero(4)]
    run_lines_config_line [OF _ _ printed_keys(5) field_nonzero(5)]
    run_lines_config_line [OF _ _ printed_keys(6) field_nonzero(6)]
    run_lines_config_line [OF _ _ printed_keys(7) field_nonzero(7)]
    run_lines_config_line [OF _ _ printed_keys(8) field_nonzero(8)]
  have z: "default_entry zero_config = replicate 16 0" "entry_id zero_config = replicate 16 0"
    "display_name zero_config = replicate 32 0" "kernel_path zero_config = replicate 96 0"
    "command_line zero_config = replicate 128 0"
    by (simp_all add: zero_config_def config_sizes)
  show ?thesis
    by (simp add: step apply_printed [OF assms(1)] z field_bits field_bits [of 0, simplified])
      (simp add: d_def or.assoc field_codes)
qed

lemma run_optional_lines:
  assumes "config_wf c" "previous_kernel_path d = replicate 96 0" "recovery_kernel_path d = replicate 96 0"
  shows "\<exists>seen. run_lines d 0xFF (optional_line ''previous_kernel'' (cstr (previous_kernel_path c))
      @ optional_line ''recovery_kernel'' (cstr (recovery_kernel_path c)))
      = (JOSH_CONFIG_OK, d\<lparr>previous_kernel_path := previous_kernel_path c,
           recovery_kernel_path := recovery_kernel_path c\<rparr>, seen)
      \<and> seen AND REQUIRED_FIELDS = REQUIRED_FIELDS"
proof -
  note step = run_lines_config_line [OF _ _ printed_keys(9) field_nonzero(9)]
    run_lines_config_line [OF _ _ printed_keys(10) field_nonzero(10)]
  note wf = assms(1) [unfolded config_wf_def]
  have none: "d\<lparr>previous_kernel_path := previous_kernel_path c\<rparr> = d" if "cstr (previous_kernel_path c) = []"
    using that wf assms(2) by (auto simp: holds_def)
  have none': "e\<lparr>recovery_kernel_path := recovery_kernel_path c\<rparr> = e"
    if "cstr (recovery_kernel_path c) = []" "recovery_kernel_path e = replicate 96 0" for e
    using that wf by (auto simp: holds_def)
  have bits: "\<not> bit (0xFF :: u32) 8" "\<not> bit (0xFF :: u32) 9" by simp_all
  have "REQUIRED_FIELDS AND 0xFF = REQUIRED_FIELDS" by (simp add: REQUIRED_FIELDS_def field_codes)
  then have "bit REQUIRED_FIELDS k \<Longrightarrow> bit (0xFF :: u32) k" for k by (metis bit_and_iff)
  then have req: "(0xFF OR x) AND REQUIRED_FIELDS = REQUIRED_FIELDS" for x :: u32
    by (intro bit_eqI) (auto simp: bit_and_iff bit_or_iff)
  show ?thesis
    using none none' [of "d\<lparr>previous_kernel_path := previous_kernel_path c\<rparr>"] none' [of d] assms(2,3)
      req [of 0] req [of FIELD_PREVIOUS_KERNEL] req [of FIELD_RECOVERY_KERNEL]
      req [of "FIELD_PREVIOUS_KERNEL OR FIELD_RECOVERY_KERNEL"]
    by (auto simp: optional_line_def step apply_printed [OF assms(1)] field_bits bits or.assoc)
qed

lemma config_lines_plain:
  assumes "config_wf c"
  shows "list_all (\<lambda>l. l \<noteq> [] \<and> l ! 0 \<noteq> 0x23 \<and> 0x0A \<notin> set l \<and> 0x0D \<notin> set l) (config_lines c)"
proof -
  note wf = assms [unfolded config_wf_def]
  have digits: "plain (decimal_digits n)" for n
    using decimal_digits(2) [of n]
    by (auto simp: plain_def list_all_iff digit_char_def word_le_nat_alt)
  have fl: "plain (flags_text x)" for x by (simp add: flags_text_def plain_def)
  have cs: "plain (cstr a)" if "holds n P a" "\<And>v. P v \<Longrightarrow> plain v" for n P a
    using that by (simp add: holds_def)
  have opt: "plain (cstr a)" if "holds 96 (\<lambda>v. v = [] \<or> path_valid v) a" for a
    using that valid_plain(3) by (intro cs [OF that]) (auto simp: plain_def)
  have ln: "0x0A \<notin> set (config_line key v) \<and> 0x0D \<notin> set (config_line key v)"
    if "plain v" "plain (ascii key)" for key v
    using plain_no [OF that(1)] plain_no [OF that(2)] by (auto simp: config_line_def)
  have keys: "plain (ascii ''version'')" "plain (ascii ''default'')" "plain (ascii ''timeout'')"
    "plain (ascii ''entry'')" "plain (ascii ''name'')" "plain (ascii ''kernel'')"
    "plain (ascii ''cmdline'')" "plain (ascii ''flags'')" "plain (ascii ''previous_kernel'')"
    "plain (ascii ''recovery_kernel'')"
    by (simp_all add: plain_def)
  have vals: "plain (cstr (default_entry c))" "plain (cstr (entry_id c))" "plain (cstr (display_name c))"
    "plain (cstr (kernel_path c))" "plain (cstr (command_line c))"
    "plain (cstr (previous_kernel_path c))" "plain (cstr (recovery_kernel_path c))"
    using wf cs valid_plain opt by (metis (no_types, lifting))+
  have head: "config_line (ch # key) v \<noteq> [] \<and> config_line (ch # key) v ! 0 = of_char ch" for ch key v
    by (simp add: config_line_def)
  show ?thesis
    unfolding config_lines_def optional_line_def
    by (simp add: head ln digits fl keys vals del: ascii_Cons)
qed

lemma print_config_length:
  assumes "config_wf c"
  shows "0 < length (print_config c)" "length (print_config c) \<le> 1024"
proof -
  note wf = assms [unfolded config_wf_def]
  have cs: "length (cstr a) \<le> n - 1" if "holds n P a" for n P a using that by (auto simp: holds_def)
  have "unat (timeout_seconds c) \<le> 30" using wf by (simp add: word_le_nat_alt)
  moreover from this have "unat (timeout_seconds c) div 10 < 10" by linarith
  ultimately have t: "length (decimal_digits (unat (timeout_seconds c))) \<le> 2"
    by (simp add: decimal_digits.simps [of "unat (timeout_seconds c)"] decimal_digits.simps [of "unat (timeout_seconds c) div 10"])
  have v: "length (decimal_digits (unat (cfg_version c))) \<le> 1"
    using wf by (simp add: decimal_digits.simps)
  have fl: "length (flags_text x) \<le> 20" for x by (simp add: flags_text_def)
  have b: "length (cstr (default_entry c)) \<le> 15" "length (cstr (entry_id c)) \<le> 15"
    "length (cstr (display_name c)) \<le> 31" "length (cstr (kernel_path c)) \<le> 95"
    "length (cstr (command_line c)) \<le> 127" "length (cstr (previous_kernel_path c)) \<le> 95"
    "length (cstr (recovery_kernel_path c)) \<le> 95"
    using wf cs by fastforce+
  show "0 < length (print_config c)" by (simp add: print_config_def config_lines_def)
  show "length (print_config c) \<le> 1024"
    using t v fl [of "cfg_flags c"] b
    by (simp add: print_config_def config_lines_def optional_line_def config_line_def length_concat)
qed

lemma config_round_trip:
  assumes "config_wf c"
  shows "josh_boot_config_parse (Some (print_config c)) (length (print_config c)) (Some c0)
    = (JOSH_CONFIG_OK, Some c)"
proof -
  define d where "d = zero_config\<lparr>cfg_version := cfg_version c, default_entry := default_entry c,
      timeout_seconds := timeout_seconds c, entry_id := entry_id c, display_name := display_name c,
      kernel_path := kernel_path c, command_line := command_line c, cfg_flags := cfg_flags c\<rparr>"
  have z: "previous_kernel_path d = replicate 96 0" "recovery_kernel_path d = replicate 96 0"
    by (simp_all add: d_def zero_config_def config_sizes)
  have c: "d\<lparr>previous_kernel_path := previous_kernel_path c, recovery_kernel_path := recovery_kernel_path c\<rparr> = c"
    by (simp add: d_def zero_config_def)
  have "parse_loop zero_config 0 (print_config c) = run_lines zero_config 0 (config_lines c)"
    unfolding parse_loop_lines print_config_def
    by (simp only: significant_lines_print [OF config_lines_plain [OF assms]])
  also have "\<dots> = run_lines d 0xFF (optional_line ''previous_kernel'' (cstr (previous_kernel_path c))
      @ optional_line ''recovery_kernel'' (cstr (recovery_kernel_path c)))"
    unfolding config_lines_def d_def by (rule run_required_lines [OF assms])
  finally obtain seen where "parse_loop zero_config 0 (print_config c) = (JOSH_CONFIG_OK, c, seen)"
    "seen AND REQUIRED_FIELDS = REQUIRED_FIELDS"
    using run_optional_lines [OF assms z] unfolding c by auto
  then show ?thesis
    using print_config_length [OF assms] assms
    by (simp add: josh_boot_config_parse_def config_sizes config_wf_def)
qed

text \<open>
  C12. Printing and parsing back is the identity: every well-formed configuration, written out one
  \<open>key=value\<close> line per field, is accepted and read back exactly, arrays included, whatever the
  structure contained before.
\<close>

theorem config_print_parse:
  assumes "config_wf c"
  shows "josh_boot_config_parse (Some (print_config c)) (length (print_config c)) (Some c0)
    = (JOSH_CONFIG_OK, Some c)"
  using assms by (rule config_round_trip)

section \<open>A concrete configuration\<close>

definition sample_config :: josh_boot_config where
  "sample_config =
     \<lparr> cfg_version = 1, timeout_seconds = 5, cfg_flags = 3,
       default_entry = ascii ''joshos'' @ replicate 10 0, entry_id = ascii ''joshos'' @ replicate 10 0,
       display_name = ascii ''Josh OS'' @ replicate 25 0,
       kernel_path = ascii ''/KERNEL.ELF'' @ replicate 85 0,
       previous_kernel_path = replicate 96 0, recovery_kernel_path = ascii ''/RECOVERY.ELF'' @ replicate 83 0,
       command_line = ascii ''quiet'' @ replicate 123 0 \<rparr>"

lemma sample_config_wf: "config_wf sample_config"
proof -
  have h: "holds n P (v @ replicate m 0)" if "n = length v + m" "0 < m" "0 \<notin> set v" "P v" for n P v m
    using holds_value(1) [of v n P] that by simp
  have "entry_id_valid (ascii ''joshos'')" "display_name_valid (ascii ''Josh OS'')"
    "path_valid (ascii ''/KERNEL.ELF'')" "path_valid (ascii ''/RECOVERY.ELF'')"
    "command_line_valid (ascii ''quiet'')"
    by (simp_all add: entry_id_valid_def display_name_valid_def path_valid_def command_line_valid_def
        config_sizes)
  moreover have "0 \<notin> set (ascii ''joshos'')" "0 \<notin> set (ascii ''Josh OS'')" "0 \<notin> set (ascii ''/KERNEL.ELF'')"
    "0 \<notin> set (ascii ''/RECOVERY.ELF'')" "0 \<notin> set (ascii ''quiet'')"
    by simp_all
  ultimately show ?thesis
    by (simp add: config_wf_def sample_config_def h holds_zeros del: ascii_Cons)
qed

theorem config_parse_wf_witness:
  "josh_boot_config_parse (Some (print_config sample_config)) (length (print_config sample_config))
     (Some zero_config) = (JOSH_CONFIG_OK, Some sample_config) \<and> config_wf sample_config"
  using config_parse_wf [OF config_round_trip [OF sample_config_wf]] config_round_trip [OF sample_config_wf]
  by simp

theorem config_parse_keys_witness:
  "distinct (map line_key (significant_lines (print_config sample_config)))"
  using config_parse_keys [OF config_round_trip [OF sample_config_wf, of zero_config]] by simp

theorem config_print_parse_witness:
  "josh_boot_config_parse (Some (print_config sample_config)) (length (print_config sample_config))
     (Some zero_config) = (JOSH_CONFIG_OK, Some sample_config)"
  by (rule config_print_parse [OF sample_config_wf])

end
