(* ===== verification/JB_Elf64.thy ===== *)
theory JB_Elf64
  imports JB_Prelude
begin

text \<open>
  The ELF64 validator of \<open>boot/elf64.h\<close> and \<open>boot/elf64.c\<close>.

  The image is the byte list behind the pointer; the packed structures are read from it at their
  offsets. An output structure is an \<open>option\<close> argument (\<open>None\<close> for \<open>NULL\<close>, otherwise its contents
  before the call) and is returned as the call leaves it.
\<close>

section \<open>Data\<close>

datatype JoshElf64Status =
    JOSH_ELF64_OK
  | JOSH_ELF64_ERR_ARGUMENT
  | JOSH_ELF64_ERR_TRUNCATED
  | JOSH_ELF64_ERR_MAGIC
  | JOSH_ELF64_ERR_CLASS
  | JOSH_ELF64_ERR_ENDIAN
  | JOSH_ELF64_ERR_VERSION
  | JOSH_ELF64_ERR_TYPE
  | JOSH_ELF64_ERR_RELOCATION_MODEL
  | JOSH_ELF64_ERR_MACHINE
  | JOSH_ELF64_ERR_PHDR
  | JOSH_ELF64_ERR_SEGMENT
  | JOSH_ELF64_ERR_OVERLAP
  | JOSH_ELF64_ERR_ENTRY

record JoshElf64LoadSegment =
  seg_file_offset :: u64
  seg_virtual_address :: u64
  seg_file_size :: u64
  seg_memory_size :: u64
  seg_alignment :: u64
  seg_flags :: u32

record JoshElf64Summary =
  sum_entry :: u64
  virtual_min :: u64
  virtual_max :: u64
  load_segment_count :: u16

definition JOSH_ELF64_MAX_PHDRS :: u16 where "JOSH_ELF64_MAX_PHDRS = 128"
definition JOSH_ELF64_PT_LOAD :: u32 where "JOSH_ELF64_PT_LOAD = 1"
definition JOSH_ELF64_PF_X :: u32 where "JOSH_ELF64_PF_X = 1"
definition ELFCLASS64 :: u8 where "ELFCLASS64 = 2"
definition ELFDATA2LSB :: u8 where "ELFDATA2LSB = 1"
definition EV_CURRENT :: nat where "EV_CURRENT = 1"
definition ET_EXEC :: u16 where "ET_EXEC = 2"
definition ET_DYN :: u16 where "ET_DYN = 3"
definition EM_X86_64 :: u16 where "EM_X86_64 = 62"

lemmas elf_constants = JOSH_ELF64_MAX_PHDRS_def JOSH_ELF64_PT_LOAD_def JOSH_ELF64_PF_X_def
  ELFCLASS64_def ELFDATA2LSB_def EV_CURRENT_def ET_EXEC_def ET_DYN_def EM_X86_64_def

record Elf64Header =
  eh_ident :: bytes
  eh_type :: u16
  eh_machine :: u16
  eh_version :: u32
  eh_entry :: u64
  eh_phoff :: u64
  eh_shoff :: u64
  eh_flags :: u32
  eh_ehsize :: u16
  eh_phentsize :: u16
  eh_phnum :: u16
  eh_shentsize :: u16
  eh_shnum :: u16
  eh_shstrndx :: u16

record Elf64ProgramHeader =
  p_type :: u32
  p_flags :: u32
  p_offset :: u64
  p_vaddr :: u64
  p_paddr :: u64
  p_filesz :: u64
  p_memsz :: u64
  p_align :: u64

text \<open>The packed structures have 64 and 56 bytes.\<close>

definition elf64_header_of_bytes :: "bytes \<Rightarrow> Elf64Header" where
  "elf64_header_of_bytes b =
     \<lparr> eh_ident = take 16 b, eh_type = read_le16 (drop 16 b), eh_machine = read_le16 (drop 18 b),
       eh_version = read_le32 (drop 20 b), eh_entry = read_le64 (drop 24 b),
       eh_phoff = read_le64 (drop 32 b), eh_shoff = read_le64 (drop 40 b),
       eh_flags = read_le32 (drop 48 b), eh_ehsize = read_le16 (drop 52 b),
       eh_phentsize = read_le16 (drop 54 b), eh_phnum = read_le16 (drop 56 b),
       eh_shentsize = read_le16 (drop 58 b), eh_shnum = read_le16 (drop 60 b),
       eh_shstrndx = read_le16 (drop 62 b) \<rparr>"

definition elf64_phdr_of_bytes :: "bytes \<Rightarrow> Elf64ProgramHeader" where
  "elf64_phdr_of_bytes b =
     \<lparr> p_type = read_le32 b, p_flags = read_le32 (drop 4 b), p_offset = read_le64 (drop 8 b),
       p_vaddr = read_le64 (drop 16 b), p_paddr = read_le64 (drop 24 b),
       p_filesz = read_le64 (drop 32 b), p_memsz = read_le64 (drop 40 b),
       p_align = read_le64 (drop 48 b) \<rparr>"

section \<open>Checks\<close>

definition add_overflows :: "u64 \<Rightarrow> u64 \<Rightarrow> bool" where
  "add_overflows a b \<longleftrightarrow> NOT a < b"

definition range_inside :: "u64 \<Rightarrow> u64 \<Rightarrow> u64 \<Rightarrow> bool" where
  "range_inside offset len limit \<longleftrightarrow> \<not> add_overflows offset len \<and> offset + len \<le> limit"

definition power_of_two :: "u64 \<Rightarrow> bool" where
  "power_of_two value \<longleftrightarrow> value \<noteq> 0 \<and> value AND (value - 1) = 0"

text \<open>Returns \<open>*status\<close> and the header, \<open>None\<close> for the null pointer.\<close>

definition header_if_basic_valid :: "bytes option \<Rightarrow> u64 \<Rightarrow> JoshElf64Status
    \<Rightarrow> JoshElf64Status \<times> Elf64Header option" where
  "header_if_basic_valid image_ptr image_size status =
     (case image_ptr of
        None \<Rightarrow> (status, None)
      | Some img \<Rightarrow>
          if image_size < 64 then (JOSH_ELF64_ERR_TRUNCATED, None)
          else
            let h = elf64_header_of_bytes img in
            if eh_ident h ! 0 \<noteq> 0x7F \<or> eh_ident h ! 1 \<noteq> 0x45 \<or> eh_ident h ! 2 \<noteq> 0x4C
               \<or> eh_ident h ! 3 \<noteq> 0x46
            then (JOSH_ELF64_ERR_MAGIC, None)
            else if eh_ident h ! 4 \<noteq> ELFCLASS64 then (JOSH_ELF64_ERR_CLASS, None)
            else if eh_ident h ! 5 \<noteq> ELFDATA2LSB then (JOSH_ELF64_ERR_ENDIAN, None)
            else if eh_ident h ! 6 \<noteq> of_nat EV_CURRENT \<or> eh_version h \<noteq> of_nat EV_CURRENT
            then (JOSH_ELF64_ERR_VERSION, None)
            else if eh_type h = ET_DYN then (JOSH_ELF64_ERR_RELOCATION_MODEL, None)
            else if eh_type h \<noteq> ET_EXEC then (JOSH_ELF64_ERR_TYPE, None)
            else if eh_machine h \<noteq> EM_X86_64 then (JOSH_ELF64_ERR_MACHINE, None)
            else if eh_ehsize h \<noteq> 64 \<or> eh_phentsize h \<noteq> 56 \<or> eh_phnum h = 0
                    \<or> eh_phnum h > JOSH_ELF64_MAX_PHDRS
            then (JOSH_ELF64_ERR_PHDR, None)
            else if \<not> range_inside (eh_phoff h) (ucast (eh_phnum h) * ucast (eh_phentsize h)) image_size
            then (JOSH_ELF64_ERR_TRUNCATED, None)
            else (JOSH_ELF64_OK, Some h))"

definition program_header :: "bytes \<Rightarrow> Elf64Header \<Rightarrow> u16 \<Rightarrow> Elf64ProgramHeader" where
  "program_header img h index =
     elf64_phdr_of_bytes (drop (unat (eh_phoff h + ucast index * ucast (eh_phentsize h))) img)"

definition validate_load_segment :: "Elf64ProgramHeader \<Rightarrow> u64 \<Rightarrow> JoshElf64Status" where
  "validate_load_segment p image_size =
     (if p_filesz p > p_memsz p then JOSH_ELF64_ERR_SEGMENT
      else if \<not> range_inside (p_offset p) (p_filesz p) image_size then JOSH_ELF64_ERR_TRUNCATED
      else if p_memsz p \<noteq> 0 \<and> add_overflows (p_vaddr p) (p_memsz p) then JOSH_ELF64_ERR_SEGMENT
      else if p_align p > 1
      then (if \<not> power_of_two (p_align p) then JOSH_ELF64_ERR_SEGMENT
            else if p_vaddr p AND (p_align p - 1) \<noteq> p_offset p AND (p_align p - 1)
            then JOSH_ELF64_ERR_SEGMENT else JOSH_ELF64_OK)
      else JOSH_ELF64_OK)"

section \<open>Validation\<close>

text \<open>The inner loop: does an earlier load segment overlap \<open>p\<close>? \<open>n\<close> earlier headers are left.\<close>

fun overlap_loop :: "bytes \<Rightarrow> Elf64Header \<Rightarrow> Elf64ProgramHeader \<Rightarrow> u64 \<Rightarrow> u16 \<Rightarrow> nat \<Rightarrow> bool" where
  "overlap_loop img h p end0 j 0 = False"
| "overlap_loop img h p end0 j (Suc n) =
     (let q = program_header img h j
      in if p_type q \<noteq> JOSH_ELF64_PT_LOAD \<or> p_memsz q = 0 then overlap_loop img h p end0 (j + 1) n
         else
           let q_end = p_vaddr q + p_memsz q
           in if p_vaddr p < q_end \<and> p_vaddr q < end0 then True
              else overlap_loop img h p end0 (j + 1) n)"

record elf_scan =
  scan_min :: u64
  scan_max :: u64
  scan_count :: u16
  scan_exec :: bool

fun validate_loop :: "bytes \<Rightarrow> u64 \<Rightarrow> Elf64Header \<Rightarrow> u16 \<Rightarrow> nat \<Rightarrow> elf_scan \<Rightarrow> JoshElf64Status + elf_scan" where
  "validate_loop img image_size h i 0 st = Inr st"
| "validate_loop img image_size h i (Suc n) st =
     (let p = program_header img h i
      in if p_type p \<noteq> JOSH_ELF64_PT_LOAD then validate_loop img image_size h (i + 1) n st
         else
           let status = validate_load_segment p image_size
           in if status \<noteq> JOSH_ELF64_OK then Inl status
              else if p_memsz p = 0 then validate_loop img image_size h (i + 1) n st
              else
                let end0 = p_vaddr p + p_memsz p;
                    st1 = st\<lparr> scan_min := (if p_vaddr p < scan_min st then p_vaddr p else scan_min st),
                              scan_max := (if end0 > scan_max st then end0 else scan_max st),
                              scan_count := scan_count st + 1,
                              scan_exec := (if p_flags p AND JOSH_ELF64_PF_X \<noteq> 0
                                               \<and> eh_entry h \<ge> p_vaddr p \<and> eh_entry h < end0
                                            then True else scan_exec st) \<rparr>
                in if overlap_loop img h p end0 0 (unat i) then Inl JOSH_ELF64_ERR_OVERLAP
                   else validate_loop img image_size h (i + 1) n st1)"

definition josh_elf64_validate :: "bytes option \<Rightarrow> u64 \<Rightarrow> JoshElf64Summary option
    \<Rightarrow> JoshElf64Status \<times> JoshElf64Summary option" where
  "josh_elf64_validate image_ptr image_size summary =
     (case summary of
        None \<Rightarrow> (JOSH_ELF64_ERR_ARGUMENT, None)
      | Some s0 \<Rightarrow>
          (case header_if_basic_valid image_ptr image_size JOSH_ELF64_OK of
             (status, None) \<Rightarrow> (status, summary)
           | (status, Some h) \<Rightarrow>
               (case validate_loop (the image_ptr) image_size h 0 (unat (eh_phnum h))
                       \<lparr> scan_min = NOT 0, scan_max = 0, scan_count = 0, scan_exec = False \<rparr> of
                  Inl status' \<Rightarrow> (status', summary)
                | Inr st \<Rightarrow>
                    if scan_count st = 0 then (JOSH_ELF64_ERR_SEGMENT, summary)
                    else if \<not> scan_exec st then (JOSH_ELF64_ERR_ENTRY, summary)
                    else (JOSH_ELF64_OK,
                          Some \<lparr> sum_entry = eh_entry h, virtual_min = scan_min st,
                                 virtual_max = scan_max st, load_segment_count = scan_count st \<rparr>))))"

section \<open>Load segments by index\<close>

definition segment_of_phdr :: "Elf64ProgramHeader \<Rightarrow> JoshElf64LoadSegment" where
  "segment_of_phdr p =
     \<lparr> seg_file_offset = p_offset p, seg_virtual_address = p_vaddr p, seg_file_size = p_filesz p,
       seg_memory_size = p_memsz p, seg_alignment = p_align p, seg_flags = p_flags p \<rparr>"

fun load_segment_loop :: "bytes \<Rightarrow> u64 \<Rightarrow> Elf64Header \<Rightarrow> u16 \<Rightarrow> u16 \<Rightarrow> nat \<Rightarrow> u16
    \<Rightarrow> JoshElf64Status + JoshElf64LoadSegment" where
  "load_segment_loop img image_size h load_index i 0 current = Inl JOSH_ELF64_ERR_SEGMENT"
| "load_segment_loop img image_size h load_index i (Suc n) current =
     (let p = program_header img h i
      in if p_type p \<noteq> JOSH_ELF64_PT_LOAD \<or> p_memsz p = 0
         then load_segment_loop img image_size h load_index (i + 1) n current
         else
           let status = validate_load_segment p image_size
           in if status \<noteq> JOSH_ELF64_OK then Inl status
              else if current \<noteq> load_index
              then load_segment_loop img image_size h load_index (i + 1) n (current + 1)
              else Inr (segment_of_phdr p))"

definition josh_elf64_load_segment :: "bytes option \<Rightarrow> u64 \<Rightarrow> u16 \<Rightarrow> JoshElf64LoadSegment option
    \<Rightarrow> JoshElf64Status \<times> JoshElf64LoadSegment option" where
  "josh_elf64_load_segment image_ptr image_size load_index segment =
     (case segment of
        None \<Rightarrow> (JOSH_ELF64_ERR_ARGUMENT, None)
      | Some s0 \<Rightarrow>
          (case header_if_basic_valid image_ptr image_size JOSH_ELF64_OK of
             (status, None) \<Rightarrow> (status, segment)
           | (status, Some h) \<Rightarrow>
               (case load_segment_loop (the image_ptr) image_size h load_index 0 (unat (eh_phnum h)) 0 of
                  Inl status' \<Rightarrow> (status', segment)
                | Inr seg \<Rightarrow> (JOSH_ELF64_OK, Some seg))))"

definition josh_elf64_status_string :: "JoshElf64Status \<Rightarrow> string" where
  "josh_elf64_status_string status =
     (case status of
        JOSH_ELF64_OK \<Rightarrow> ''ok''
      | JOSH_ELF64_ERR_ARGUMENT \<Rightarrow> ''invalid argument''
      | JOSH_ELF64_ERR_TRUNCATED \<Rightarrow> ''truncated image''
      | JOSH_ELF64_ERR_MAGIC \<Rightarrow> ''bad ELF magic''
      | JOSH_ELF64_ERR_CLASS \<Rightarrow> ''not ELF64''
      | JOSH_ELF64_ERR_ENDIAN \<Rightarrow> ''not little endian''
      | JOSH_ELF64_ERR_VERSION \<Rightarrow> ''unsupported ELF version''
      | JOSH_ELF64_ERR_TYPE \<Rightarrow> ''not executable ELF''
      | JOSH_ELF64_ERR_RELOCATION_MODEL \<Rightarrow> ''unsupported position-independent/relocatable ELF''
      | JOSH_ELF64_ERR_MACHINE \<Rightarrow> ''not x86-64''
      | JOSH_ELF64_ERR_PHDR \<Rightarrow> ''invalid program headers''
      | JOSH_ELF64_ERR_SEGMENT \<Rightarrow> ''invalid load segment''
      | JOSH_ELF64_ERR_OVERLAP \<Rightarrow> ''overlapping load segments''
      | JOSH_ELF64_ERR_ENTRY \<Rightarrow> ''entry outside executable segment'')"

section \<open>The checks as arithmetic\<close>

lemma add_overflows_iff: "add_overflows a b \<longleftrightarrow> 2 ^ 64 \<le> unat a + unat b"
  using unsigned_less [of a, where ?'a = nat] unsigned_less [of b, where ?'a = nat]
  by (simp add: add_overflows_def word_less_nat_alt unat_not) linarith

lemma range_inside_iff: "range_inside offset len limit \<longleftrightarrow> unat offset + unat len \<le> unat limit"
proof (cases "add_overflows offset len")
  case True
  then show ?thesis
    using unsigned_less [of limit, where ?'a = nat] by (simp add: range_inside_def add_overflows_iff)
next
  case False
  then have "unat (offset + len) = unat offset + unat len"
    by (simp add: add_overflows_iff unat_add_lem [THEN iffD1])
  then show ?thesis using False by (simp add: range_inside_def word_le_nat_alt)
qed

text \<open>What an accepted load segment satisfies.\<close>

definition phdr_ok :: "u64 \<Rightarrow> Elf64ProgramHeader \<Rightarrow> bool" where
  "phdr_ok image_size p \<longleftrightarrow>
     unat (p_filesz p) \<le> unat (p_memsz p)
     \<and> unat (p_offset p) + unat (p_filesz p) \<le> unat image_size
     \<and> (p_memsz p \<noteq> 0 \<longrightarrow> unat (p_vaddr p) + unat (p_memsz p) < 2 ^ 64)
     \<and> (1 < unat (p_align p) \<longrightarrow>
          (\<exists>n. unat (p_align p) = 2 ^ n)
          \<and> unat (p_vaddr p) mod unat (p_align p) = unat (p_offset p) mod unat (p_align p))"

lemma power_of_two_iff: "power_of_two w \<longleftrightarrow> (\<exists>n<64. unat w = 2 ^ n)"
proof
  assume "power_of_two w"
  then have "w \<noteq> 0" "w AND (w - 1) = 0" by (simp_all add: power_of_two_def)
  then obtain n where "n < LENGTH(64)" "unat w = 2 ^ n" by (rule and_dec_eq_0_power)
  then show "\<exists>n<64. unat w = 2 ^ n" by auto
next
  assume "\<exists>n<64. unat w = 2 ^ n"
  then obtain n where n: "unat w = 2 ^ n" "n < LENGTH(64)" by auto
  have "w \<noteq> 0" using n(1) by auto
  moreover have "unat (w AND (w - 1)) = unat w mod unat w" using n by (rule unat_and_mask)
  then have "w AND (w - 1) = 0" by (simp add: word_unat_eq_iff)
  ultimately show "power_of_two w" by (simp add: power_of_two_def)
qed

lemma validate_load_segment_iff: "validate_load_segment p size0 = JOSH_ELF64_OK \<longleftrightarrow> phdr_ok size0 p"
proof -
  have align: "power_of_two (p_align p) \<and> p_vaddr p AND (p_align p - 1) = p_offset p AND (p_align p - 1)
      \<longleftrightarrow> (\<exists>n. unat (p_align p) = 2 ^ n)
        \<and> unat (p_vaddr p) mod unat (p_align p) = unat (p_offset p) mod unat (p_align p)"
  proof (cases "\<exists>n<64. unat (p_align p) = 2 ^ n")
    case True
    then obtain n where n: "unat (p_align p) = 2 ^ n" "n < LENGTH(64)" by auto
    show ?thesis
      using True unat_and_mask [OF n, of "p_vaddr p"] unat_and_mask [OF n, of "p_offset p"]
      by (auto simp: power_of_two_iff word_unat_eq_iff)
  next
    case False
    have "n < 64" if "unat (p_align p) = 2 ^ n" for n
    proof -
      have "(2 :: nat) ^ n < 2 ^ 64" using that unsigned_less [of "p_align p", where ?'a = nat] by simp
      then show ?thesis by (rule power_less_imp_less_exp [rotated]) simp
    qed
    with False show ?thesis by (auto simp: power_of_two_iff)
  qed
  show ?thesis
    using align
    by (auto simp: validate_load_segment_def phdr_ok_def range_inside_iff add_overflows_iff
        word_le_nat_alt word_less_nat_alt not_less not_le)
qed

section \<open>The loops\<close>

definition elf_load :: "Elf64ProgramHeader \<Rightarrow> bool" where
  "elf_load p \<longleftrightarrow> p_type p = JOSH_ELF64_PT_LOAD \<and> p_memsz p \<noteq> 0"

definition elf_phdr :: "bytes \<Rightarrow> Elf64Header \<Rightarrow> nat \<Rightarrow> Elf64ProgramHeader" where
  "elf_phdr img h k = program_header img h (of_nat k)"

definition p_range :: "Elf64ProgramHeader \<Rightarrow> nat set" where
  "p_range p = {unat (p_vaddr p) ..< unat (p_vaddr p) + unat (p_memsz p)}"

text \<open>Two accepted segments overlap for the code exactly when their address ranges meet.\<close>

lemma overlap_test_iff:
  assumes "phdr_ok size0 p" "phdr_ok size0 q" "elf_load p" "elf_load q"
  shows "p_vaddr p < p_vaddr q + p_memsz q \<and> p_vaddr q < p_vaddr p + p_memsz p
    \<longleftrightarrow> p_range q \<inter> p_range p \<noteq> {}"
proof -
  have e: "unat (p_vaddr r + p_memsz r) = unat (p_vaddr r) + unat (p_memsz r)" "0 < unat (p_memsz r)"
    if "phdr_ok size0 r" "elf_load r" for r
    using that by (simp_all add: phdr_ok_def elf_load_def unat_add_lem [THEN iffD1] unat_gt_0)
  have "max (unat (p_vaddr p)) (unat (p_vaddr q)) \<in> p_range q \<inter> p_range p"
    if "unat (p_vaddr p) < unat (p_vaddr q) + unat (p_memsz q)"
      "unat (p_vaddr q) < unat (p_vaddr p) + unat (p_memsz p)"
    using that e [OF assms(1,3)] e [OF assms(2,4)] by (auto simp: p_range_def max_def)
  then show ?thesis
    using e [OF assms(1,3)] e [OF assms(2,4)]
    by (auto simp: word_less_nat_alt p_range_def)
qed

lemma overlap_loop_iff:
  "overlap_loop img h p e (of_nat j) n \<longleftrightarrow>
     (\<exists>k\<ge>j. k < j + n \<and> elf_load (elf_phdr img h k)
        \<and> p_vaddr p < p_vaddr (elf_phdr img h k) + p_memsz (elf_phdr img h k)
        \<and> p_vaddr (elf_phdr img h k) < e)"
proof (induction n arbitrary: j)
  case (Suc n)
  let ?P = "\<lambda>k. elf_load (elf_phdr img h k)
        \<and> p_vaddr p < p_vaddr (elf_phdr img h k) + p_memsz (elf_phdr img h k)
        \<and> p_vaddr (elf_phdr img h k) < e"
  have suc: "(of_nat j :: u16) + 1 = of_nat (Suc j)" by simp
  have "overlap_loop img h p e (of_nat j) (Suc n) \<longleftrightarrow>
      ?P j \<or> overlap_loop img h p e (of_nat (Suc j)) n"
    unfolding overlap_loop.simps(2) elf_phdr_def [symmetric] suc
    by (auto simp: Let_def elf_load_def simp del: of_nat_Suc)
  also have "\<dots> \<longleftrightarrow> (\<exists>k\<ge>j. k < j + Suc n \<and> ?P k)"
    unfolding Suc.IH by (auto simp: le_eq_less_or_eq [of j] Suc_le_eq)
  finally show ?case .
qed auto

definition scan_step :: "u64 \<Rightarrow> Elf64ProgramHeader \<Rightarrow> elf_scan \<Rightarrow> elf_scan" where
  "scan_step entry p st =
     (if elf_load p
      then \<lparr> scan_min = min (p_vaddr p) (scan_min st), scan_max = max (p_vaddr p + p_memsz p) (scan_max st),
             scan_count = scan_count st + 1,
             scan_exec = (scan_exec st \<or> p_flags p AND JOSH_ELF64_PF_X \<noteq> 0
               \<and> p_vaddr p \<le> entry \<and> entry < p_vaddr p + p_memsz p) \<rparr>
      else st)"

definition step_ok :: "bytes \<Rightarrow> u64 \<Rightarrow> Elf64Header \<Rightarrow> nat \<Rightarrow> bool" where
  "step_ok img size0 h k \<longleftrightarrow>
     p_type (elf_phdr img h k) = JOSH_ELF64_PT_LOAD \<longrightarrow>
       phdr_ok size0 (elf_phdr img h k)
       \<and> (p_memsz (elf_phdr img h k) \<noteq> 0 \<longrightarrow>
            (\<forall>j<k. elf_load (elf_phdr img h j) \<longrightarrow>
               \<not> (p_vaddr (elf_phdr img h k) < p_vaddr (elf_phdr img h j) + p_memsz (elf_phdr img h j)
                  \<and> p_vaddr (elf_phdr img h j) < p_vaddr (elf_phdr img h k) + p_memsz (elf_phdr img h k))))"

lemma validate_loop_Suc:
  assumes "i < 65536"
  shows "(\<exists>e. validate_loop img size0 h (of_nat i) (Suc n) st = Inl e \<and> \<not> step_ok img size0 h i)
    \<or> (validate_loop img size0 h (of_nat i) (Suc n) st
        = validate_loop img size0 h (of_nat (Suc i)) n (scan_step (eh_entry h) (elf_phdr img h i) st)
      \<and> step_ok img size0 h i)"
proof -
  let ?p = "elf_phdr img h i"
  have i: "unat (of_nat i :: u16) = i" using assms by (simp add: unat_of_nat)
  have ov: "overlap_loop img h ?p e 0 i \<longleftrightarrow> (\<exists>k<i. elf_load (elf_phdr img h k)
        \<and> p_vaddr ?p < p_vaddr (elf_phdr img h k) + p_memsz (elf_phdr img h k)
        \<and> p_vaddr (elf_phdr img h k) < e)" for e
    using overlap_loop_iff [of img h ?p e 0 i] by simp
  have suc: "(of_nat i :: u16) + 1 = of_nat (Suc i)" by simp
  show ?thesis
  proof (cases "elf_load ?p")
    case False
    then show ?thesis
      unfolding validate_loop.simps(2) elf_phdr_def [symmetric] suc
      by (auto simp: Let_def elf_load_def scan_step_def step_ok_def validate_load_segment_iff)
  next
    case True
    have st: "st\<lparr> scan_min := (if p_vaddr ?p < scan_min st then p_vaddr ?p else scan_min st),
                 scan_max := (if p_vaddr ?p + p_memsz ?p > scan_max st then p_vaddr ?p + p_memsz ?p else scan_max st),
                 scan_count := scan_count st + 1,
                 scan_exec := (if p_flags ?p AND JOSH_ELF64_PF_X \<noteq> 0
                    \<and> eh_entry h \<ge> p_vaddr ?p \<and> eh_entry h < p_vaddr ?p + p_memsz ?p
                  then True else scan_exec st) \<rparr> = scan_step (eh_entry h) ?p st"
      using True by (intro elf_scan.equality) (auto simp: scan_step_def min_def max_def)
    show ?thesis
      unfolding validate_loop.simps(2) elf_phdr_def [symmetric] suc i Let_def st
      using True by (auto simp: ov elf_load_def step_ok_def validate_load_segment_iff)
  qed
qed

lemma validate_loop_iff:
  assumes "i + n \<le> 65536"
  shows "validate_loop img size0 h (of_nat i) n st = Inr st' \<longleftrightarrow>
    (\<forall>k. i \<le> k \<and> k < i + n \<longrightarrow> step_ok img size0 h k)
    \<and> st' = fold (\<lambda>k. scan_step (eh_entry h) (elf_phdr img h k)) [i..<i + n] st"
  using assms
proof (induction n arbitrary: i st)
  case (Suc n)
  have upt: "[i..<i + Suc n] = i # [Suc i..<Suc i + n]" by (simp add: upt_rec)
  have all: "(\<forall>k. i \<le> k \<and> k < i + Suc n \<longrightarrow> P k) \<longleftrightarrow> P i \<and> (\<forall>k. Suc i \<le> k \<and> k < Suc i + n \<longrightarrow> P k)" for P
    by (auto simp: le_eq_less_or_eq [of i] Suc_le_eq)
  have "Suc i + n \<le> 65536" "i < 65536" using Suc.prems by simp_all
  note IH = Suc.IH [OF this(1)] and step = validate_loop_Suc [OF this(2), of img size0 h n st]
  have ?case if "validate_loop img size0 h (of_nat i) (Suc n) st = Inl e" "\<not> step_ok img size0 h i" for e
    unfolding upt all fold_simps using that by (simp only: sum.simps simp_thms)
  moreover have ?case if "validate_loop img size0 h (of_nat i) (Suc n) st
      = validate_loop img size0 h (of_nat (Suc i)) n (scan_step (eh_entry h) (elf_phdr img h i) st)"
      "step_ok img size0 h i"
    unfolding upt all fold_simps using that by (simp only: IH simp_thms)
  ultimately show ?case using step by blast
qed auto

section \<open>What validation accepts\<close>

text \<open>The load segments of an image that occupy memory, in the order of the program headers.\<close>

definition elf_segments :: "bytes \<Rightarrow> Elf64Header \<Rightarrow> Elf64ProgramHeader list" where
  "elf_segments img h = filter elf_load (map (elf_phdr img h) [0..<unat (eh_phnum h)])"

text \<open>The specification of an image whose header passed, with the summary it gets.\<close>

definition elf_image_ok :: "bytes \<Rightarrow> u64 \<Rightarrow> Elf64Header \<Rightarrow> JoshElf64Summary \<Rightarrow> bool" where
  "elf_image_ok img size0 h s \<longleftrightarrow>
     (\<forall>k<unat (eh_phnum h). p_type (elf_phdr img h k) = JOSH_ELF64_PT_LOAD \<longrightarrow>
        phdr_ok size0 (elf_phdr img h k))
     \<and> sorted_wrt (\<lambda>p q. p_range p \<inter> p_range q = {}) (elf_segments img h)
     \<and> elf_segments img h \<noteq> []
     \<and> (\<exists>p \<in> set (elf_segments img h). p_flags p AND JOSH_ELF64_PF_X \<noteq> 0 \<and> unat (eh_entry h) \<in> p_range p)
     \<and> s = \<lparr> sum_entry = eh_entry h,
             virtual_min = Min (p_vaddr ` set (elf_segments img h)),
             virtual_max = Max ((\<lambda>p. p_vaddr p + p_memsz p) ` set (elf_segments img h)),
             load_segment_count = of_nat (length (elf_segments img h)) \<rparr>"

lemma scan_fold:
  "fold (\<lambda>k. scan_step entry (f k)) ks st =
     (let ps = filter elf_load (map f ks) in
      \<lparr> scan_min = fold min (map p_vaddr ps) (scan_min st),
        scan_max = fold max (map (\<lambda>p. p_vaddr p + p_memsz p) ps) (scan_max st),
        scan_count = scan_count st + of_nat (length ps),
        scan_exec = (scan_exec st \<or> (\<exists>p \<in> set ps. p_flags p AND JOSH_ELF64_PF_X \<noteq> 0
           \<and> p_vaddr p \<le> entry \<and> entry < p_vaddr p + p_memsz p)) \<rparr>)"
  by (induction ks arbitrary: st) (auto simp: scan_step_def Let_def)

lemma fold_min_top:
  fixes xs :: "u64 list"
  assumes "xs \<noteq> []"
  shows "fold min xs (NOT 0) = Min (set xs)" "fold max xs 0 = Max (set xs)"
proof -
  have "fold min xs (NOT 0) = Min (insert (NOT 0) (set xs))"
    using Min.set_eq_fold [of "NOT 0" xs] by simp
  also have "\<dots> = min (NOT 0) (Min (set xs))" using assms by simp
  also have "\<dots> = Min (set xs)" by (rule min_absorb2) simp
  finally show "fold min xs (NOT 0) = Min (set xs)" .
  have "fold max xs 0 = Max (insert 0 (set xs))" using Max.set_eq_fold [of 0 xs] by simp
  also have "\<dots> = max 0 (Max (set xs))" using assms by simp
  also have "\<dots> = Max (set xs)" by (simp add: max_def)
  finally show "fold max xs 0 = Max (set xs)" .
qed

lemma phdr_ok_end:
  "phdr_ok size0 p \<Longrightarrow> elf_load p \<Longrightarrow>
     unat (p_vaddr p + p_memsz p) = unat (p_vaddr p) + unat (p_memsz p)"
  by (simp add: phdr_ok_def elf_load_def unat_add_lem [THEN iffD1])

lemma steps_ok_iff:
  "(\<forall>k<n. step_ok img size0 h k) \<longleftrightarrow>
     (\<forall>k<n. p_type (elf_phdr img h k) = JOSH_ELF64_PT_LOAD \<longrightarrow> phdr_ok size0 (elf_phdr img h k))
     \<and> sorted_wrt (\<lambda>p q. p_range p \<inter> p_range q = {}) (filter elf_load (map (elf_phdr img h) [0..<n]))"
  (is "?L \<longleftrightarrow> ?A \<and> ?B")
proof (cases ?A)
  case True
  have ok: "phdr_ok size0 (elf_phdr img h k)" if "k < n" "elf_load (elf_phdr img h k)" for k
    using True that by (simp add: elf_load_def)
  have test: "(p_vaddr (elf_phdr img h k) < p_vaddr (elf_phdr img h j) + p_memsz (elf_phdr img h j)
        \<and> p_vaddr (elf_phdr img h j) < p_vaddr (elf_phdr img h k) + p_memsz (elf_phdr img h k))
      \<longleftrightarrow> p_range (elf_phdr img h j) \<inter> p_range (elf_phdr img h k) \<noteq> {}"
    if "k < n" "j < k" "elf_load (elf_phdr img h k)" "elf_load (elf_phdr img h j)" for j k
    using overlap_test_iff [OF ok ok] that by simp
  have "?B \<longleftrightarrow> (\<forall>j k. j < k \<longrightarrow> k < n \<longrightarrow> elf_load (elf_phdr img h j) \<and> elf_load (elf_phdr img h k) \<longrightarrow>
      p_range (elf_phdr img h j) \<inter> p_range (elf_phdr img h k) = {})"
    unfolding sorted_wrt_filter by (simp add: sorted_wrt_iff_nth_less)
  also have "\<dots> \<longleftrightarrow> ?L"
    using True test unfolding step_ok_def elf_load_def by blast
  finally show ?thesis using True by blast
next
  case False
  then show ?thesis by (auto simp: step_ok_def)
qed

lemma header_status: "header_if_basic_valid (Some img) size0 st = (status, Some h) \<Longrightarrow>
    status = JOSH_ELF64_OK \<and> h = elf64_header_of_bytes img \<and> 64 \<le> size0 \<and> eh_phentsize h = 56
    \<and> eh_phnum h \<noteq> 0 \<and> unat (eh_phnum h) \<le> 128
    \<and> unat (eh_phoff h) + unat (eh_phnum h) * 56 \<le> unat size0"
proof -
  have mul: "unat ((ucast n :: u64) * 56) = unat n * 56" if "unat n \<le> 128" for n :: u16
    using that by (simp add: unat_mult_lem [THEN iffD1])
  assume "header_if_basic_valid (Some img) size0 st = (status, Some h)"
  then show ?thesis
    using mul [of "eh_phnum h"]
    by (auto simp: header_if_basic_valid_def Let_def range_inside_iff not_less word_le_nat_alt
        JOSH_ELF64_MAX_PHDRS_def split: if_split_asm)
qed

lemma header_none: "header_if_basic_valid (Some img) size0 st = (JOSH_ELF64_OK, h0) \<Longrightarrow> h0 \<noteq> None"
  by (auto simp: header_if_basic_valid_def Let_def split: if_split_asm)

lemma validate_iff:
  assumes "header_if_basic_valid (Some img) size0 JOSH_ELF64_OK = (JOSH_ELF64_OK, Some h)"
  shows "josh_elf64_validate (Some img) size0 (Some s0) = (JOSH_ELF64_OK, Some s)
    \<longleftrightarrow> elf_image_ok img size0 h s"
proof -
  let ?n = "unat (eh_phnum h)" and ?st0 = "\<lparr> scan_min = NOT 0, scan_max = 0, scan_count = 0, scan_exec = False \<rparr>"
  let ?segs = "elf_segments img h"
  have small: "?n \<le> 128" using header_status [OF assms] by blast
  have cnt: "(of_nat (length ?segs) :: u16) = 0 \<longleftrightarrow> ?segs = []"
  proof -
    have "length ?segs \<le> ?n" unfolding elf_segments_def by (rule le_trans [OF length_filter_le]) simp
    then have "length ?segs \<le> 128" using small by linarith
    then have "unat (of_nat (length ?segs) :: u16) = length ?segs" by (simp add: unat_of_nat)
    then show ?thesis by (auto simp: word_unat_eq_iff)
  qed
  have res: "fold (\<lambda>k. scan_step (eh_entry h) (elf_phdr img h k)) [0..<?n] ?st0 =
      \<lparr> scan_min = fold min (map p_vaddr ?segs) (NOT 0),
        scan_max = fold max (map (\<lambda>p. p_vaddr p + p_memsz p) ?segs) 0,
        scan_count = of_nat (length ?segs),
        scan_exec = (\<exists>p \<in> set ?segs. p_flags p AND JOSH_ELF64_PF_X \<noteq> 0
           \<and> p_vaddr p \<le> eh_entry h \<and> eh_entry h < p_vaddr p + p_memsz p) \<rparr>"
    unfolding scan_fold by (simp add: Let_def elf_segments_def)
  have ex: "(\<exists>p \<in> set ?segs. p_flags p AND JOSH_ELF64_PF_X \<noteq> 0
        \<and> p_vaddr p \<le> eh_entry h \<and> eh_entry h < p_vaddr p + p_memsz p)
      \<longleftrightarrow> (\<exists>p \<in> set ?segs. p_flags p AND JOSH_ELF64_PF_X \<noteq> 0 \<and> unat (eh_entry h) \<in> p_range p)"
    if "\<forall>k<?n. step_ok img size0 h k"
  proof (rule bex_cong [OF refl])
    fix p assume "p \<in> set ?segs"
    then have "elf_load p" "phdr_ok size0 p"
      using that unfolding steps_ok_iff by (auto simp: elf_segments_def elf_load_def)
    then show "(p_flags p AND JOSH_ELF64_PF_X \<noteq> 0 \<and> p_vaddr p \<le> eh_entry h \<and> eh_entry h < p_vaddr p + p_memsz p)
        \<longleftrightarrow> (p_flags p AND JOSH_ELF64_PF_X \<noteq> 0 \<and> unat (eh_entry h) \<in> p_range p)"
      by (simp add: p_range_def word_le_nat_alt word_less_nat_alt phdr_ok_end)
  qed
  have loop: "validate_loop img size0 h 0 ?n ?st0 = Inr st' \<longleftrightarrow>
      (\<forall>k<?n. step_ok img size0 h k) \<and> st' = fold (\<lambda>k. scan_step (eh_entry h) (elf_phdr img h k)) [0..<?n] ?st0" for st'
    using validate_loop_iff [of 0 ?n img size0 h ?st0 st'] small by simp
  show ?thesis
  proof (cases "\<forall>k<?n. step_ok img size0 h k")
    case True
    then have v: "validate_loop img size0 h 0 ?n ?st0 =
        Inr (fold (\<lambda>k. scan_step (eh_entry h) (elf_phdr img h k)) [0..<?n] ?st0)" using loop by simp
    have A: "(\<forall>k<?n. p_type (elf_phdr img h k) = JOSH_ELF64_PT_LOAD \<longrightarrow> phdr_ok size0 (elf_phdr img h k))
        \<and> sorted_wrt (\<lambda>p q. p_range p \<inter> p_range q = {}) ?segs"
      using True unfolding steps_ok_iff elf_segments_def .
    show ?thesis
      unfolding josh_elf64_validate_def elf_image_ok_def
      using assms v res cnt ex [OF True] A fold_min_top
      by (auto simp: image_image)
  next
    case False
    then obtain e where "validate_loop img size0 h 0 ?n ?st0 = Inl e"
      using loop by (cases "validate_loop img size0 h 0 ?n ?st0") auto
    moreover have "\<not> elf_image_ok img size0 h s"
      using False unfolding steps_ok_iff elf_image_ok_def elf_segments_def by blast
    moreover have "e \<noteq> JOSH_ELF64_OK" if "validate_loop img size0 h i n st = Inl e" for i n st e
      using that
      by (induction img size0 h i n st rule: validate_loop.induct) (auto simp: Let_def split: if_split_asm)
    ultimately show ?thesis using assms by (auto simp: josh_elf64_validate_def)
  qed
qed

subsection \<open>The ELF-64 format\<close>

text \<open>
  What a loadable image is, read off the ELF-64 object file format and not off the code: offsets and
  values are those of the format, and all arithmetic is on natural numbers. The identification is the
  magic number, the 64-bit class, little-endian data and version 1; the file is an executable (type
  2) for x86-64 (machine 62), and its table of at most 128 program headers of 56 bytes lies in the
  image.
\<close>

definition elf64_header :: "bytes \<Rightarrow> nat \<Rightarrow> bool" where
  "elf64_header img n \<longleftrightarrow>
     64 \<le> n
     \<and> img ! 0 = 0x7F \<and> img ! 1 = 0x45 \<and> img ! 2 = 0x4C \<and> img ! 3 = 0x46
     \<and> img ! 4 = 2 \<and> img ! 5 = 1 \<and> img ! 6 = 1
     \<and> unat (read_le16 (drop 16 img)) = 2 \<and> unat (read_le16 (drop 18 img)) = 62
     \<and> unat (read_le32 (drop 20 img)) = 1
     \<and> unat (read_le16 (drop 52 img)) = 64 \<and> unat (read_le16 (drop 54 img)) = 56
     \<and> 1 \<le> unat (read_le16 (drop 56 img)) \<and> unat (read_le16 (drop 56 img)) \<le> 128
     \<and> unat (read_le64 (drop 32 img)) + 56 * unat (read_le16 (drop 56 img)) \<le> n"

record elf64_segment =
  ph_type :: nat
  ph_flags :: nat
  ph_offset :: nat
  ph_vaddr :: nat
  ph_filesz :: nat
  ph_memsz :: nat
  ph_align :: nat

definition elf64_segment_at :: "bytes \<Rightarrow> nat \<Rightarrow> elf64_segment" where
  "elf64_segment_at img k =
     (let b = drop (unat (read_le64 (drop 32 img)) + 56 * k) img in
      \<lparr> ph_type = unat (read_le32 b), ph_flags = unat (read_le32 (drop 4 b)),
        ph_offset = unat (read_le64 (drop 8 b)), ph_vaddr = unat (read_le64 (drop 16 b)),
        ph_filesz = unat (read_le64 (drop 32 b)), ph_memsz = unat (read_le64 (drop 40 b)),
        ph_align = unat (read_le64 (drop 48 b)) \<rparr>)"

definition elf64_table :: "bytes \<Rightarrow> elf64_segment list" where
  "elf64_table img = map (elf64_segment_at img) [0..<unat (read_le16 (drop 56 img))]"

text \<open>The loadable segments that occupy memory.\<close>

definition elf64_loads :: "bytes \<Rightarrow> elf64_segment list" where
  "elf64_loads img = filter (\<lambda>p. ph_type p = 1 \<and> ph_memsz p \<noteq> 0) (elf64_table img)"

definition ph_wellformed :: "nat \<Rightarrow> elf64_segment \<Rightarrow> bool" where
  "ph_wellformed n p \<longleftrightarrow>
     ph_filesz p \<le> ph_memsz p \<and> ph_offset p + ph_filesz p \<le> n
     \<and> (ph_memsz p \<noteq> 0 \<longrightarrow> ph_vaddr p + ph_memsz p < 2 ^ 64)
     \<and> (1 < ph_align p \<longrightarrow> (\<exists>e. ph_align p = 2 ^ e) \<and> ph_vaddr p mod ph_align p = ph_offset p mod ph_align p)"

definition ph_addresses :: "elf64_segment \<Rightarrow> nat set" where
  "ph_addresses p = {ph_vaddr p ..< ph_vaddr p + ph_memsz p}"

definition elf64_loadable :: "bytes \<Rightarrow> nat \<Rightarrow> bool" where
  "elf64_loadable img n \<longleftrightarrow>
     elf64_header img n
     \<and> (\<forall>p \<in> set (elf64_table img). ph_type p = 1 \<longrightarrow> ph_wellformed n p)
     \<and> sorted_wrt (\<lambda>p q. ph_addresses p \<inter> ph_addresses q = {}) (elf64_loads img)
     \<and> (\<exists>p \<in> set (elf64_loads img). odd (ph_flags p) \<and> unat (read_le64 (drop 24 img)) \<in> ph_addresses p)"

text \<open>The summary of such an image: entry point, extent in memory, number of segments.\<close>

definition elf64_summary :: "bytes \<Rightarrow> JoshElf64Summary \<Rightarrow> bool" where
  "elf64_summary img s \<longleftrightarrow>
     sum_entry s = read_le64 (drop 24 img)
     \<and> unat (virtual_min s) = Min (ph_vaddr ` set (elf64_loads img))
     \<and> unat (virtual_max s) = Max ((\<lambda>p. ph_vaddr p + ph_memsz p) ` set (elf64_loads img))
     \<and> unat (load_segment_count s) = length (elf64_loads img)"

subsection \<open>The code accepts that format\<close>

lemma unat_numeral_eq_iff:
  fixes w :: "'a :: len word"
  assumes "(numeral k :: nat) < 2 ^ LENGTH('a)"
  shows "unat w = numeral k \<longleftrightarrow> w = numeral k"
  using assms by (auto simp: word_unat_eq_iff unsigned_numeral take_bit_nat_eq_self)

lemma header_iff:
  "header_if_basic_valid (Some img) size0 st = (JOSH_ELF64_OK, Some h) \<longleftrightarrow>
     elf64_header img (unat size0) \<and> h = elf64_header_of_bytes img"
proof -
  have mul: "unat (56 * ucast n :: u64) = 56 * unat n" if "unat n \<le> 128" for n :: u16
    using that by (simp add: unat_mult_lem [THEN iffD1])
  have one: "unat w = Suc 0 \<longleftrightarrow> w = 1" for w :: u32 by (auto simp: word_unat_eq_iff)
  have pos: "Suc 0 \<le> unat n \<longleftrightarrow> n \<noteq> 0" for n :: u16 by (auto simp: Suc_le_eq unat_gt_0)
  show ?thesis
    unfolding header_if_basic_valid_def elf64_header_def elf64_header_of_bytes_def Let_def
    by (auto simp: elf_constants range_inside_iff word_le_nat_alt word_less_nat_alt mul mult.commute pos one
        unat_numeral_eq_iff)
qed

definition ph_of :: "Elf64ProgramHeader \<Rightarrow> elf64_segment" where
  "ph_of p = \<lparr> ph_type = unat (p_type p), ph_flags = unat (p_flags p), ph_offset = unat (p_offset p),
     ph_vaddr = unat (p_vaddr p), ph_filesz = unat (p_filesz p), ph_memsz = unat (p_memsz p),
     ph_align = unat (p_align p) \<rparr>"

lemma odd_unat_iff: "odd (unat w) \<longleftrightarrow> w AND 1 \<noteq> 0"
  by (simp add: and_one_eq mod_2_eq_odd flip: bit_0) (simp add: bit_unsigned_iff)

lemma ph_of_simps [simp]:
  "ph_vaddr (ph_of p) = unat (p_vaddr p)" "ph_memsz (ph_of p) = unat (p_memsz p)"
  "ph_offset (ph_of p) = unat (p_offset p)" "ph_filesz (ph_of p) = unat (p_filesz p)"
  "ph_addresses (ph_of p) = p_range p" "ph_wellformed (unat n) (ph_of p) \<longleftrightarrow> phdr_ok n p"
  "odd (ph_flags (ph_of p)) \<longleftrightarrow> p_flags p AND JOSH_ELF64_PF_X \<noteq> 0"
  "ph_type (ph_of p) = Suc 0 \<longleftrightarrow> p_type p = JOSH_ELF64_PT_LOAD"
proof -
  show "odd (ph_flags (ph_of p)) \<longleftrightarrow> p_flags p AND JOSH_ELF64_PF_X \<noteq> 0"
    by (simp add: ph_of_def elf_constants odd_unat_iff)
  show "ph_type (ph_of p) = Suc 0 \<longleftrightarrow> p_type p = JOSH_ELF64_PT_LOAD"
    by (auto simp: ph_of_def elf_constants word_unat_eq_iff)
  show "ph_wellformed (unat n) (ph_of p) \<longleftrightarrow> phdr_ok n p"
    by (auto simp: ph_of_def ph_wellformed_def phdr_ok_def unat_gt_0)
qed (simp_all add: ph_of_def ph_addresses_def p_range_def)

text \<open>The program headers the code reads are those of the table.\<close>

lemma segment_at_phdr:
  assumes "elf64_header img n" "n < 2 ^ 64" "k < unat (read_le16 (drop 56 img))"
  shows "elf64_segment_at img k = ph_of (elf_phdr img (elf64_header_of_bytes img) k)"
proof -
  let ?off = "read_le64 (drop 32 img)"
  have n: "unat (read_le16 (drop 56 img)) \<le> 128" "unat ?off + 56 * unat (read_le16 (drop 56 img)) \<le> n"
    and e: "read_le16 (drop 54 img) = 56"
    using assms(1) by (auto simp: elf64_header_def unat_numeral_eq_iff)
  have "unat ?off + 56 * k < 2 ^ 64" using n assms(2,3) by linarith
  moreover have "?off + ucast (of_nat k :: u16) * 56 = of_nat (unat ?off + 56 * k)"
  proof -
    have "ucast (of_nat k :: u16) = (of_nat k :: u64)"
      using n(1) assms(3) by (simp add: word_unat_eq_iff unat_ucast_up unat_of_nat take_bit_nat_eq_self)
    then show ?thesis by (simp add: mult.commute)
  qed
  ultimately have a: "unat (?off + ucast (of_nat k :: u16) * 56) = unat ?off + 56 * k"
    by (simp only: unat_of_nat) (simp add: take_bit_nat_eq_self)
  show ?thesis
    by (simp add: elf64_segment_at_def elf_phdr_def program_header_def elf64_header_of_bytes_def
        elf64_phdr_of_bytes_def ph_of_def Let_def e a)
qed

lemma table_phdrs:
  assumes "elf64_header img n" "n < 2 ^ 64" "h = elf64_header_of_bytes img"
  shows "elf64_table img = map (\<lambda>k. ph_of (elf_phdr img h k)) [0..<unat (eh_phnum h)]"
    "elf64_loads img = map ph_of (elf_segments img h)"
proof -
  have num: "eh_phnum h = read_le16 (drop 56 img)" by (simp add: assms(3) elf64_header_of_bytes_def)
  show t: "elf64_table img = map (\<lambda>k. ph_of (elf_phdr img h k)) [0..<unat (eh_phnum h)]"
    by (simp add: elf64_table_def num segment_at_phdr [OF assms(1,2)] flip: assms(3))
  have "(\<lambda>p. ph_type p = 1 \<and> ph_memsz p \<noteq> 0) \<circ> ph_of = elf_load"
    by (auto simp: elf_load_def fun_eq_iff unat_gt_0)
  then show "elf64_loads img = map ph_of (elf_segments img h)"
    unfolding elf64_loads_def t elf_segments_def
    using filter_map [of "\<lambda>p. ph_type p = 1 \<and> ph_memsz p \<noteq> 0" ph_of "map (elf_phdr img h) [0..<unat (eh_phnum h)]"]
    by (simp add: comp_def)
qed

lemma unat_Min_Max:
  fixes A :: "'a :: len word set"
  assumes "finite A" "A \<noteq> {}"
  shows "unat (Min A) = Min (unat ` A)" "unat (Max A) = Max (unat ` A)"
  using mono_Min_commute [of unat A] mono_Max_commute [of unat A] assms
  by (simp_all add: mono_def word_le_nat_alt)

lemma summary_iff:
  assumes segs: "elf64_loads img = map ph_of segs" "segs \<noteq> []" "length segs \<le> 128"
    and ok: "\<And>p. p \<in> set segs \<Longrightarrow> elf_load p \<and> phdr_ok size0 p"
  shows "elf64_summary img s \<longleftrightarrow>
    s = \<lparr> sum_entry = read_le64 (drop 24 img), virtual_min = Min (p_vaddr ` set segs),
          virtual_max = Max ((\<lambda>p. p_vaddr p + p_memsz p) ` set segs),
          load_segment_count = of_nat (length segs) \<rparr>"
proof -
  have "unat (Min (p_vaddr ` set segs)) = Min (ph_vaddr ` set (elf64_loads img))"
    using segs(2) by (simp add: unat_Min_Max segs(1) image_image)
  moreover have "unat (Max ((\<lambda>p. p_vaddr p + p_memsz p) ` set segs))
      = Max ((\<lambda>p. ph_vaddr p + ph_memsz p) ` set (elf64_loads img))"
  proof -
    have "(\<lambda>p. unat (p_vaddr p + p_memsz p)) ` set segs = (\<lambda>p. unat (p_vaddr p) + unat (p_memsz p)) ` set segs"
      by (rule image_cong [OF refl]) (use ok phdr_ok_end in blast)
    then show ?thesis using segs(2) by (simp add: unat_Min_Max segs(1) image_image)
  qed
  moreover have "unat (of_nat (length segs) :: u16) = length (elf64_loads img)"
    using segs by (simp add: unat_of_nat take_bit_nat_eq_self)
  ultimately show ?thesis
    unfolding elf64_summary_def
    by (auto simp: word_unat_eq_iff [where 'a = 64] word_unat_eq_iff [where 'a = 16] intro!: JoshElf64Summary.equality)
qed

lemma image_ok_iff:
  assumes hd: "elf64_header img (unat size0)" and h: "h = elf64_header_of_bytes img"
  shows "elf_image_ok img size0 h s \<longleftrightarrow> elf64_loadable img (unat size0) \<and> elf64_summary img s"
proof -
  have lt: "unat size0 < 2 ^ 64" using unsigned_less [of size0, where ?'a = nat] by simp
  note tab = table_phdrs [OF hd lt h]
  have entry: "eh_entry h = read_le64 (drop 24 img)" by (simp add: h elf64_header_of_bytes_def)
  have "unat (eh_phnum h) \<le> 128" using hd by (simp add: h elf64_header_of_bytes_def elf64_header_def)
  then have small: "length (elf_segments img h) \<le> 128"
    using length_filter_le [of elf_load "map (elf_phdr img h) [0..<unat (eh_phnum h)]"] by (simp add: elf_segments_def)
  have all: "(\<forall>p \<in> set (elf64_table img). ph_type p = 1 \<longrightarrow> ph_wellformed (unat size0) p)
      \<longleftrightarrow> (\<forall>k<unat (eh_phnum h). p_type (elf_phdr img h k) = JOSH_ELF64_PT_LOAD \<longrightarrow> phdr_ok size0 (elf_phdr img h k))"
    by (auto simp: tab(1))
  have "elf64_loadable img (unat size0) \<longleftrightarrow>
      (\<forall>k<unat (eh_phnum h). p_type (elf_phdr img h k) = JOSH_ELF64_PT_LOAD \<longrightarrow> phdr_ok size0 (elf_phdr img h k))
      \<and> sorted_wrt (\<lambda>p q. p_range p \<inter> p_range q = {}) (elf_segments img h)
      \<and> (\<exists>p \<in> set (elf_segments img h). p_flags p AND JOSH_ELF64_PF_X \<noteq> 0 \<and> unat (eh_entry h) \<in> p_range p)"
    unfolding elf64_loadable_def all using hd by (simp add: tab(2) sorted_wrt_map entry)
  moreover have "elf64_summary img s \<longleftrightarrow>
      s = \<lparr> sum_entry = eh_entry h, virtual_min = Min (p_vaddr ` set (elf_segments img h)),
          virtual_max = Max ((\<lambda>p. p_vaddr p + p_memsz p) ` set (elf_segments img h)),
          load_segment_count = of_nat (length (elf_segments img h)) \<rparr>"
    if "\<forall>k<unat (eh_phnum h). p_type (elf_phdr img h k) = JOSH_ELF64_PT_LOAD \<longrightarrow> phdr_ok size0 (elf_phdr img h k)"
      "elf_segments img h \<noteq> []"
    unfolding entry using that
    by (intro summary_iff [OF tab(2) _ small]) (auto simp: elf_segments_def elf_load_def)
  ultimately show ?thesis unfolding elf_image_ok_def by fastforce
qed

text \<open>
  C7. Validation accepts exactly the loadable images. It succeeds if and only if the header is that
  of an ELF-64 executable for x86-64 with its table of at most 128 program headers in the image,
  every loadable segment has its file part inside the image, fits its memory part, does not run past
  the address space and is aligned consistently, the segments that occupy memory are pairwise
  disjoint, and the entry point lies in an executable one; the summary then holds the entry, the
  lowest and highest address and the number of segments.
\<close>

theorem elf64_validate_spec:
  "josh_elf64_validate (Some img) size0 (Some s0) = (JOSH_ELF64_OK, Some s) \<longleftrightarrow>
     elf64_loadable img (unat size0) \<and> elf64_summary img s"
proof (cases "elf64_header img (unat size0)")
  case True
  then have "header_if_basic_valid (Some img) size0 JOSH_ELF64_OK = (JOSH_ELF64_OK, Some (elf64_header_of_bytes img))"
    by (simp add: header_iff)
  from validate_iff [OF this] show ?thesis by (simp add: image_ok_iff [OF True refl])
next
  case False
  obtain status h0 where hv: "header_if_basic_valid (Some img) size0 JOSH_ELF64_OK = (status, h0)"
    by (cases "header_if_basic_valid (Some img) size0 JOSH_ELF64_OK")
  have "h0 = None"
    using False hv header_iff [of img size0 JOSH_ELF64_OK] header_status [of img size0 JOSH_ELF64_OK status]
    by (cases h0) auto
  moreover have "status \<noteq> JOSH_ELF64_OK"
    using hv header_none [of img size0 JOSH_ELF64_OK h0] \<open>h0 = None\<close> by auto
  ultimately show ?thesis using False hv by (simp add: josh_elf64_validate_def elf64_loadable_def)
qed

section \<open>Segments by index\<close>

lemma load_segment_loop_eq:
  assumes "\<forall>k. i \<le> k \<and> k < i + n \<longrightarrow> elf_load (elf_phdr img h k) \<longrightarrow> phdr_ok size0 (elf_phdr img h k)"
    and "unat cur + n < 65536" "unat cur \<le> unat idx"
  shows "load_segment_loop img size0 h idx (of_nat i) n cur =
    (let segs = filter elf_load (map (elf_phdr img h) [i..<i + n]) in
     if unat idx - unat cur < length segs
     then Inr (segment_of_phdr (segs ! (unat idx - unat cur))) else Inl JOSH_ELF64_ERR_SEGMENT)"
  using assms
proof (induction n arbitrary: i cur)
  case (Suc n)
  let ?p = "elf_phdr img h i"
  have suc: "(of_nat i :: u16) + 1 = of_nat (Suc i)" by simp
  define segs where "segs = filter elf_load (map (elf_phdr img h) [Suc i..<Suc i + n])"
  have upt: "[i..<i + Suc n] = i # [Suc i..<Suc i + n]" by (simp add: upt_rec)
  have split: "filter elf_load (map (elf_phdr img h) [i..<i + Suc n]) = (if elf_load ?p then ?p # segs else segs)"
    by (simp only: upt list.map filter.simps segs_def)
  have prem: "\<forall>k. Suc i \<le> k \<and> k < Suc i + n \<longrightarrow> elf_load (elf_phdr img h k) \<longrightarrow> phdr_ok size0 (elf_phdr img h k)"
    using Suc.prems(1) by simp
  note IH = Suc.IH [OF prem, folded segs_def, unfolded Let_def]
  show ?case
  proof (cases "elf_load ?p")
    case False
    then have "load_segment_loop img size0 h idx (of_nat i) (Suc n) cur =
        load_segment_loop img size0 h idx (of_nat (Suc i)) n cur"
      unfolding load_segment_loop.simps(2) elf_phdr_def [symmetric] suc by (auto simp: elf_load_def Let_def)
    then show ?thesis
      unfolding split using IH [of cur] Suc.prems(2,3) False
      by (simp add: Let_def del: load_segment_loop.simps of_nat_Suc)
  next
    case True
    then have ok: "validate_load_segment ?p size0 = JOSH_ELF64_OK"
      using Suc.prems(1) by (simp add: validate_load_segment_iff)
    have step: "load_segment_loop img size0 h idx (of_nat i) (Suc n) cur =
        (if cur \<noteq> idx then load_segment_loop img size0 h idx (of_nat (Suc i)) n (cur + 1)
         else Inr (segment_of_phdr ?p))"
      unfolding load_segment_loop.simps(2) elf_phdr_def [symmetric] suc
      using True ok by (auto simp: elf_load_def Let_def)
    show ?thesis
    proof (cases "cur = idx")
      case True
      then show ?thesis using step \<open>elf_load ?p\<close> by (simp only: split Let_def) simp
    next
      case False
      then have lt: "unat cur < unat idx" using Suc.prems(3) by (simp add: le_neq_implies_less word_unat_eq_iff)
      have c1: "unat (cur + 1) = unat cur + 1" using Suc.prems(2) by (simp add: unat_add_lem [THEN iffD1])
      obtain m where m: "unat idx - unat cur = Suc m" "unat idx - unat (cur + 1) = m"
        using lt c1 by (cases "unat idx - unat cur") auto
      have "unat (cur + 1) + n < 65536" "unat (cur + 1) \<le> unat idx" using c1 lt Suc.prems(2) by auto
      from IH [OF this] show ?thesis
        unfolding step split using False \<open>elf_load ?p\<close> m by (simp add: Let_def del: of_nat_Suc)
    qed
  qed
qed simp

text \<open>A successful validation is one of an accepted header and image.\<close>

lemma validate_obtain:
  assumes "josh_elf64_validate (Some img) size0 (Some s0) = (JOSH_ELF64_OK, Some s)"
  obtains h where "header_if_basic_valid (Some img) size0 JOSH_ELF64_OK = (JOSH_ELF64_OK, Some h)"
    "elf_image_ok img size0 h s" "h = elf64_header_of_bytes img" "unat (eh_phnum h) \<le> 128"
    "unat (load_segment_count s) = length (elf_segments img h)"
proof -
  from assms obtain h where hv: "header_if_basic_valid (Some img) size0 JOSH_ELF64_OK = (JOSH_ELF64_OK, Some h)"
    by (cases "header_if_basic_valid (Some img) size0 JOSH_ELF64_OK"; cases "snd (header_if_basic_valid (Some img) size0 JOSH_ELF64_OK)")
      (auto simp: josh_elf64_validate_def dest: header_none header_status)
  have ok: "elf_image_ok img size0 h s" using validate_iff [OF hv] assms by blast
  have h: "h = elf64_header_of_bytes img" and n: "unat (eh_phnum h) \<le> 128"
    using header_status [OF hv] by blast+
  have "length (elf_segments img h) \<le> unat (eh_phnum h)"
    unfolding elf_segments_def by (rule le_trans [OF length_filter_le]) simp
  then have "unat (of_nat (length (elf_segments img h)) :: u16) = length (elf_segments img h)"
    using n by (simp add: unat_of_nat)
  then have "unat (load_segment_count s) = length (elf_segments img h)"
    using ok by (simp add: elf_image_ok_def)
  from hv ok h n this show ?thesis by (rule that)
qed

lemma load_segment_validated:
  assumes "josh_elf64_validate (Some img) size0 (Some s0) = (JOSH_ELF64_OK, Some s)"
  shows "josh_elf64_load_segment (Some img) size0 k (Some g0) =
    (if k < load_segment_count s
     then (JOSH_ELF64_OK, Some (segment_of_phdr (elf_segments img (elf64_header_of_bytes img) ! unat k)))
     else (JOSH_ELF64_ERR_SEGMENT, Some g0))"
proof -
  from assms obtain h where hv: "header_if_basic_valid (Some img) size0 JOSH_ELF64_OK = (JOSH_ELF64_OK, Some h)"
    and ok: "elf_image_ok img size0 h s" and h: "h = elf64_header_of_bytes img"
    and n: "unat (eh_phnum h) \<le> 128" and cnt: "unat (load_segment_count s) = length (elf_segments img h)"
    by (rule validate_obtain)
  let ?segs = "elf_segments img h"
  have "load_segment_loop img size0 h k (of_nat 0) (unat (eh_phnum h)) 0 =
      (if unat k < length ?segs then Inr (segment_of_phdr (?segs ! unat k)) else Inl JOSH_ELF64_ERR_SEGMENT)"
    using load_segment_loop_eq [of 0 "unat (eh_phnum h)" img h size0 0 k] ok n
    by (simp add: elf_image_ok_def elf_load_def elf_segments_def Let_def)
  then show ?thesis
    using hv cnt unfolding h by (simp add: josh_elf64_load_segment_def word_less_nat_alt)
qed

text \<open>Whatever the image, a segment that is handed out has passed its checks.\<close>

lemma load_segment_loop_ok:
  "load_segment_loop img size0 h idx i n cur = Inr seg \<Longrightarrow> \<exists>p. seg = segment_of_phdr p \<and> phdr_ok size0 p"
  by (induction n arbitrary: i cur)
    (auto simp: Let_def validate_load_segment_iff split: if_split_asm)

lemma load_segment_ok:
  assumes "josh_elf64_load_segment (Some img) size0 k (Some g0) = (JOSH_ELF64_OK, g)"
  obtains p where "g = Some (segment_of_phdr p)" "phdr_ok size0 p"
proof -
  have "load_segment_loop img size0 h k 0 (unat (eh_phnum h)) 0 \<noteq> Inl JOSH_ELF64_OK" for h
  proof -
    have "load_segment_loop img size0 h k i n cur \<noteq> Inl JOSH_ELF64_OK" for i n cur
      by (induction n arbitrary: i cur) (auto simp: Let_def)
    then show ?thesis .
  qed
  with assms obtain h seg where "load_segment_loop img size0 h k 0 (unat (eh_phnum h)) 0 = Inr seg" "g = Some seg"
    by (auto simp: josh_elf64_load_segment_def split: prod.splits option.splits sum.splits dest: header_none)
  with load_segment_loop_ok show ?thesis using that by blast
qed

text \<open>The structure returned to the caller describes this entry of the table.\<close>

definition segment_matches :: "JoshElf64LoadSegment \<Rightarrow> elf64_segment \<Rightarrow> bool" where
  "segment_matches g p \<longleftrightarrow>
     unat (seg_file_offset g) = ph_offset p \<and> unat (seg_virtual_address g) = ph_vaddr p
     \<and> unat (seg_file_size g) = ph_filesz p \<and> unat (seg_memory_size g) = ph_memsz p
     \<and> unat (seg_alignment g) = ph_align p \<and> unat (seg_flags g) = ph_flags p"

lemma segment_in_extent:
  assumes "elf_image_ok img size0 h s" "p \<in> set (elf_segments img h)"
  shows "phdr_ok size0 p" "unat (virtual_min s) \<le> unat (p_vaddr p)"
    "unat (p_vaddr p) + unat (p_memsz p) \<le> unat (virtual_max s)"
proof -
  have p: "phdr_ok size0 p" "elf_load p"
    using assms by (auto simp: elf_image_ok_def elf_segments_def elf_load_def)
  then show "phdr_ok size0 p" by simp
  have "virtual_min s \<le> p_vaddr p" "p_vaddr p + p_memsz p \<le> virtual_max s"
    using assms by (auto simp: elf_image_ok_def intro!: Min_le Max_ge)
  then show "unat (virtual_min s) \<le> unat (p_vaddr p)" "unat (p_vaddr p) + unat (p_memsz p) \<le> unat (virtual_max s)"
    using phdr_ok_end [OF p] by (simp_all add: word_le_nat_alt)
qed

text \<open>
  C29. The loader can trust the index: once an image validates, asking for segment \<open>k\<close> below the
  reported count returns the \<open>k\<close>-th loadable segment of the file that occupies memory, with its file
  part inside the image and no longer than its memory part, and its memory inside the reported
  address range; any other index is refused with the output left alone.
\<close>

theorem elf64_load_segment_after_validate:
  assumes "josh_elf64_validate (Some img) size0 (Some s0) = (JOSH_ELF64_OK, Some s)"
  shows "if k < load_segment_count s
    then \<exists>g. josh_elf64_load_segment (Some img) size0 k (Some g0) = (JOSH_ELF64_OK, Some g)
      \<and> segment_matches g (elf64_loads img ! unat k)
      \<and> unat (seg_file_offset g) + unat (seg_file_size g) \<le> unat size0
      \<and> seg_file_size g \<le> seg_memory_size g
      \<and> virtual_min s \<le> seg_virtual_address g
      \<and> unat (seg_virtual_address g) + unat (seg_memory_size g) \<le> unat (virtual_max s)
    else josh_elf64_load_segment (Some img) size0 k (Some g0) = (JOSH_ELF64_ERR_SEGMENT, Some g0)"
proof (cases "k < load_segment_count s")
  case True
  from assms obtain h where hv: "header_if_basic_valid (Some img) size0 JOSH_ELF64_OK = (JOSH_ELF64_OK, Some h)"
    and ok: "elf_image_ok img size0 h s" and h: "h = elf64_header_of_bytes img"
    and cnt: "unat (load_segment_count s) = length (elf_segments img h)"
    by (rule validate_obtain)
  have "elf64_loads img = map ph_of (elf_segments img h)"
    by (rule table_phdrs(2) [OF _ _ h]) (use hv unsigned_less [of size0, where ?'a = nat] in \<open>auto simp: header_iff\<close>)
  moreover have k: "unat k < length (elf_segments img h)" using True cnt by (simp add: word_less_nat_alt)
  ultimately have "elf64_loads img ! unat k = ph_of (elf_segments img h ! unat k)" by simp
  then show ?thesis
    using load_segment_validated [OF assms, of k g0] True segment_in_extent [OF ok nth_mem [OF k]]
    by (auto simp: h segment_of_phdr_def segment_matches_def ph_of_def phdr_ok_def word_le_nat_alt)
next
  case False
  then show ?thesis using load_segment_validated [OF assms, of k g0] by simp
qed

section \<open>Reads stay inside the image\<close>

lemma header_of_bytes_take: "64 \<le> n \<Longrightarrow> elf64_header_of_bytes (take n img) = elf64_header_of_bytes img"
  by (simp add: elf64_header_of_bytes_def drop_take read_le16_take read_le32_take read_le64_take min_def)

lemma phdr_of_bytes_take: "56 \<le> n \<Longrightarrow> elf64_phdr_of_bytes (take n b) = elf64_phdr_of_bytes b"
  by (simp add: elf64_phdr_of_bytes_def drop_take read_le32_take read_le64_take)

lemma phdr_take:
  assumes "eh_phentsize h = 56" "unat (eh_phoff h) + unat (eh_phnum h) * 56 \<le> N" "unat i < unat (eh_phnum h)"
    and "N < 2 ^ 64"
  shows "program_header (take N img) h i = program_header img h i"
proof -
  have "unat i * 56 + 56 \<le> unat (eh_phnum h) * 56" using assms(3) by simp
  then have le: "unat (eh_phoff h) + unat i * 56 + 56 \<le> N" using assms(2) by linarith
  have "unat (ucast i * (56 :: u64)) = unat i * 56"
    using le assms(4) by (simp add: unat_mult_lem [THEN iffD1])
  then have "unat (eh_phoff h + ucast i * 56) = unat (eh_phoff h) + unat i * 56"
    using le assms(4) by (simp add: unat_add_lem [THEN iffD1])
  then have "56 \<le> N - unat (eh_phoff h + ucast i * 56)" using le by linarith
  then show ?thesis
    unfolding program_header_def assms(1) by (simp add: drop_take phdr_of_bytes_take)
qed

lemma overlap_loop_cong:
  assumes "\<forall>j. unat j < lim \<longrightarrow> program_header img h j = program_header img' h j" "unat j + n \<le> lim" "lim < 65536"
  shows "overlap_loop img h p e j n = overlap_loop img' h p e j n"
  using assms(2)
proof (induction n arbitrary: j)
  case (Suc n)
  have "unat (j + 1) = unat j + 1" using Suc.prems assms(3) by (simp add: unat_add_lem [THEN iffD1])
  then show ?case using Suc assms(1) by (simp add: Let_def)
qed simp

lemma validate_loop_cong:
  assumes "\<forall>j. unat j < lim \<longrightarrow> program_header img h j = program_header img' h j" "unat i + n \<le> lim" "lim < 65536"
  shows "validate_loop img size0 h i n st = validate_loop img' size0 h i n st"
  using assms(2)
proof (induction n arbitrary: i st)
  case (Suc n)
  have i1: "unat (i + 1) = unat i + 1" using Suc.prems assms(3) by (simp add: unat_add_lem [THEN iffD1])
  have "overlap_loop img h p e 0 (unat i) = overlap_loop img' h p e 0 (unat i)" for p e
    by (rule overlap_loop_cong [OF assms(1) _ assms(3)]) (use Suc.prems in simp)
  then show ?case using Suc assms(1) i1 by (simp add: Let_def)
qed simp

lemma load_segment_loop_cong:
  assumes "\<forall>j. unat j < lim \<longrightarrow> program_header img h j = program_header img' h j" "unat i + n \<le> lim" "lim < 65536"
  shows "load_segment_loop img size0 h idx i n cur = load_segment_loop img' size0 h idx i n cur"
  using assms(2)
proof (induction n arbitrary: i cur)
  case (Suc n)
  have "unat (i + 1) = unat i + 1" using Suc.prems assms(3) by (simp add: unat_add_lem [THEN iffD1])
  then show ?case using Suc assms(1) by (simp add: Let_def)
qed simp

text \<open>
  C30. The validator reads no byte behind the size it was given: what lies in memory after the
  image does not change the outcome of validation or of a segment query.
\<close>

theorem elf64_reads_inside_image:
  "josh_elf64_validate (Some (take (unat size0) img)) size0 s0 = josh_elf64_validate (Some img) size0 s0
   \<and> josh_elf64_load_segment (Some (take (unat size0) img)) size0 k g0
       = josh_elf64_load_segment (Some img) size0 k g0"
proof -
  let ?img = "take (unat size0) img"
  have same: "header_if_basic_valid (Some ?img) size0 JOSH_ELF64_OK = header_if_basic_valid (Some img) size0 JOSH_ELF64_OK"
  proof (cases "size0 < 64")
    case False
    then have "64 \<le> unat size0" by (simp add: word_less_nat_alt)
    then show ?thesis by (simp add: header_if_basic_valid_def header_of_bytes_take)
  qed (simp add: header_if_basic_valid_def)
  have loops: "validate_loop ?img size0 h 0 (unat (eh_phnum h)) st = validate_loop img size0 h 0 (unat (eh_phnum h)) st"
    "load_segment_loop ?img size0 h k 0 (unat (eh_phnum h)) 0 = load_segment_loop img size0 h k 0 (unat (eh_phnum h)) 0"
    if "header_if_basic_valid (Some img) size0 JOSH_ELF64_OK = (status, Some h)" for h status st
  proof -
    have hs: "eh_phentsize h = 56" "unat (eh_phoff h) + unat (eh_phnum h) * 56 \<le> unat size0"
      "unat (eh_phnum h) \<le> 128"
      using header_status [OF that] by blast+
    have "unat size0 < 2 ^ 64" using unsigned_less [of size0, where ?'a = nat] by simp
    with phdr_take [OF hs(1,2)]
    have "\<forall>j. unat j < unat (eh_phnum h) \<longrightarrow> program_header ?img h j = program_header img h j"
      by blast
    moreover have "unat (0 :: u16) + unat (eh_phnum h) \<le> unat (eh_phnum h)" "unat (eh_phnum h) < 65536"
      using hs by auto
    ultimately show "validate_loop ?img size0 h 0 (unat (eh_phnum h)) st = validate_loop img size0 h 0 (unat (eh_phnum h)) st"
      "load_segment_loop ?img size0 h k 0 (unat (eh_phnum h)) 0 = load_segment_loop img size0 h k 0 (unat (eh_phnum h)) 0"
      by (rule validate_loop_cong, rule load_segment_loop_cong)
  qed
  then show ?thesis
    by (simp add: josh_elf64_validate_def josh_elf64_load_segment_def same split: option.split prod.split)
qed

text \<open>
  A null image is not reported: validation returns success for it and leaves the summary as the
  caller had it, and a segment query behaves in the same way.
\<close>

lemma elf64_null_image_accepted:
  "josh_elf64_validate None size0 (Some s0) = (JOSH_ELF64_OK, Some s0)
   \<and> josh_elf64_load_segment None size0 k (Some g0) = (JOSH_ELF64_OK, Some g0)"
  by (simp add: josh_elf64_validate_def josh_elf64_load_segment_def header_if_basic_valid_def)

section \<open>A concrete image\<close>

text \<open>One program header and four bytes of code, loaded at 2 MiB.\<close>

definition sample_elf :: bytes where
  "sample_elf =
     [0x7F, 0x45, 0x4C, 0x46, 2, 1, 1, 0, 0, 0, 0, 0, 0, 0, 0, 0]
     @ le16_bytes 2 @ le16_bytes 62 @ le32_bytes 1 @ le64_bytes 0x200000 @ le64_bytes 64
     @ le64_bytes 0 @ le32_bytes 0 @ le16_bytes 64 @ le16_bytes 56 @ le16_bytes 1 @ le16_bytes 0
     @ le16_bytes 0 @ le16_bytes 0
     @ le32_bytes 1 @ le32_bytes 5 @ le64_bytes 120 @ le64_bytes 0x200000 @ le64_bytes 0x200000
     @ le64_bytes 4 @ le64_bytes 16 @ le64_bytes 1 @ [0xF4, 0xF4, 0xF4, 0xF4]"

definition sample_summary :: JoshElf64Summary where
  "sample_summary = \<lparr> sum_entry = 0x200000, virtual_min = 0x200000, virtual_max = 0x200010,
     load_segment_count = 1 \<rparr>"

lemma sample_elf_header:
  "elf64_header_of_bytes sample_elf =
     \<lparr> eh_ident = [0x7F, 0x45, 0x4C, 0x46, 2, 1, 1, 0, 0, 0, 0, 0, 0, 0, 0, 0], eh_type = 2,
       eh_machine = 62, eh_version = 1, eh_entry = 0x200000, eh_phoff = 64, eh_shoff = 0,
       eh_flags = 0, eh_ehsize = 64, eh_phentsize = 56, eh_phnum = 1, eh_shentsize = 0, eh_shnum = 0,
       eh_shstrndx = 0 \<rparr>"
  by (simp add: elf64_header_of_bytes_def sample_elf_def read_le16_le16_bytes read_le32_le32_bytes
      read_le64_le64_bytes)

lemma sample_elf_phdr:
  "program_header sample_elf (elf64_header_of_bytes sample_elf) 0 =
     \<lparr> p_type = 1, p_flags = 5, p_offset = 120, p_vaddr = 0x200000, p_paddr = 0x200000,
       p_filesz = 4, p_memsz = 16, p_align = 1 \<rparr>"
  by (simp add: program_header_def sample_elf_header)
    (simp add: elf64_phdr_of_bytes_def sample_elf_def read_le32_le32_bytes read_le64_le64_bytes)

lemma sample_elf_validates:
  "josh_elf64_validate (Some sample_elf) 124 (Some s0) = (JOSH_ELF64_OK, Some sample_summary)"
proof -
  have "header_if_basic_valid (Some sample_elf) 124 JOSH_ELF64_OK =
      (JOSH_ELF64_OK, Some (elf64_header_of_bytes sample_elf))"
    by (simp add: header_if_basic_valid_def Let_def sample_elf_header elf_constants range_inside_def
        add_overflows_def)
  moreover have "validate_load_segment (program_header sample_elf (elf64_header_of_bytes sample_elf) 0) 124
      = JOSH_ELF64_OK"
    by (simp add: validate_load_segment_def sample_elf_phdr range_inside_def add_overflows_def)
  moreover have "eh_phnum (elf64_header_of_bytes sample_elf) = 1"
    "eh_entry (elf64_header_of_bytes sample_elf) = 0x200000" by (simp_all add: sample_elf_header)
  ultimately show ?thesis
    by (simp add: josh_elf64_validate_def Let_def sample_elf_phdr elf_constants sample_summary_def)
qed

definition sample_segment :: JoshElf64LoadSegment where
  "sample_segment = \<lparr> seg_file_offset = 0, seg_virtual_address = 0, seg_file_size = 0,
     seg_memory_size = 0, seg_alignment = 0, seg_flags = 0 \<rparr>"

theorem elf64_load_segment_after_validate_witness:
  "josh_elf64_validate (Some sample_elf) 124 (Some sample_summary) = (JOSH_ELF64_OK, Some sample_summary)
   \<and> fst (josh_elf64_load_segment (Some sample_elf) 124 0 (Some sample_segment)) = JOSH_ELF64_OK
   \<and> josh_elf64_load_segment (Some sample_elf) 124 1 (Some sample_segment)
      = (JOSH_ELF64_ERR_SEGMENT, Some sample_segment)"
  using elf64_load_segment_after_validate [OF sample_elf_validates [of sample_summary], of 0 sample_segment]
    elf64_load_segment_after_validate [OF sample_elf_validates [of sample_summary], of 1 sample_segment]
    sample_elf_validates
  by (auto simp: sample_summary_def)

end
