(* ===== verification/JB_Update.thy ===== *)
theory JB_Update
  imports JB_Crc
begin

text \<open>
  Firmware updates of \<open>firmware/update.h\<close> and \<open>firmware/update.c\<close>: staging an image in the
  inactive slot with read-back verification, choosing the slot to boot, and confirming a boot.

  The flash driver is a parameter: a backend holds three functions on a flash state \<open>'c\<close>, the
  memory behind the context pointer. What the code relies on is the locale \<open>fw_flash\<close>; it is
  interpreted on the only backend of the repository, the one of \<open>tests/test_firmware_update.c\<close>.
\<close>

section \<open>Data\<close>

datatype josh_fw_update_status =
    JOSH_FW_UPDATE_OK
  | JOSH_FW_UPDATE_INVALID_ARGUMENT
  | JOSH_FW_UPDATE_BAD_MANIFEST
  | JOSH_FW_UPDATE_WRONG_BOARD
  | JOSH_FW_UPDATE_ROLLBACK_BLOCKED
  | JOSH_FW_UPDATE_IMAGE_TOO_LARGE
  | JOSH_FW_UPDATE_IMAGE_CORRUPT
  | JOSH_FW_UPDATE_ERASE_FAILED
  | JOSH_FW_UPDATE_WRITE_FAILED
  | JOSH_FW_UPDATE_VERIFY_FAILED

definition JOSH_FW_UPDATE_MAGIC :: u32 where "JOSH_FW_UPDATE_MAGIC = 0x5557464a"
definition JOSH_FW_UPDATE_VERSION :: u16 where "JOSH_FW_UPDATE_VERSION = 1"
definition JOSH_FW_BOARD_ID_MAX :: nat where "JOSH_FW_BOARD_ID_MAX = 31"
definition JOSH_FW_SLOT_NONE :: u32 where "JOSH_FW_SLOT_NONE = 0xFFFFFFFF"
definition JOSH_FW_MAX_ATTEMPTS :: u32 where "JOSH_FW_MAX_ATTEMPTS = 3"
definition VERIFY_CHUNK :: u32 where "VERIFY_CHUNK = 256"

lemmas fw_constants = JOSH_FW_UPDATE_MAGIC_def JOSH_FW_UPDATE_VERSION_def JOSH_FW_BOARD_ID_MAX_def
  JOSH_FW_SLOT_NONE_def JOSH_FW_MAX_ATTEMPTS_def VERIFY_CHUNK_def

record josh_fw_update_manifest =
  m_magic :: u32
  m_version :: u16
  m_header_size :: u16
  m_board_id :: bytes
  m_generation :: u64
  m_image_size :: u32
  m_image_crc32 :: u32

text \<open>The size of the structure: 4 + 2 + 2 + 32 + 8 + 4 + 4 bytes, without padding.\<close>

definition manifest_sizeof :: u16 where "manifest_sizeof = 56"

record josh_fw_update_state =
  active_slot :: u32
  previous_good_slot :: u32
  pending_slot :: u32
  pending_attempts :: u32
  active_generation :: u64
  pending_generation :: u64

text \<open>
  A driver function returns the flash afterwards and whether it succeeded; a read returns the
  bytes it put in the buffer.
\<close>

record 'c josh_fw_flash_backend =
  slot_count :: u32
  slot_size :: u32
  erase_slot :: "('c \<Rightarrow> u32 \<Rightarrow> 'c \<times> bool) option"
  write_slot :: "('c \<Rightarrow> u32 \<Rightarrow> u32 \<Rightarrow> bytes \<Rightarrow> u32 \<Rightarrow> 'c \<times> bool) option"
  read_slot :: "('c \<Rightarrow> u32 \<Rightarrow> u32 \<Rightarrow> u32 \<Rightarrow> 'c \<times> bytes option) option"

section \<open>Checks\<close>

text \<open>The two strings are given with their terminating zero; the loop never runs past it.\<close>

fun text_equal_loop :: "bytes \<Rightarrow> bytes \<Rightarrow> nat \<Rightarrow> bool" where
  "text_equal_loop a b 0 = False"
| "text_equal_loop (x # a) (y # b) (Suc limit) =
     (if x \<noteq> y then False else if x = 0 then True else text_equal_loop a b limit)"

definition text_equal :: "bytes option \<Rightarrow> bytes option \<Rightarrow> nat \<Rightarrow> bool" where
  "text_equal a b limit =
     (case (a, b) of (Some x, Some y) \<Rightarrow> text_equal_loop x y limit | _ \<Rightarrow> False)"

definition josh_fw_update_state_default :: "josh_fw_update_state option \<Rightarrow> josh_fw_update_state option" where
  "josh_fw_update_state_default state =
     (case state of
        None \<Rightarrow> None
      | Some s \<Rightarrow>
          Some (s\<lparr> active_slot := 0, previous_good_slot := 0, pending_slot := JOSH_FW_SLOT_NONE,
                   pending_attempts := 0, active_generation := 0, pending_generation := 0 \<rparr>))"

text \<open>The loop over the board name, \<open>n\<close> characters left: \<open>None\<close> is an early return of 0.\<close>

fun board_id_loop :: "bytes \<Rightarrow> nat \<Rightarrow> nat \<Rightarrow> bool option" where
  "board_id_loop cs i 0 = Some False"
| "board_id_loop cs i (Suc n) =
     (if cs ! i = 0 then Some (i \<noteq> 0)
      else if cs ! i < 0x21 \<or> cs ! i > 0x7E then None
      else board_id_loop cs (i + 1) n)"

definition manifest_valid :: "josh_fw_update_manifest option \<Rightarrow> bool" where
  "manifest_valid manifest =
     (case manifest of
        None \<Rightarrow> False
      | Some m \<Rightarrow>
          if m_magic m \<noteq> JOSH_FW_UPDATE_MAGIC \<or> m_version m \<noteq> JOSH_FW_UPDATE_VERSION
             \<or> m_header_size m \<noteq> manifest_sizeof \<or> m_image_size m = 0
          then False
          else
            (case board_id_loop (m_board_id m) 0 (JOSH_FW_BOARD_ID_MAX + 1) of
               None \<Rightarrow> False
             | Some terminated \<Rightarrow> terminated))"

definition state_valid :: "josh_fw_update_state option \<Rightarrow> 'c josh_fw_flash_backend option \<Rightarrow> bool" where
  "state_valid state backend =
     (case (state, backend) of
        (Some s, Some b) \<Rightarrow>
          if slot_count b < 2 then False
          else if active_slot s \<ge> slot_count b \<or> previous_good_slot s \<ge> slot_count b then False
          else if pending_slot s \<noteq> JOSH_FW_SLOT_NONE \<and> pending_slot s \<ge> slot_count b then False
          else True
      | _ \<Rightarrow> False)"

section \<open>Staging\<close>

definition chunk_length :: "u32 \<Rightarrow> u32 \<Rightarrow> u32" where
  "chunk_length size0 offset =
     (let remaining = size0 - offset in if remaining < VERIFY_CHUNK then remaining else VERIFY_CHUNK)"

lemma chunk_length_bounds:
  assumes "offset < size0"
  shows "0 < unat (chunk_length size0 offset)"
    and "unat offset + unat (chunk_length size0 offset) \<le> unat size0"
    and "unat (offset + chunk_length size0 offset) = unat offset + unat (chunk_length size0 offset)"
proof -
  have d: "unat (size0 - offset) = unat size0 - unat offset" "unat offset < unat size0"
    using assms by (simp_all add: unat_diff_le less_imp_le word_less_nat_alt)
  have c: "unat (chunk_length size0 offset) = min (unat size0 - unat offset) 256"
    using d by (simp add: chunk_length_def Let_def VERIFY_CHUNK_def word_less_nat_alt)
  then show "0 < unat (chunk_length size0 offset)"
    and le: "unat offset + unat (chunk_length size0 offset) \<le> unat size0"
    using d(2) by auto
  show "unat (offset + chunk_length size0 offset) = unat offset + unat (chunk_length size0 offset)"
    using le unsigned_less [of size0, where ?'a = nat] by (simp add: unat_add_lem [THEN iffD1])
qed

text \<open>The read-back loop: whether every chunk was read and equal to the image.\<close>

function verify_loop :: "('c \<Rightarrow> u32 \<Rightarrow> u32 \<Rightarrow> u32 \<Rightarrow> 'c \<times> bytes option) \<Rightarrow> 'c \<Rightarrow> u32 \<Rightarrow> bytes \<Rightarrow> u32 \<Rightarrow> u32
    \<Rightarrow> 'c \<times> bool" where
  "verify_loop rd c target source size0 offset =
     (if offset < size0
      then
        let len = chunk_length size0 offset
        in case rd c target offset len of
             (c', None) \<Rightarrow> (c', False)
           | (c', Some verify) \<Rightarrow>
               if list_all (\<lambda>i. verify ! i = source ! (unat offset + i)) [0..<unat len]
               then verify_loop rd c' target source size0 (offset + len)
               else (c', False)
      else (c, True))"
  by pat_completeness auto
termination
  by (relation "measure (\<lambda>(rd, c, target, source, size0, offset). unat size0 - unat offset)")
    (auto simp: chunk_length_bounds word_less_nat_alt intro!: diff_less_mono2)

declare verify_loop.simps [simp del]

definition josh_fw_stage_update ::
    "josh_fw_update_manifest option \<Rightarrow> bytes option \<Rightarrow> bytes option \<Rightarrow> 'c josh_fw_flash_backend option
     \<Rightarrow> josh_fw_update_state option \<Rightarrow> bool \<Rightarrow> 'c
     \<Rightarrow> josh_fw_update_status \<times> josh_fw_update_state option \<times> 'c" where
  "josh_fw_stage_update manifest img expected_board_id backend state allow_rollback c =
     (case (img, expected_board_id, backend, state) of
        (Some source, Some board, Some b, Some s) \<Rightarrow>
          (case (erase_slot b, write_slot b, read_slot b) of
             (Some er, Some wr, Some rd) \<Rightarrow>
               if \<not> manifest_valid manifest \<or> \<not> state_valid state backend
               then (JOSH_FW_UPDATE_BAD_MANIFEST, state, c)
               else
                 let m = the manifest in
                 if \<not> text_equal (Some (m_board_id m)) expected_board_id (JOSH_FW_BOARD_ID_MAX + 1)
                 then (JOSH_FW_UPDATE_WRONG_BOARD, state, c)
                 else if \<not> allow_rollback \<and> m_generation m \<le> active_generation s
                 then (JOSH_FW_UPDATE_ROLLBACK_BLOCKED, state, c)
                 else if m_image_size m > slot_size b
                 then (JOSH_FW_UPDATE_IMAGE_TOO_LARGE, state, c)
                 else if josh_fw_crc32 img (unat (m_image_size m)) \<noteq> m_image_crc32 m
                 then (JOSH_FW_UPDATE_IMAGE_CORRUPT, state, c)
                 else
                   let target = (active_slot s + 1) mod slot_count b in
                   if target = active_slot s then (JOSH_FW_UPDATE_BAD_MANIFEST, state, c)
                   else
                     (case er c target of
                        (c1, False) \<Rightarrow> (JOSH_FW_UPDATE_ERASE_FAILED, state, c1)
                      | (c1, True) \<Rightarrow>
                          (case wr c1 target 0 source (m_image_size m) of
                             (c2, False) \<Rightarrow> (JOSH_FW_UPDATE_WRITE_FAILED, state, c2)
                           | (c2, True) \<Rightarrow>
                               (case verify_loop rd c2 target source (m_image_size m) 0 of
                                  (c3, False) \<Rightarrow> (JOSH_FW_UPDATE_VERIFY_FAILED, state, c3)
                                | (c3, True) \<Rightarrow>
                                    (JOSH_FW_UPDATE_OK,
                                     Some (s\<lparr> previous_good_slot := active_slot s, pending_slot := target,
                                              pending_generation := m_generation m,
                                              pending_attempts := 0 \<rparr>), c3))))
           | _ \<Rightarrow> (JOSH_FW_UPDATE_INVALID_ARGUMENT, state, c))
      | _ \<Rightarrow> (JOSH_FW_UPDATE_INVALID_ARGUMENT, state, c))"

section \<open>Booting\<close>

definition josh_fw_select_boot_slot :: "josh_fw_update_state option \<Rightarrow> u32 \<Rightarrow> u32 \<times> josh_fw_update_state option" where
  "josh_fw_select_boot_slot state max_attempts0 =
     (case state of
        None \<Rightarrow> (JOSH_FW_SLOT_NONE, None)
      | Some s \<Rightarrow>
          let max_attempts = (if max_attempts0 = 0 then JOSH_FW_MAX_ATTEMPTS else max_attempts0) in
          if pending_slot s = JOSH_FW_SLOT_NONE then (active_slot s, Some s)
          else if pending_attempts s \<ge> max_attempts
          then (active_slot s,
                Some (s\<lparr> pending_slot := JOSH_FW_SLOT_NONE, pending_generation := 0, pending_attempts := 0 \<rparr>))
          else (pending_slot s, Some (s\<lparr> pending_attempts := pending_attempts s + 1 \<rparr>)))"

definition josh_fw_mark_boot_good :: "josh_fw_update_state option \<Rightarrow> u32 \<Rightarrow> bool \<times> josh_fw_update_state option" where
  "josh_fw_mark_boot_good state slot =
     (case state of
        None \<Rightarrow> (False, None)
      | Some s \<Rightarrow>
          if pending_slot s = JOSH_FW_SLOT_NONE \<or> slot \<noteq> pending_slot s then (False, Some s)
          else (True,
                Some (s\<lparr> previous_good_slot := active_slot s, active_slot := pending_slot s,
                         active_generation := pending_generation s, pending_slot := JOSH_FW_SLOT_NONE,
                         pending_generation := 0, pending_attempts := 0 \<rparr>)))"

definition josh_fw_update_status_string :: "josh_fw_update_status \<Rightarrow> string" where
  "josh_fw_update_status_string status =
     (case status of
        JOSH_FW_UPDATE_OK \<Rightarrow> ''ok''
      | JOSH_FW_UPDATE_INVALID_ARGUMENT \<Rightarrow> ''invalid argument''
      | JOSH_FW_UPDATE_BAD_MANIFEST \<Rightarrow> ''bad manifest''
      | JOSH_FW_UPDATE_WRONG_BOARD \<Rightarrow> ''wrong board''
      | JOSH_FW_UPDATE_ROLLBACK_BLOCKED \<Rightarrow> ''rollback blocked''
      | JOSH_FW_UPDATE_IMAGE_TOO_LARGE \<Rightarrow> ''image too large''
      | JOSH_FW_UPDATE_IMAGE_CORRUPT \<Rightarrow> ''image integrity mismatch''
      | JOSH_FW_UPDATE_ERASE_FAILED \<Rightarrow> ''erase failed''
      | JOSH_FW_UPDATE_WRITE_FAILED \<Rightarrow> ''write failed''
      | JOSH_FW_UPDATE_VERIFY_FAILED \<Rightarrow> ''read-back verify failed'')"

section \<open>What the flash driver promises\<close>

text \<open>
  \<open>slot_data\<close> is the contents of a slot. Erasing and writing touch one slot only, whether they
  succeed or not; reading changes nothing and delivers the bytes that are there.
\<close>

locale fw_flash =
  fixes backend :: "'c josh_fw_flash_backend" and slot_data :: "'c \<Rightarrow> u32 \<Rightarrow> bytes"
  assumes erase_frame: "erase_slot backend = Some f \<Longrightarrow> f c s = (c', ok) \<Longrightarrow> t \<noteq> s \<Longrightarrow>
      slot_data c' t = slot_data c t"
    and write_frame: "write_slot backend = Some g \<Longrightarrow> g c s off d n = (c', ok) \<Longrightarrow> t \<noteq> s \<Longrightarrow>
      slot_data c' t = slot_data c t"
    and read_pure: "read_slot backend = Some rd \<Longrightarrow> rd c s off n = (c', r) \<Longrightarrow> slot_data c' = slot_data c"
    and read_data: "read_slot backend = Some rd \<Longrightarrow> rd c s off n = (c', Some bs) \<Longrightarrow>
      bs = take (unat n) (drop (unat off) (slot_data c s)) \<and> unat off + unat n \<le> length (slot_data c s)"
begin

lemma verify_loop_sound:
  assumes "read_slot backend = Some rd" "verify_loop rd c t source size0 off = (c', ok)"
  shows "slot_data c' = slot_data c
    \<and> (ok \<longrightarrow> (\<forall>i. unat off \<le> i \<and> i < unat size0 \<longrightarrow>
         i < length (slot_data c t) \<and> slot_data c t ! i = source ! i))"
  using assms
proof (induction rd c t source size0 off rule: verify_loop.induct)
  case (1 rd c t source size0 off)
  show ?case
  proof (cases "off < size0")
    case False
    then show ?thesis using 1(3) by (auto simp: verify_loop.simps word_less_nat_alt)
  next
    case True
    let ?len = "chunk_length size0 off"
    note b = chunk_length_bounds [OF True]
    obtain c1 r where rd: "rd c t off ?len = (c1, r)" by fastforce
    note pure = read_pure [OF 1(2) rd]
    show ?thesis
    proof (cases "\<exists>v. r = Some v \<and> list_all (\<lambda>i. v ! i = source ! (unat off + i)) [0..<unat ?len]")
      case False
      then have "c' = c1 \<and> \<not> ok"
        using 1(3) True rd unfolding verify_loop.simps [of rd c]
        by (auto simp: Let_def split: option.splits if_split_asm)
      then show ?thesis using pure by simp
    next
      case ok: True
      then obtain v where v: "r = Some v" "\<forall>i<unat ?len. v ! i = source ! (unat off + i)"
        by (auto simp: list_all_iff)
      note d = read_data [OF 1(2) rd [unfolded v(1)]]
      have rest: "verify_loop rd c1 t source size0 (off + ?len) = (c', ok)"
        using 1(3) True rd ok v(1) unfolding verify_loop.simps [of rd c]
        by (auto simp: Let_def split: if_split_asm)
      have IH: "slot_data c' = slot_data c1
        \<and> (ok \<longrightarrow> (\<forall>i. unat (off + ?len) \<le> i \<and> i < unat size0 \<longrightarrow>
             i < length (slot_data c1 t) \<and> slot_data c1 t ! i = source ! i))"
        using 1(1) [OF True refl rd [symmetric] v(1) _ 1(2) rest] ok v(1) by auto
      have here: "i < length (slot_data c t) \<and> slot_data c t ! i = source ! i"
        if "unat off \<le> i" "i < unat off + unat ?len" for i
      proof -
        have "v ! (i - unat off) = slot_data c t ! i" using d that by simp
        moreover have "v ! (i - unat off) = source ! i" using v(2) that by simp
        ultimately show ?thesis using d that by simp
      qed
      show ?thesis using IH here pure b(3) by (metis not_le)
    qed
  qed
qed

text \<open>Staging leaves every slot but the target alone, and success means the image is in it.\<close>

lemma stage_update_effect:
  assumes "josh_fw_stage_update manifest (Some source) (Some board) (Some backend) (Some s) allow c = (status, s', c')"
  shows "t \<noteq> (active_slot s + 1) mod slot_count backend \<Longrightarrow> slot_data c' t = slot_data c t"
    and "status = JOSH_FW_UPDATE_OK \<Longrightarrow> i < unat (m_image_size (the manifest)) \<Longrightarrow>
      i < length (slot_data c' ((active_slot s + 1) mod slot_count backend))
      \<and> slot_data c' ((active_slot s + 1) mod slot_count backend) ! i = source ! i"
proof -
  let ?t = "(active_slot s + 1) mod slot_count backend"
  consider (none) "c' = c" "status \<noteq> JOSH_FW_UPDATE_OK"
    | (erased) er where "erase_slot backend = Some er" "er c ?t = (c', False)" "status \<noteq> JOSH_FW_UPDATE_OK"
    | (written) er wr c1 where "erase_slot backend = Some er" "er c ?t = (c1, True)"
        "write_slot backend = Some wr" "wr c1 ?t 0 source (m_image_size (the manifest)) = (c', False)"
        "status \<noteq> JOSH_FW_UPDATE_OK"
    | (verified) er wr rd c1 c2 ok where "erase_slot backend = Some er" "er c ?t = (c1, True)"
        "write_slot backend = Some wr" "wr c1 ?t 0 source (m_image_size (the manifest)) = (c2, True)"
        "read_slot backend = Some rd" "verify_loop rd c2 ?t source (m_image_size (the manifest)) 0 = (c', ok)"
        "status = JOSH_FW_UPDATE_OK \<longrightarrow> ok"
    using assms
    by (auto simp: josh_fw_stage_update_def Let_def split: option.splits if_split_asm prod.splits bool.splits)
  then show "t \<noteq> ?t \<Longrightarrow> slot_data c' t = slot_data c t"
    and "status = JOSH_FW_UPDATE_OK \<Longrightarrow> i < unat (m_image_size (the manifest)) \<Longrightarrow>
      i < length (slot_data c' ?t) \<and> slot_data c' ?t ! i = source ! i"
    by (cases; use erase_frame write_frame verify_loop_sound in \<open>fastforce\<close>)+
qed

end

section \<open>The backend of the tests\<close>

text \<open>
  The flash of \<open>tests/test_firmware_update.c\<close>: two slots of 4096 bytes, as functions of slot and
  index, and two fault switches.
\<close>

record mock_flash =
  mock_slots :: "u32 \<Rightarrow> nat \<Rightarrow> u8"
  fail_write :: bool
  corrupt_after_write :: bool
  erase_calls :: u32
  write_calls :: u32

definition mock_erase_slot :: "mock_flash \<Rightarrow> u32 \<Rightarrow> mock_flash \<times> bool" where
  "mock_erase_slot flash slot =
     (if slot \<ge> 2 then (flash, False)
      else (flash\<lparr> mock_slots := (mock_slots flash)(slot := \<lambda>i. 0xFF),
                   erase_calls := erase_calls flash + 1 \<rparr>, True))"

definition mock_write_slot :: "mock_flash \<Rightarrow> u32 \<Rightarrow> u32 \<Rightarrow> bytes \<Rightarrow> u32 \<Rightarrow> mock_flash \<times> bool" where
  "mock_write_slot flash slot offset data len =
     (if slot \<ge> 2 \<or> offset > 4096 \<or> len > 4096 - offset then (flash, False)
      else
        let flash1 = flash\<lparr> write_calls := write_calls flash + 1 \<rparr> in
        if fail_write flash1 then (flash1, False)
        else
          let copied = (\<lambda>i. if unat offset \<le> i \<and> i < unat offset + unat len then data ! (i - unat offset)
                            else mock_slots flash1 slot i);
              final = (if corrupt_after_write flash1 \<and> len \<noteq> 0
                       then copied(unat offset := copied (unat offset) XOR 1) else copied)
          in (flash1\<lparr> mock_slots := (mock_slots flash1)(slot := final) \<rparr>, True))"

definition mock_read_slot :: "mock_flash \<Rightarrow> u32 \<Rightarrow> u32 \<Rightarrow> u32 \<Rightarrow> mock_flash \<times> bytes option" where
  "mock_read_slot flash slot offset len =
     (if slot \<ge> 2 \<or> offset > 4096 \<or> len > 4096 - offset then (flash, None)
      else (flash, Some (map (mock_slots flash slot) [unat offset..<unat offset + unat len])))"

definition mock_backend :: "mock_flash josh_fw_flash_backend" where
  "mock_backend = \<lparr> slot_count = 2, slot_size = 4096, erase_slot = Some mock_erase_slot,
     write_slot = Some mock_write_slot, read_slot = Some mock_read_slot \<rparr>"

definition mock_data :: "mock_flash \<Rightarrow> u32 \<Rightarrow> bytes" where
  "mock_data flash slot = map (mock_slots flash slot) [0..<4096]"

lemma mock_read_bounds:
  assumes "mock_read_slot flash slot offset len = (flash', Some bs)"
  shows "bs = take (unat len) (drop (unat offset) (mock_data flash slot))
    \<and> unat offset + unat len \<le> length (mock_data flash slot)"
proof -
  from assms have b: "unat offset \<le> 4096" "len \<le> 4096 - offset"
    and bs: "bs = map (mock_slots flash slot) [unat offset..<unat offset + unat len]"
    by (auto simp: mock_read_slot_def word_le_nat_alt word_less_nat_alt split: if_split_asm)
  have "unat (4096 - offset) = 4096 - unat offset" using b(1) by (simp add: unat_diff_le word_le_nat_alt)
  then have le: "unat offset + unat len \<le> 4096" using b by (simp add: word_le_nat_alt)
  then show ?thesis by (simp add: bs mock_data_def drop_map take_map take_upt drop_upt)
qed

interpretation mock: fw_flash mock_backend mock_data
proof
  fix f :: "mock_flash \<Rightarrow> u32 \<Rightarrow> mock_flash \<times> bool" and c s c' ok t
  assume "erase_slot mock_backend = Some f" "f c s = (c', ok)" "t \<noteq> s"
  then show "mock_data c' t = mock_data c t"
    by (auto simp: mock_backend_def mock_erase_slot_def mock_data_def split: if_split_asm)
next
  fix g :: "mock_flash \<Rightarrow> u32 \<Rightarrow> u32 \<Rightarrow> bytes \<Rightarrow> u32 \<Rightarrow> mock_flash \<times> bool" and c s off d n c' ok t
  assume "write_slot mock_backend = Some g" "g c s off d n = (c', ok)" "t \<noteq> s"
  then show "mock_data c' t = mock_data c t"
    by (auto simp: mock_backend_def mock_write_slot_def mock_data_def Let_def split: if_split_asm)
next
  fix rd :: "mock_flash \<Rightarrow> u32 \<Rightarrow> u32 \<Rightarrow> u32 \<Rightarrow> mock_flash \<times> bytes option" and c s off n c' r
  assume "read_slot mock_backend = Some rd" "rd c s off n = (c', r)"
  then show "mock_data c' = mock_data c"
    by (auto simp: mock_backend_def mock_read_slot_def split: if_split_asm)
next
  fix rd :: "mock_flash \<Rightarrow> u32 \<Rightarrow> u32 \<Rightarrow> u32 \<Rightarrow> mock_flash \<times> bytes option" and c s off n c' bs
  assume "read_slot mock_backend = Some rd" "rd c s off n = (c', Some bs)"
  then show "bs = take (unat n) (drop (unat off) (mock_data c s)) \<and> unat off + unat n \<le> length (mock_data c s)"
    using mock_read_bounds by (simp add: mock_backend_def)
qed

section \<open>Staging\<close>

lemma stage_update_OK:
  assumes "josh_fw_stage_update manifest img board (Some b) (Some s) allow c = (JOSH_FW_UPDATE_OK, s', c')"
  obtains m source where "manifest = Some m" "img = Some source" "manifest_valid manifest"
    "state_valid (Some s) (Some b)" "text_equal (Some (m_board_id m)) board 32"
    "allow \<or> active_generation s < m_generation m" "m_image_size m \<le> slot_size b"
    "josh_fw_crc32 img (unat (m_image_size m)) = m_image_crc32 m"
    "(active_slot s + 1) mod slot_count b \<noteq> active_slot s"
    "s' = Some (s\<lparr> previous_good_slot := active_slot s, pending_slot := (active_slot s + 1) mod slot_count b,
        pending_generation := m_generation m, pending_attempts := 0 \<rparr>)"
proof -
  obtain source where src: "img = Some source"
    using assms by (auto simp: josh_fw_stage_update_def split: option.splits)
  obtain m where m: "manifest = Some m"
    using assms
    by (auto simp: josh_fw_stage_update_def manifest_valid_def Let_def split: option.splits if_split_asm)
  show ?thesis
    by (rule that [OF m src]; use assms src m in
      \<open>auto simp: josh_fw_stage_update_def Let_def not_less not_le JOSH_FW_BOARD_ID_MAX_def
         split: option.splits if_split_asm prod.splits bool.splits\<close>)
qed

lemma stage_update_failed:
  assumes "josh_fw_stage_update manifest img board backend s allow c = (status, s', c')"
    and "status \<noteq> JOSH_FW_UPDATE_OK"
  shows "s' = s"
  using assms
  by (auto simp: josh_fw_stage_update_def Let_def split: option.splits if_split_asm prod.splits bool.splits)

lemma next_slot_bound:
  assumes "2 \<le> slot_count b"
  shows "(a + 1) mod slot_count b < slot_count b"
  using assms by (intro word_mod_less_divisor) (auto simp: word_gt_0)

lemma text_equal_cstr:
  "0 \<in> set a \<Longrightarrow> 0 \<in> set b \<Longrightarrow> text_equal_loop a b n \<Longrightarrow> cstr a = cstr b"
proof (induction n arbitrary: a b)
  case (Suc n)
  then obtain x a' y b' where "a = x # a'" "b = y # b'" by (cases a; cases b) auto
  then show ?case using Suc by (auto simp: cstr_def split: if_split_asm)
qed simp

lemma nth_mem_eq: "xs ! i = x \<Longrightarrow> i < length xs \<Longrightarrow> x \<in> set xs"
  by auto

lemma board_id_loop_terminated:
  "board_id_loop cs i n = Some True \<Longrightarrow> i + n \<le> length cs \<Longrightarrow> 0 \<in> set cs"
proof (induction cs i n rule: board_id_loop.induct)
  case (2 cs i n)
  then show ?case using nth_mem_eq [of cs i 0] by (auto split: if_split_asm)
qed simp

lemma manifest_board_terminated:
  "manifest_valid (Some m) \<Longrightarrow> length (m_board_id m) = 32 \<Longrightarrow> 0 \<in> set (m_board_id m)"
  by (rule board_id_loop_terminated [of _ 0 32])
    (auto simp: manifest_valid_def JOSH_FW_BOARD_ID_MAX_def split: option.split_asm if_split_asm)

text \<open>
  C31. Staging never harms what runs: whatever the outcome, including driver errors at any point,
  the contents of the active slot and of every slot but the one behind it are what they were, and
  a call that does not report success leaves the update state as it was.
\<close>

theorem stage_update_safe:
  assumes "fw_flash b slot_data"
    and "josh_fw_stage_update manifest (Some source) (Some board) (Some b) (Some s) allow c = (status, s', c')"
  shows "slot_data c' (active_slot s) = slot_data c (active_slot s)
    \<and> (\<forall>t. t \<noteq> (active_slot s + 1) mod slot_count b \<longrightarrow> slot_data c' t = slot_data c t)
    \<and> (status \<noteq> JOSH_FW_UPDATE_OK \<longrightarrow> s' = Some s)"
proof -
  have frame: "slot_data c' t = slot_data c t" if "t \<noteq> (active_slot s + 1) mod slot_count b" for t
    using fw_flash.stage_update_effect(1) [OF assms that] .
  have "c' = c" if "(active_slot s + 1) mod slot_count b = active_slot s"
    using assms(2) that
    by (auto simp: josh_fw_stage_update_def Let_def split: option.splits if_split_asm)
  then have "slot_data c' (active_slot s) = slot_data c (active_slot s)" using frame by metis
  then show ?thesis using frame stage_update_failed [OF assms(2)] by blast
qed

text \<open>
  C6. Success means a verified update: the target is another slot that exists, it now holds the
  image byte for byte, the image has the checksum of the manifest and fits, it is for this board,
  it is newer than the active firmware unless a rollback was allowed, and the state marks the slot
  as pending with no attempt used while the active slot stays the same.
\<close>

theorem stage_update_verified:
  assumes "fw_flash b slot_data"
    and "josh_fw_stage_update (Some m) (Some source) (Some board) (Some b) (Some s) allow c
      = (JOSH_FW_UPDATE_OK, Some s', c')"
    and "length (m_board_id m) = 32" "0 \<in> set board" "unat (m_image_size m) \<le> length source"
  shows "pending_slot s' \<noteq> active_slot s \<and> pending_slot s' < slot_count b
    \<and> take (unat (m_image_size m)) (slot_data c' (pending_slot s')) = take (unat (m_image_size m)) source
    \<and> josh_fw_crc32 (Some source) (unat (m_image_size m)) = m_image_crc32 m
    \<and> m_image_size m \<le> slot_size b
    \<and> cstr (m_board_id m) = cstr board
    \<and> (allow \<or> active_generation s < m_generation m)
    \<and> pending_generation s' = m_generation m \<and> pending_attempts s' = 0
    \<and> previous_good_slot s' = active_slot s
    \<and> active_slot s' = active_slot s \<and> active_generation s' = active_generation s"
proof -
  let ?t = "(active_slot s + 1) mod slot_count b" and ?n = "unat (m_image_size m)"
  obtain src where ok: "manifest_valid (Some m)" "state_valid (Some s) (Some b)"
    "text_equal (Some (m_board_id m)) (Some board) 32"
    "allow \<or> active_generation s < m_generation m" "m_image_size m \<le> slot_size b"
    "josh_fw_crc32 (Some source) ?n = m_image_crc32 m" "?t \<noteq> active_slot s"
    "s' = s\<lparr> previous_good_slot := active_slot s, pending_slot := ?t,
        pending_generation := m_generation m, pending_attempts := 0 \<rparr>"
    using assms(2) by (rule stage_update_OK) simp
  have bytes: "i < length (slot_data c' ?t) \<and> slot_data c' ?t ! i = source ! i" if "i < ?n" for i
    using fw_flash.stage_update_effect(2) [OF assms(1,2) refl] that by simp
  have "?n \<le> length (slot_data c' ?t)"
    using bytes [of "?n - 1"] by (cases "?n = 0") auto
  then have "take ?n (slot_data c' ?t) = take ?n source"
    using bytes assms(5) by (intro nth_equalityI) auto
  moreover have "?t < slot_count b"
    using ok(2) by (intro next_slot_bound) (simp add: state_valid_def not_less split: if_split_asm)
  moreover have "cstr (m_board_id m) = cstr board"
    using ok(3) text_equal_cstr [OF manifest_board_terminated [OF ok(1) assms(3)] assms(4)]
    by (simp add: text_equal_def)
  ultimately show ?thesis using ok(4-7) unfolding ok(8) by simp
qed

section \<open>The checks come first\<close>

text \<open>The board name of a manifest: 1 to 31 printable characters without spaces and a zero.\<close>

definition board_name_ok :: "bytes \<Rightarrow> bool" where
  "board_name_ok cs \<longleftrightarrow>
     (\<exists>n. 0 < n \<and> n < 32 \<and> cs ! n = 0 \<and> (\<forall>i<n. 0x21 \<le> cs ! i \<and> cs ! i \<le> 0x7E))"

lemma board_id_loop_ok:
  "board_id_loop cs i n = Some True \<longleftrightarrow>
     (\<exists>k. i \<le> k \<and> 0 < k \<and> k < i + n \<and> cs ! k = 0 \<and> (\<forall>j. i \<le> j \<and> j < k \<longrightarrow> 0x21 \<le> cs ! j \<and> cs ! j \<le> 0x7E))"
proof (induction n arbitrary: i)
  case (Suc n)
  show ?case
  proof (cases "cs ! i = 0")
    case True
    have "k = i" if "i \<le> k" "\<forall>j. i \<le> j \<and> j < k \<longrightarrow> 0x21 \<le> cs ! j \<and> cs ! j \<le> 0x7E" for k
      using that True by (cases "i < k") auto
    then show ?thesis using True by auto
  next
    case False
    let ?ok = "\<lambda>j. 0x21 \<le> cs ! j \<and> cs ! j \<le> 0x7E"
    have all: "(\<forall>j. i \<le> j \<and> j < k \<longrightarrow> ?ok j) \<longleftrightarrow> ?ok i \<and> (\<forall>j. Suc i \<le> j \<and> j < k \<longrightarrow> ?ok j)" if "i < k" for k
      using that by (auto simp: le_eq_less_or_eq [of i] Suc_le_eq)
    have "(\<exists>k. i \<le> k \<and> 0 < k \<and> k < i + Suc n \<and> cs ! k = 0 \<and> (\<forall>j. i \<le> j \<and> j < k \<longrightarrow> ?ok j))
        \<longleftrightarrow> (\<exists>k>i. k < i + Suc n \<and> cs ! k = 0 \<and> (\<forall>j. i \<le> j \<and> j < k \<longrightarrow> ?ok j))"
      using False by (metis le_neq_implies_less less_imp_le_nat not_less_zero neq0_conv)
    also have "\<dots> \<longleftrightarrow> ?ok i \<and> (\<exists>k>i. k < i + Suc n \<and> cs ! k = 0 \<and> (\<forall>j. Suc i \<le> j \<and> j < k \<longrightarrow> ?ok j))"
      using all by blast
    also have "\<dots> \<longleftrightarrow> ?ok i \<and> board_id_loop cs (Suc i) n = Some True"
      unfolding Suc.IH by (auto simp: Suc_le_eq)
    finally show ?thesis using False by (auto simp: not_less)
  qed
qed auto

lemma manifest_valid_iff:
  "manifest_valid (Some m) \<longleftrightarrow>
     m_magic m = 0x5557464A \<and> m_version m = 1 \<and> m_header_size m = 56 \<and> m_image_size m \<noteq> 0
     \<and> board_name_ok (m_board_id m)"
proof -
  have "board_name_ok (m_board_id m) \<longleftrightarrow> board_id_loop (m_board_id m) 0 32 = Some True"
    by (auto simp: board_id_loop_ok board_name_ok_def)
  then show ?thesis
    by (auto simp: manifest_valid_def fw_constants manifest_sizeof_def split: option.split)
qed

text \<open>The checksum by its definition: the reflected polynomial division, inverted at both ends.\<close>

lemma josh_fw_crc32_reference:
  "josh_fw_crc32 (Some bs) n = NOT (foldl (\<lambda>r b. (crc_step ^^ 8) (r XOR ucast b)) 0xFFFFFFFF (take n bs))"
proof -
  have "crc32_bytes_loop r xs = foldl (\<lambda>r b. (crc_step ^^ 8) (r XOR ucast b)) r xs" for r xs
    by (induction xs arbitrary: r) (simp_all only: crc32_bytes_loop.simps crc32_signed_bits_step foldl.simps)
  then show ?thesis by (simp add: josh_fw_crc32_def)
qed


section \<open>Traces\<close>

text \<open>What the firmware does with its state over time, rollbacks not allowed.\<close>

inductive fw_step :: "'c josh_fw_flash_backend \<Rightarrow> josh_fw_update_state \<times> 'c \<Rightarrow> josh_fw_update_state \<times> 'c \<Rightarrow> bool"
  for b where
  stage: "josh_fw_stage_update manifest img board (Some b) (Some s) False c = (status, Some s', c') \<Longrightarrow>
    fw_step b (s, c) (s', c')"
| select: "josh_fw_select_boot_slot (Some s) max_attempts = (slot, Some s') \<Longrightarrow> fw_step b (s, c) (s', c)"
| good: "josh_fw_mark_boot_good (Some s) slot = (marked, Some s') \<Longrightarrow> fw_step b (s, c) (s', c)"

inductive_cases fw_stepE: "fw_step b (s, c) (s', c')"

definition fw_inv :: "'c josh_fw_flash_backend \<Rightarrow> josh_fw_update_state \<Rightarrow> bool" where
  "fw_inv b s \<longleftrightarrow>
     state_valid (Some s) (Some b)
     \<and> (pending_slot s = JOSH_FW_SLOT_NONE
        \<or> pending_slot s \<noteq> active_slot s \<and> active_generation s < pending_generation s)"

lemma state_valid_iff:
  "state_valid (Some s) (Some b) \<longleftrightarrow>
     2 \<le> slot_count b \<and> active_slot s < slot_count b \<and> previous_good_slot s < slot_count b
     \<and> (pending_slot s = JOSH_FW_SLOT_NONE \<or> pending_slot s < slot_count b)"
  by (auto simp: state_valid_def not_less not_le)

lemma fw_step_inv:
  assumes "fw_step b (s, c) (s', c')" "fw_inv b s"
  shows "fw_inv b s' \<and> active_generation s \<le> active_generation s'
    \<and> (active_slot s' = active_slot s \<or> active_slot s' = pending_slot s \<and> pending_slot s' = JOSH_FW_SLOT_NONE)"
proof -
  consider (stage) manifest img board status where
      "josh_fw_stage_update manifest img board (Some b) (Some s) False c = (status, Some s', c')"
    | (select) max_attempts slot where "josh_fw_select_boot_slot (Some s) max_attempts = (slot, Some s')"
    | (good) slot marked where "josh_fw_mark_boot_good (Some s) slot = (marked, Some s')"
    using assms(1) by (elim fw_stepE) blast+
  then show ?thesis
  proof cases
    case st: stage
    show ?thesis
    proof (cases "status = JOSH_FW_UPDATE_OK")
      case True
      with st have "josh_fw_stage_update manifest img board (Some b) (Some s) False c
          = (JOSH_FW_UPDATE_OK, Some s', c')" by simp
      then obtain m :: josh_fw_update_manifest where "False \<or> active_generation s < m_generation m"
        "(active_slot s + 1) mod slot_count b \<noteq> active_slot s"
        "Some s' = Some (s\<lparr> previous_good_slot := active_slot s,
          pending_slot := (active_slot s + 1) mod slot_count b,
          pending_generation := m_generation m, pending_attempts := 0 \<rparr>)"
        by (rule stage_update_OK) blast
      then show ?thesis
        using assms(2) next_slot_bound [of b "active_slot s"] by (auto simp: fw_inv_def state_valid_iff)
    next
      case False
      then show ?thesis using stage_update_failed [OF st] assms(2) by simp
    qed
  next
    case select
    then show ?thesis
      using assms(2)
      by (auto simp: josh_fw_select_boot_slot_def fw_inv_def state_valid_iff Let_def split: if_split_asm)
  next
    case good
    then show ?thesis
      using assms(2)
      by (auto simp: josh_fw_mark_boot_good_def fw_inv_def state_valid_iff split: if_split_asm)
  qed
qed

text \<open>
  C32. Firmware never goes backwards: along every sequence of staging attempts, boots and
  confirmations without a permitted rollback, the slot numbers stay valid, a pending update is in
  another slot than the active one and newer than it, and the generation of the active firmware
  never decreases.
\<close>

theorem fw_no_downgrade:
  assumes "(fw_step b)\<^sup>*\<^sup>* (s, c) (s', c')" "fw_inv b s"
  shows "fw_inv b s' \<and> active_generation s \<le> active_generation s'"
  using assms(1)
proof (induction "(s', c')" arbitrary: s' c' rule: rtranclp_induct)
  case base
  then show ?case using assms(2) by simp
next
  case (step y)
  obtain s1 c1 where y: "y = (s1, c1)" by (cases y)
  from step(3) [OF y] have "fw_inv b s1" "active_generation s \<le> active_generation s1" by simp_all
  with fw_step_inv [OF step(2) [unfolded y]] show ?case by auto
qed

section \<open>Trials\<close>

text \<open>The slots chosen by successive boots when none of them is confirmed.\<close>

fun boots :: "josh_fw_update_state option \<Rightarrow> u32 \<Rightarrow> nat \<Rightarrow> u32 list" where
  "boots state max_attempts 0 = []"
| "boots state max_attempts (Suc n) =
     (case josh_fw_select_boot_slot state max_attempts of
        (slot, state') \<Rightarrow> slot # boots state' max_attempts n)"

definition attempt_limit :: "u32 \<Rightarrow> nat" where
  "attempt_limit max_attempts = (if max_attempts = 0 then 3 else unat max_attempts)"

lemma boots_none_pending:
  "pending_slot s = JOSH_FW_SLOT_NONE \<Longrightarrow> boots (Some s) max_attempts n = replicate n (active_slot s)"
  by (induction n) (simp_all add: josh_fw_select_boot_slot_def Let_def)

lemma select_pending:
  assumes "pending_slot s \<noteq> JOSH_FW_SLOT_NONE"
  shows "unat (pending_attempts s) < attempt_limit max_attempts \<Longrightarrow>
      josh_fw_select_boot_slot (Some s) max_attempts
        = (pending_slot s, Some (s\<lparr> pending_attempts := pending_attempts s + 1 \<rparr>))
      \<and> unat (pending_attempts s + 1) = unat (pending_attempts s) + 1"
    and "attempt_limit max_attempts \<le> unat (pending_attempts s) \<Longrightarrow>
      josh_fw_select_boot_slot (Some s) max_attempts
        = (active_slot s, Some (s\<lparr> pending_slot := JOSH_FW_SLOT_NONE, pending_generation := 0,
             pending_attempts := 0 \<rparr>))"
proof -
  have lim: "attempt_limit max_attempts
      = unat (if max_attempts = 0 then JOSH_FW_MAX_ATTEMPTS else max_attempts)"
    by (simp add: attempt_limit_def JOSH_FW_MAX_ATTEMPTS_def)
  then have bound: "attempt_limit max_attempts < 2 ^ 32"
    using unsigned_less [where ?'a = nat] by (metis len_num1 len_bit0 mult_2 numeral_Bit0 one_add_one)
  {
    assume "unat (pending_attempts s) < attempt_limit max_attempts"
    then show "josh_fw_select_boot_slot (Some s) max_attempts
        = (pending_slot s, Some (s\<lparr> pending_attempts := pending_attempts s + 1 \<rparr>))
      \<and> unat (pending_attempts s + 1) = unat (pending_attempts s) + 1"
      using assms bound lim
      by (auto simp: josh_fw_select_boot_slot_def Let_def word_le_nat_alt unat_word_ariths)
  next
    assume "attempt_limit max_attempts \<le> unat (pending_attempts s)"
    then show "josh_fw_select_boot_slot (Some s) max_attempts
        = (active_slot s, Some (s\<lparr> pending_slot := JOSH_FW_SLOT_NONE, pending_generation := 0,
             pending_attempts := 0 \<rparr>))"
      using assms lim by (auto simp: josh_fw_select_boot_slot_def Let_def word_le_nat_alt)
  }
qed

lemma boots_pending:
  assumes "pending_slot s \<noteq> JOSH_FW_SLOT_NONE"
    and "unat (pending_attempts s) + k = attempt_limit max_attempts"
  shows "boots (Some s) max_attempts n = replicate (min n k) (pending_slot s) @ replicate (n - k) (active_slot s)"
  using assms
proof (induction n arbitrary: s k)
  case (Suc n)
  show ?case
  proof (cases k)
    case 0
    then show ?thesis using select_pending(2) [OF Suc.prems(1)] Suc.prems by (simp add: boots_none_pending)
  next
    case (Suc j)
    then have "unat (pending_attempts s) < attempt_limit max_attempts" using Suc.prems by simp
    from select_pending(1) [OF Suc.prems(1) this] show ?thesis
      using Suc.IH [of "s\<lparr> pending_attempts := pending_attempts s + 1 \<rparr>" j] Suc.prems Suc by simp
  qed
qed simp

text \<open>
  C33. An update that is never confirmed is tried a bounded number of times: successive boots use
  the pending slot exactly as often as the limit allows (three times when no limit is given) and
  then the active slot for ever.
\<close>

theorem fw_trial_bounded:
  assumes "pending_slot s \<noteq> JOSH_FW_SLOT_NONE" "pending_attempts s = 0"
  shows "boots (Some s) max_attempts n
    = replicate (min n (attempt_limit max_attempts)) (pending_slot s)
      @ replicate (n - attempt_limit max_attempts) (active_slot s)"
  using boots_pending [OF assms(1), of "attempt_limit max_attempts"] assms(2) by simp

definition trial_state :: josh_fw_update_state where
  "trial_state = \<lparr> active_slot = 0, previous_good_slot = 0, pending_slot = 1, pending_attempts = 0,
     active_generation = 7, pending_generation = 8 \<rparr>"

theorem fw_trial_bounded_witness: "boots (Some trial_state) 0 5 = [1, 1, 1, 0, 0]"
proof -
  have "pending_slot trial_state \<noteq> JOSH_FW_SLOT_NONE" "pending_attempts trial_state = 0"
    by (simp_all add: trial_state_def JOSH_FW_SLOT_NONE_def)
  from fw_trial_bounded [OF this, of 0 5] show ?thesis
    by (simp add: attempt_limit_def trial_state_def eval_nat_numeral)
qed

text \<open>
  On the test backend: when an update is pending in slot 1 and a second staging attempt fails to
  write, the state is unchanged, so that the next boot chooses the slot that has just been erased.
\<close>

lemma fw_failed_restage_keeps_pending:
  assumes "josh_fw_stage_update manifest img board (Some mock_backend) (Some s) allow flash
      = (JOSH_FW_UPDATE_WRITE_FAILED, s', flash')"
    and "active_slot s = 0" "pending_slot s = 1" "pending_attempts s = 0"
  shows "s' = Some s \<and> mock_data flash' 1 = replicate 4096 0xFF
    \<and> fst (josh_fw_select_boot_slot s' max_attempts) = 1"
proof -
  have st: "s' = Some s" using stage_update_failed [OF assms(1)] by simp
  have "mock_slots flash' 1 = (\<lambda>i. 0xFF)"
    using assms(1,2)
    by (auto simp: josh_fw_stage_update_def Let_def mock_backend_def mock_erase_slot_def mock_write_slot_def
      split: option.splits if_split_asm prod.splits bool.splits)
  then have "mock_data flash' 1 = replicate 4096 0xFF"
    by (simp add: mock_data_def map_replicate_const)
  moreover have "fst (josh_fw_select_boot_slot s' max_attempts) = 1"
    using assms(3,4) st
    by (simp add: josh_fw_select_boot_slot_def Let_def JOSH_FW_SLOT_NONE_def JOSH_FW_MAX_ATTEMPTS_def)
  ultimately show ?thesis using st by simp
qed

section \<open>A run\<close>

text \<open>A two-byte image for the board \<open>q\<close>, staged in slot 1 of an erased flash.\<close>

definition run_image :: bytes where "run_image = [0x4A, 0x42]"

definition run_manifest :: josh_fw_update_manifest where
  "run_manifest = \<lparr> m_magic = 0x5557464a, m_version = 1, m_header_size = 56,
     m_board_id = 0x71 # 0 # replicate 30 0, m_generation = 8, m_image_size = 2,
     m_image_crc32 = josh_fw_crc32 (Some run_image) 2 \<rparr>"

definition run_state :: josh_fw_update_state where
  "run_state = trial_state\<lparr> pending_slot := 0xFFFFFFFF, pending_generation := 0 \<rparr>"

definition run_flash :: "bool \<Rightarrow> mock_flash" where
  "run_flash broken = \<lparr> mock_slots = \<lambda>slot i. 0xA5, fail_write = broken, corrupt_after_write = False,
     erase_calls = 0, write_calls = 0 \<rparr>"

definition run_written :: mock_flash where
  "run_written = (run_flash False)\<lparr> erase_calls := 1, write_calls := 1,
     mock_slots := (\<lambda>slot i. 0xA5)(1 := \<lambda>i. if i < 2 then run_image ! i else 0xFF) \<rparr>"

lemma slot_one_small [simp]: "\<not> (2 :: u32) \<le> 1"
  by (simp add: word_le_nat_alt)

lemma loop_numerals [simp]:
  "board_id_loop cs i (numeral k) =
     (if cs ! i = 0 then Some (i \<noteq> 0)
      else if cs ! i < 0x21 \<or> cs ! i > 0x7E then None
      else board_id_loop cs (i + 1) (pred_numeral k))"
  "text_equal_loop (x # a) (y # b) (numeral k) =
     (if x \<noteq> y then False else if x = 0 then True else text_equal_loop a b (pred_numeral k))"
  by (simp_all add: numeral_eq_Suc)

lemma run_valid:
  "manifest_valid (Some run_manifest)"
  "text_equal (Some (m_board_id run_manifest)) (Some [0x71, 0]) 32"
  by (simp_all add: manifest_valid_def run_manifest_def fw_constants manifest_sizeof_def text_equal_def)

lemma run_verify: "verify_loop mock_read_slot run_written 1 run_image 2 0 = (run_written, True)"
  by (simp add: verify_loop.simps [of _ _ _ _ 2] chunk_length_def Let_def VERIFY_CHUNK_def
    mock_read_slot_def run_written_def run_image_def upt_conv_Cons)

lemma run_stage:
  "josh_fw_stage_update (Some run_manifest) (Some run_image) (Some [0x71, 0]) (Some mock_backend)
     (Some run_state) False (run_flash False) = (JOSH_FW_UPDATE_OK, Some trial_state, run_written)"
  (is "?run = _")
proof -
  have er: "mock_erase_slot (run_flash False) 1
      = ((run_flash False)\<lparr> mock_slots := (\<lambda>slot i. 0xA5)(1 := \<lambda>i. 0xFF), erase_calls := 1 \<rparr>, True)"
    by (simp add: mock_erase_slot_def run_flash_def)
  have wr: "mock_write_slot ((run_flash False)\<lparr> mock_slots := (\<lambda>slot i. 0xA5)(1 := \<lambda>i. 0xFF), erase_calls := 1 \<rparr>)
      1 0 run_image 2 = (run_written, True)"
    by (simp add: mock_write_slot_def run_flash_def run_written_def Let_def fun_eq_iff)
  show ?thesis
    using run_valid run_verify er wr
    by (simp add: josh_fw_stage_update_def mock_backend_def state_valid_def run_state_def trial_state_def
      run_manifest_def fw_constants Let_def)
qed

theorem stage_update_safe_witness:
  "mock_data run_written 0 = mock_data (run_flash False) 0"
  using stage_update_safe [OF mock.fw_flash_axioms run_stage] by (simp add: run_state_def trial_state_def)

theorem stage_update_verified_witness:
  "take 2 (mock_data run_written 1) = run_image \<and> pending_slot trial_state = 1"
proof -
  have "length (m_board_id run_manifest) = 32" "0 \<in> set [0x71, 0 :: u8]"
    "unat (m_image_size run_manifest) \<le> length run_image"
    by (simp_all add: run_manifest_def run_image_def)
  from stage_update_verified [OF mock.fw_flash_axioms run_stage this] show ?thesis
    by (simp add: run_manifest_def run_image_def trial_state_def)
qed

theorem fw_no_downgrade_witness:
  "fw_inv mock_backend trial_state \<and> active_generation run_state \<le> active_generation trial_state"
proof -
  have "(fw_step mock_backend)\<^sup>*\<^sup>* (run_state, run_flash False) (trial_state, run_written)"
    by (rule r_into_rtranclp, rule fw_step.stage, rule run_stage)
  moreover have "fw_inv mock_backend run_state"
    by (simp add: fw_inv_def state_valid_iff mock_backend_def run_state_def trial_state_def JOSH_FW_SLOT_NONE_def)
  ultimately show ?thesis by (rule fw_no_downgrade)
qed


end
