(* ===== verification/JB_Memory.thy ===== *)
theory JB_Memory
  imports JB_Prelude
begin

text \<open>
  Physical memory of the two boot loaders: a function from addresses to bytes, over 32-bit
  addresses for the BIOS loader and 64-bit addresses for the UEFI loader. The byte loops
  \<open>memzero\<close> and \<open>memcopy\<close> of \<open>boot/stage2_pm.c\<close> and \<open>boot/uefi/main.c\<close> work on one memory, so a
  copy whose source and destination overlap behaves as the C loop does.
\<close>

type_synonym 'a memory = "'a word \<Rightarrow> u8"

fun memzero :: "'a :: len memory \<Rightarrow> 'a word \<Rightarrow> nat \<Rightarrow> 'a memory" where
  "memzero m d 0 = m"
| "memzero m d (Suc n) = memzero (m(d := 0)) (d + 1) n"

fun memcopy :: "'a :: len memory \<Rightarrow> 'a word \<Rightarrow> 'a word \<Rightarrow> nat \<Rightarrow> 'a memory" where
  "memcopy m d s 0 = m"
| "memcopy m d s (Suc n) = memcopy (m(d := m s)) (d + 1) (s + 1) n"

text \<open>A copy from an object outside the modelled memory (a local array, a string literal).\<close>

fun mem_store :: "'a :: len memory \<Rightarrow> 'a word \<Rightarrow> bytes \<Rightarrow> 'a memory" where
  "mem_store m d [] = m"
| "mem_store m d (b # bs) = mem_store (m(d := b)) (d + 1) bs"

definition mem_bytes :: "'a :: len memory \<Rightarrow> 'a word \<Rightarrow> nat \<Rightarrow> bytes" where
  "mem_bytes m a n = map (\<lambda>i. m (a + of_nat i)) [0..<n]"

lemma length_mem_bytes [simp]: "length (mem_bytes m a n) = n"
  by (simp add: mem_bytes_def)

lemma nth_mem_bytes [simp]: "i < n \<Longrightarrow> mem_bytes m a n ! i = m (a + of_nat i)"
  by (simp add: mem_bytes_def)

section \<open>Regions\<close>

text \<open>The addresses of \<open>n\<close> bytes from \<open>a\<close>, wrapping as pointers do.\<close>

definition region :: "'a :: len word \<Rightarrow> nat \<Rightarrow> 'a word set" where
  "region a n = {x. unat (x - a) < n}"

lemma region_0 [simp]: "region a 0 = {}"
  by (simp add: region_def)

lemma region_self [simp]: "0 < n \<Longrightarrow> a \<in> region a n"
  by (simp add: region_def)

lemma unat_dec: "(x :: 'a :: len word) \<noteq> 0 \<Longrightarrow> unat (x - 1) = unat x - 1"
  by (simp add: unat_sub_if' unat_gt_0 Suc_leI)

lemma region_next:
  assumes "Suc n \<le> 2 ^ LENGTH('a)"
  shows "x \<in> region (a + 1) n \<longleftrightarrow> x \<noteq> a \<and> x \<in> region (a :: 'a :: len word) (Suc n)"
proof (cases "x = a")
  case True
  have "unat (- 1 :: 'a word) = 2 ^ LENGTH('a) - 1"
    by (simp add: unsigned_minus_1_eq_mask mask_eq_exp_minus_1)
  then show ?thesis using True assms by (simp add: region_def)
next
  case False
  then have "unat (x - (a + 1)) = unat (x - a) - 1" "0 < unat (x - a)"
    using unat_dec [of "x - a"] by (simp_all add: diff_diff_eq [symmetric] unat_gt_0)
  then show ?thesis using False by (auto simp: region_def)
qed

lemma region_Suc:
  assumes "Suc n \<le> 2 ^ LENGTH('a)"
  shows "region (a :: 'a :: len word) (Suc n) = insert a (region (a + 1) n)"
  using region_next [OF assms] by auto

lemma region_bounds:
  assumes "unat a + n \<le> 2 ^ LENGTH('a)"
  shows "x \<in> region (a :: 'a :: len word) n \<longleftrightarrow> unat a \<le> unat x \<and> unat x < unat a + n"
proof (cases "a \<le> x")
  case True
  then show ?thesis by (auto simp: region_def unat_diff_le word_le_nat_alt)
next
  case False
  then have "unat x < unat a" by (simp add: word_le_nat_alt)
  moreover then have "unat (x - a) = 2 ^ LENGTH('a) + unat x - unat a"
    using unsigned_less [of a, where ?'a = nat] by (simp add: unat_sub_if')
  ultimately show ?thesis using assms by (auto simp: region_def)
qed

section \<open>What the loops do\<close>

lemma mem_store_apply:
  fixes m :: "'a :: len memory"
  assumes "length bs \<le> 2 ^ LENGTH('a)"
  shows "mem_store m d bs x = (if x \<in> region d (length bs) then bs ! unat (x - d) else m x)"
  using assms
proof (induction bs arbitrary: m d)
  case (Cons b bs)
  have len: "Suc (length bs) \<le> 2 ^ LENGTH('a)" using Cons.prems by simp
  show ?case
  proof (cases "x = d")
    case True
    then show ?thesis using Cons.IH [of "m(d := b)" "d + 1"] Cons.prems region_next [OF len, of d d]
      by (simp add: fun_upd_def)
  next
    case False
    then have "unat (x - (d + 1)) = unat (x - d) - 1" "0 < unat (x - d)"
      using unat_dec [of "x - d"] by (simp_all add: diff_diff_eq [symmetric] unat_gt_0)
    then show ?thesis
      using Cons.IH [of "m(d := b)" "d + 1"] Cons.prems region_next [OF len, of x d] False
      by (simp add: nth_Cons' fun_upd_def)
  qed
qed simp

lemma memzero_store: "memzero m d n = mem_store m d (replicate n 0)"
  by (induction m d n rule: memzero.induct) (simp_all add: fun_upd_def)

text \<open>A copy whose source is not overwritten before it is read delivers the source bytes.\<close>

lemma memcopy_store:
  fixes m :: "'a :: len memory"
  assumes "region s n \<inter> region d n = {}" "n \<le> 2 ^ LENGTH('a)"
  shows "memcopy m d s n = mem_store m d (mem_bytes m s n)"
  using assms
proof (induction n arbitrary: m d s)
  case (Suc n)
  have disj: "region (s + 1) n \<inter> region (d + 1) n = {}" "d \<notin> region (s + 1) n"
    using Suc.prems region_Suc [of n s] region_Suc [of n d] by auto
  have "mem_bytes (m(d := m s)) (s + 1) n = mem_bytes m (s + 1) n"
  proof (rule nth_equalityI, simp)
    fix i
    assume "i < length (mem_bytes (m(d := m s)) (s + 1) n)"
    then have i: "i < n" by simp
    then have "i < 2 ^ LENGTH('a)" using Suc.prems(2) by linarith
    with i have "s + 1 + of_nat i \<in> region (s + 1) n"
      by (simp add: region_def unat_of_nat take_bit_nat_eq_self)
    with disj(2) have "s + 1 + of_nat i \<noteq> d" by blast
    with i show "mem_bytes (m(d := m s)) (s + 1) n ! i = mem_bytes m (s + 1) n ! i" by simp
  qed
  moreover have "mem_bytes m s (Suc n) = m s # mem_bytes m (s + 1) n"
    by (simp add: mem_bytes_def map_Suc_upt [symmetric] upt_conv_Cons comp_def add.assoc del: upt_Suc)
  ultimately show ?case using Suc.IH [OF disj(1), of "m(d := m s)"] Suc.prems by (simp add: fun_upd_def)
qed (simp add: mem_bytes_def)

lemma memcopy_frame:
  fixes m :: "'a :: len memory"
  assumes "n \<le> 2 ^ LENGTH('a)" "x \<notin> region d n"
  shows "memcopy m d s n x = m x"
  using assms
proof (induction n arbitrary: m d s)
  case (Suc n)
  then have "x \<noteq> d" "x \<notin> region (d + 1) n" using region_Suc [of n d] by auto
  then show ?case using Suc by simp
qed simp

lemma memzero_frame:
  fixes m :: "'a :: len memory"
  assumes "n \<le> 2 ^ LENGTH('a)" "x \<notin> region d n"
  shows "memzero m d n x = m x"
  using assms by (simp add: memzero_store mem_store_apply)

lemma mem_bytes_eqI:
  assumes "\<And>x. x \<in> region a n \<Longrightarrow> m x = m' x" "n \<le> 2 ^ LENGTH('a)"
  shows "mem_bytes m (a :: 'a :: len word) n = mem_bytes m' a n"
proof (rule nth_equalityI, simp)
  fix i
  assume "i < length (mem_bytes m a n)"
  then have i: "i < n" by simp
  then have "i < 2 ^ LENGTH('a)" using assms(2) by linarith
  with i have "a + of_nat i \<in> region a n"
    by (simp add: region_def unat_of_nat take_bit_nat_eq_self)
  with i show "mem_bytes m a n ! i = mem_bytes m' a n ! i" by (simp add: assms(1))
qed

lemma mem_bytes_store:
  fixes m :: "'a :: len memory"
  assumes "length bs \<le> 2 ^ LENGTH('a)"
  shows "mem_bytes (mem_store m a bs) a (length bs) = bs"
proof (rule nth_equalityI, simp)
  fix i
  assume "i < length (mem_bytes (mem_store m a bs) a (length bs))"
  then have i: "i < length bs" by simp
  then have "i < 2 ^ LENGTH('a)" using assms by linarith
  with i show "mem_bytes (mem_store m a bs) a (length bs) ! i = bs ! i"
    using mem_store_apply [OF assms, of m a "a + of_nat i"]
    by (simp add: region_def unat_of_nat take_bit_nat_eq_self)
qed

lemma mem_bytes_frame:
  fixes m :: "'a :: len memory"
  assumes "region a n \<inter> region d (length bs) = {}" "n \<le> 2 ^ LENGTH('a)" "length bs \<le> 2 ^ LENGTH('a)"
  shows "mem_bytes (mem_store m d bs) a n = mem_bytes m a n"
  using assms by (intro mem_bytes_eqI) (auto simp: mem_store_apply)

lemma mem_store_append: "mem_store (mem_store m d xs) (d + of_nat (length xs)) ys = mem_store m d (xs @ ys)"
proof (induction xs arbitrary: m d)
  case (Cons x xs)
  have "d + of_nat (length (x # xs)) = d + 1 + of_nat (length xs)" by (simp add: ac_simps)
  with Cons.IH [of "m(d := x)" "d + 1"] show ?case by (simp only: mem_store.simps append_Cons)
qed simp

lemma mem_bytes_drop_take:
  "off + n \<le> len \<Longrightarrow> take n (drop off (mem_bytes m a len)) = mem_bytes m (a + of_nat off) n"
  by (rule nth_equalityI) (simp_all add: add.assoc)

end
