(* ===== verification/JB_Bios.thy ===== *)
theory JB_Bios
  imports JB_Block JB_Memory
begin

text \<open>
  Disk access of the BIOS loader: the entry checks of \<open>boot/bios_block.S\<close> and the chunked read of
  \<open>boot/stage2_pm.c\<close> through a bounce buffer below 1 MiB. The BIOS disk service itself (\<open>int 0x13\<close>,
  functions 42h and 43h) is firmware: a parameter with a disk state \<open>'d\<close>. A read that succeeds
  leaves bytes in the buffer the call names, given here by their offset; the bounce buffer and the
  health buffer are scratch memory that nothing else reads.
\<close>

section \<open>The disk service\<close>

record 'd bios =
  int13_read :: "'d \<Rightarrow> u64 \<Rightarrow> u32 \<Rightarrow> (nat \<Rightarrow> u8) option"
  int13_write :: "'d \<Rightarrow> u64 \<Rightarrow> u32 \<Rightarrow> bytes \<Rightarrow> 'd \<times> bool"

text \<open>The argument checks of \<open>bios_block_common\<close>: the transfer must end below 1 MiB.\<close>

definition bios_argument_ok :: "u32 \<Rightarrow> u32 \<Rightarrow> bool" where
  "bios_argument_ok sectors buffer \<longleftrightarrow>
     (if sectors = 0 then False
      else if sectors > 127 then False
      else if buffer \<ge> 0x00100000 then False
      else
        let finish = push_bit 9 sectors + buffer in
        if finish < buffer then False
        else \<not> finish > 0x00100000)"

definition bios_block_read :: "'d bios \<Rightarrow> 'd \<Rightarrow> u64 \<Rightarrow> u32 \<Rightarrow> u32 \<Rightarrow> (nat \<Rightarrow> u8) option" where
  "bios_block_read fw disk lba sectors buffer =
     (if bios_argument_ok sectors buffer then int13_read fw disk lba sectors else None)"

definition bios_block_write :: "'d bios \<Rightarrow> 'd \<Rightarrow> u64 \<Rightarrow> u32 \<Rightarrow> u32 \<Rightarrow> bytes \<Rightarrow> 'd \<times> bool" where
  "bios_block_write fw disk lba sectors buffer data =
     (if bios_argument_ok sectors buffer then int13_write fw disk lba sectors data else (disk, False))"

section \<open>The bounced read\<close>

definition BIOS_BOUNCE_ADDR :: u32 where "BIOS_BOUNCE_ADDR = 0x00060000"
definition BIOS_BOUNCE_SECTORS :: u32 where "BIOS_BOUNCE_SECTORS = 64"
definition BIOS_DEVICE_SECTORS :: u64 where "BIOS_DEVICE_SECTORS = 0x100000000"

definition bounce_chunk :: "u32 \<Rightarrow> u32" where
  "bounce_chunk remaining = (if remaining > BIOS_BOUNCE_SECTORS then BIOS_BOUNCE_SECTORS else remaining)"

lemma bounce_chunk_bounds:
  assumes "remaining \<noteq> 0"
  shows "0 < unat (bounce_chunk remaining)" "unat (bounce_chunk remaining) \<le> 64"
    and "bounce_chunk remaining \<le> remaining"
  using assms
  by (auto simp: bounce_chunk_def BIOS_BOUNCE_SECTORS_def word_less_nat_alt word_le_nat_alt unat_gt_0 not_less)

text \<open>The loop, with the bytes copied to the destination so far.\<close>

function bounced_loop :: "'d bios \<Rightarrow> 'd \<Rightarrow> u64 \<Rightarrow> u32 \<Rightarrow> bytes \<Rightarrow> bytes option" where
  "bounced_loop fw disk lba remaining destination =
     (if remaining \<noteq> 0
      then
        let chunk = bounce_chunk remaining
        in case bios_block_read fw disk lba chunk BIOS_BOUNCE_ADDR of
             None \<Rightarrow> None
           | Some bounce \<Rightarrow>
               let count = chunk * of_nat JOSH_BLOCK_SECTOR_SIZE
               in bounced_loop fw disk (lba + ucast chunk) (remaining - chunk)
                    (destination @ map bounce [0..<unat count])
      else Some destination)"
  by pat_completeness auto
termination
proof (relation "measure (\<lambda>(fw, disk, lba, remaining, destination). unat remaining)", goal_cases)
  case (2 fw disk lba remaining destination chunk bounce count)
  then show ?case
    using bounce_chunk_bounds [OF 2(1)] by (auto simp: unat_diff_le word_le_nat_alt intro: diff_less)
qed simp

declare bounced_loop.simps [simp del]

definition bios_block_read_bounced :: "'d bios \<Rightarrow> 'd \<Rightarrow> bool \<Rightarrow> u64 \<Rightarrow> u32 \<Rightarrow> bytes option" where
  "bios_block_read_bounced fw disk buffer lba sectors =
     (if \<not> buffer \<or> sectors = 0 then None else bounced_loop fw disk lba sectors [])"

text \<open>The device that \<open>load_kernel_file\<close> hands to the storage code.\<close>

definition bios_device :: "'d bios \<Rightarrow> 'd \<Rightarrow> josh_block_device" where
  "bios_device fw disk =
     \<lparr> dev_sector_count = BIOS_DEVICE_SECTORS,
       dev_read = Some (bios_block_read_bounced fw disk True) \<rparr>"

section \<open>It is a block driver\<close>

lemma unat_push_bit_9:
  assumes "unat (n :: u32) \<le> 127"
  shows "unat (push_bit 9 n) = 512 * unat n"
proof -
  have "unat n * 512 < 2 ^ 32" using assms by simp
  then show ?thesis
    by (simp add: push_bit_eq_mult unat_word_ariths mult.commute)
qed

lemma bounce_argument_ok:
  assumes "0 < unat n" "unat n \<le> 64"
  shows "bios_argument_ok n BIOS_BOUNCE_ADDR"
proof -
  have "unat (push_bit 9 n + BIOS_BOUNCE_ADDR) = 512 * unat n + 0x60000"
    using assms unat_push_bit_9 [of n]
    by (subst unat_add_lem [THEN iffD1]) (simp_all add: BIOS_BOUNCE_ADDR_def)
  then show ?thesis
    using assms by (auto simp: bios_argument_ok_def Let_def BIOS_BOUNCE_ADDR_def word_less_nat_alt word_le_nat_alt)
qed

lemma bounce_count:
  assumes "remaining \<noteq> 0"
  shows "unat (bounce_chunk remaining * of_nat JOSH_BLOCK_SECTOR_SIZE) = 512 * unat (bounce_chunk remaining)"
  using bounce_chunk_bounds(2) [OF assms]
  by (subst unat_mult_lem [THEN iffD1]) (simp_all add: JOSH_BLOCK_SECTOR_SIZE_def)

lemma bounced_step:
  assumes "remaining \<noteq> 0"
  shows "bounced_loop fw disk lba remaining out =
    (case int13_read fw disk lba (bounce_chunk remaining) of
       None \<Rightarrow> None
     | Some bounce \<Rightarrow>
         bounced_loop fw disk (lba + ucast (bounce_chunk remaining)) (remaining - bounce_chunk remaining)
           (out @ map bounce [0..<512 * unat (bounce_chunk remaining)]))"
  using assms bounce_chunk_bounds [OF assms]
  by (subst bounced_loop.simps) (simp add: bios_block_read_def bounce_argument_ok bounce_count Let_def cong: option.case_cong)

lemma bounced_loop_0 [simp]: "bounced_loop fw disk lba 0 out = Some out"
  by (simp add: bounced_loop.simps)

lemma bounced_loop_length:
  "bounced_loop fw disk lba remaining out = Some bs \<Longrightarrow> length bs = length out + 512 * unat remaining"
proof (induction fw disk lba remaining out rule: bounced_loop.induct)
  case (1 fw disk lba remaining out)
  show ?case
  proof (cases "remaining = 0")
    case False
    then obtain bounce where rd: "int13_read fw disk lba (bounce_chunk remaining) = Some bounce"
      and rest: "bounced_loop fw disk (lba + ucast (bounce_chunk remaining)) (remaining - bounce_chunk remaining)
        (out @ map bounce [0..<512 * unat (bounce_chunk remaining)]) = Some bs"
      using 1(2) by (auto simp: bounced_step split: option.splits)
    have "bios_block_read fw disk lba (bounce_chunk remaining) BIOS_BOUNCE_ADDR = Some bounce"
      using rd bounce_chunk_bounds [OF False] by (simp add: bios_block_read_def bounce_argument_ok)
    from 1(1) [OF False refl this refl] rest
    have "length bs = length out + 512 * unat (bounce_chunk remaining)
        + 512 * unat (remaining - bounce_chunk remaining)"
      by (simp add: bounce_count [OF False])
    then show ?thesis
      using bounce_chunk_bounds [OF False] by (simp add: unat_diff_le word_le_nat_alt)
  qed (use 1(2) in simp)
qed

interpretation bounced: block_driver "bios_block_read_bounced fw disk buffer" for fw disk buffer
proof
  fix lba n bs
  assume "bios_block_read_bounced fw disk buffer lba n = Some bs"
  then show "length bs = JOSH_BLOCK_SECTOR_SIZE * unat n"
    by (auto simp: bios_block_read_bounced_def JOSH_BLOCK_SECTOR_SIZE_def dest: bounced_loop_length
      split: if_split_asm)
qed

lemma bios_device_fills [simp]: "device_fills_sectors (bios_device fw disk)"
  by (rule driver_fills_sectors [OF bounced.block_driver_axioms]) (simp add: bios_device_def)

lemma bios_device_sectors [simp]: "dev_sector_count (bios_device fw disk) = 0x100000000"
  by (simp add: bios_device_def BIOS_DEVICE_SECTORS_def)

section \<open>It reads what the disk holds\<close>

definition disk_bytes :: "(u64 \<Rightarrow> bytes) \<Rightarrow> u64 \<Rightarrow> nat \<Rightarrow> bytes" where
  "disk_bytes f lba n = concat (map (\<lambda>i. f (lba + of_nat i)) [0..<n])"

lemma disk_bytes_add:
  "disk_bytes f lba (m + n) = disk_bytes f lba m @ disk_bytes f (lba + of_nat m) n"
  by (induction n) (simp_all add: disk_bytes_def add.assoc)

lemma length_disk_bytes: "(\<And>x. length (f x) = 512) \<Longrightarrow> length (disk_bytes f lba n) = 512 * n"
  by (induction n) (simp_all add: disk_bytes_def)

text \<open>
  The documented behaviour of the disk service on a disk of \<open>N\<close> sectors: a transfer of up to 127
  sectors that lies on the disk delivers them, any other is refused.
\<close>

definition bios_reads_disk :: "'d bios \<Rightarrow> 'd \<Rightarrow> (u64 \<Rightarrow> bytes) \<Rightarrow> nat \<Rightarrow> bool" where
  "bios_reads_disk fw disk f N \<longleftrightarrow>
     (\<forall>lba. length (f lba) = 512)
     \<and> (\<forall>lba n. 0 < unat n \<and> unat n \<le> 127 \<longrightarrow>
          int13_read fw disk lba n
            = (if unat lba + unat n \<le> N then Some (\<lambda>i. disk_bytes f lba (unat n) ! i) else None))"

lemma bounced_loop_disk:
  assumes "bios_reads_disk fw disk f N" "N < 2 ^ 64"
  shows "bounced_loop fw disk lba remaining out =
    (if remaining = 0 \<or> unat lba + unat remaining \<le> N then Some (out @ disk_bytes f lba (unat remaining)) else None)"
  using assms(1)
proof (induction fw disk lba remaining out rule: bounced_loop.induct)
  case (1 fw disk lba remaining out)
  show ?case
  proof (cases "remaining = 0")
    case False
    let ?c = "bounce_chunk remaining"
    let ?rest = "remaining - ?c"
    note b = bounce_chunk_bounds [OF False]
    have sum: "unat ?c + unat ?rest = unat remaining"
      using b(3) by (simp add: unat_diff_le word_le_nat_alt)
    have rd: "int13_read fw disk lba ?c =
        (if unat lba + unat ?c \<le> N then Some (\<lambda>i. disk_bytes f lba (unat ?c) ! i) else None)"
      using 1(2) b(1,2) by (simp add: bios_reads_disk_def)
    show ?thesis
    proof (cases "unat lba + unat ?c \<le> N")
      case fits: True
      have "unat lba + unat (ucast ?c :: u64) < 2 ^ LENGTH(64)"
        using fits assms(2) by simp
      then have next_lba: "unat (lba + ucast ?c) = unat lba + unat ?c"
        by (simp add: unat_add_lem [THEN iffD1])
      have len: "length (disk_bytes f lba (unat ?c)) = 512 * unat ?c"
        using 1(2) by (intro length_disk_bytes) (simp add: bios_reads_disk_def)
      have bounce: "map (\<lambda>i. disk_bytes f lba (unat ?c) ! i) [0..<512 * unat ?c] = disk_bytes f lba (unat ?c)"
        using len by (metis map_nth)
      have "bios_block_read fw disk lba ?c BIOS_BOUNCE_ADDR = Some (\<lambda>i. disk_bytes f lba (unat ?c) ! i)"
        using rd fits b by (simp add: bios_block_read_def bounce_argument_ok)
      from 1(1) [OF False refl this refl 1(2), unfolded bounce_count [OF False] bounce next_lba]
      have "bounced_loop fw disk (lba + ucast ?c) ?rest (out @ disk_bytes f lba (unat ?c)) =
        (if ?rest = 0 \<or> unat lba + unat remaining \<le> N
         then Some (out @ disk_bytes f lba (unat ?c) @ disk_bytes f (lba + ucast ?c) (unat ?rest)) else None)"
        unfolding add.assoc sum append_assoc .
      moreover have "bounced_loop fw disk lba remaining out
          = bounced_loop fw disk (lba + ucast ?c) ?rest (out @ disk_bytes f lba (unat ?c))"
        using bounced_step [OF False, of fw disk lba out] rd fits bounce by simp
      moreover have "disk_bytes f lba (unat remaining)
          = disk_bytes f lba (unat ?c) @ disk_bytes f (lba + ucast ?c) (unat ?rest)"
        unfolding sum [symmetric] disk_bytes_add by simp
      moreover have "?rest = 0 \<or> unat lba + unat remaining \<le> N \<longleftrightarrow> unat lba + unat remaining \<le> N"
      proof
        assume "?rest = 0 \<or> unat lba + unat remaining \<le> N"
        moreover have "unat remaining = unat ?c" if "?rest = 0"
          using sum unfolding that by simp
        ultimately show "unat lba + unat remaining \<le> N" using fits by auto
      qed blast
      ultimately show ?thesis by (simp only: False simp_thms)
    next
      case over: False
      then have "\<not> unat lba + unat remaining \<le> N" using sum by linarith
      with over False rd show ?thesis by (simp add: bounced_step)
    qed
  qed (simp add: disk_bytes_def)
qed

text \<open>
  C35. The bounce buffer is transparent: on a disk the BIOS serves in transfers of at most 127
  sectors, a read of any number of sectors is exactly the content of those sectors in order, and it
  fails exactly when part of the range is not on the disk. No chunk is lost, repeated or reordered,
  and every transfer stays below 1 MiB.
\<close>

theorem bounced_read_transparent:
  assumes "bios_reads_disk fw disk f N" "N < 2 ^ 64" "sectors \<noteq> 0"
  shows "bios_block_read_bounced fw disk True lba sectors =
    (if unat lba + unat sectors \<le> N then Some (concat (map (\<lambda>i. f (lba + of_nat i)) [0..<unat sectors])) else None)"
  using bounced_loop_disk [OF assms(1,2), of lba sectors "[]"] assms(3)
  by (simp add: bios_block_read_bounced_def disk_bytes_def)

text \<open>A firmware that holds the whole disk as a function from sectors to bytes.\<close>

definition sector_bios :: "nat \<Rightarrow> (u64 \<Rightarrow> bytes) bios" where
  "sector_bios N =
     \<lparr> int13_read = (\<lambda>f lba n. if unat lba + unat n \<le> N then Some (\<lambda>i. disk_bytes f lba (unat n) ! i) else None),
       int13_write = (\<lambda>f lba n data.
         if n = 1 \<and> unat lba + 1 \<le> N \<and> length data = 512 then (f(lba := data), True) else (f, False)) \<rparr>"

lemma sector_bios_reads:
  "(\<And>lba. length (f lba) = 512) \<Longrightarrow> bios_reads_disk (sector_bios N) f f N"
  by (simp add: bios_reads_disk_def sector_bios_def)

theorem bounced_read_transparent_witness:
  "bios_block_read_bounced (sector_bios 1000) (\<lambda>lba. replicate 512 (ucast lba)) True 5 100 =
     Some (concat (map (\<lambda>i. replicate 512 (ucast (5 + of_nat i :: u64))) [0..<100]))"
proof -
  have "bios_reads_disk (sector_bios 1000) (\<lambda>lba. replicate 512 (ucast lba)) (\<lambda>lba. replicate 512 (ucast lba)) 1000"
    by (rule sector_bios_reads) simp
  from bounced_read_transparent [OF this, of 100 5] show ?thesis by simp
qed

end
