(* ===== verification/JB_HealthStore.thy ===== *)
theory JB_HealthStore
  imports JB_Health JB_Bios JB_Config
begin

text \<open>
  Where the boot-health record is kept: two copies in two reserved sectors, the copy for an even
  generation in sector A and the one for an odd generation in sector B. Two programs use this
  store: the BIOS loader (\<open>health_read_copy\<close> to \<open>health_persist\<close> of \<open>boot/stage2_pm.c\<close>) and the host
  tool \<open>tools/josh-healthctl.c\<close>, which works on a disk image. The locale \<open>health_medium\<close> is what
  both rely on; it is interpreted on the image file of the tool and on a disk behind the BIOS.
\<close>

definition JOSH_BOOT_HEALTH_SECTOR_SIZE :: nat where "JOSH_BOOT_HEALTH_SECTOR_SIZE = 512"
definition JOSH_BOOT_HEALTH_LBA_A :: u64 where "JOSH_BOOT_HEALTH_LBA_A = 1984"
definition JOSH_BOOT_HEALTH_LBA_B :: u64 where "JOSH_BOOT_HEALTH_LBA_B = 1985"
definition HEALTH_BUFFER_ADDR :: u32 where "HEALTH_BUFFER_ADDR = 0x0005d000"

lemmas health_lba_defs = JOSH_BOOT_HEALTH_LBA_A_def JOSH_BOOT_HEALTH_LBA_B_def

lemma health_lba_neq [simp]:
  "JOSH_BOOT_HEALTH_LBA_A \<noteq> JOSH_BOOT_HEALTH_LBA_B" "JOSH_BOOT_HEALTH_LBA_B \<noteq> JOSH_BOOT_HEALTH_LBA_A"
  by (simp_all add: health_lba_defs)

text \<open>A record as \<open>memset\<close> leaves it, and the sector that holds a record: zeroed, then filled.\<close>

definition zero_record :: josh_boot_health_record where
  "zero_record = health_record_of_bytes (replicate health_sizeof 0)"

definition health_sector :: "josh_boot_health_record \<Rightarrow> bytes" where
  "health_sector r =
     health_record_bytes r @ drop health_sizeof (replicate JOSH_BOOT_HEALTH_SECTOR_SIZE 0)"

section \<open>The BIOS loader\<close>

text \<open>
  The state of the loader: the disk behind the BIOS, physical memory, the flag
  \<open>health_persistent_enabled\<close>, the messages written to the serial port and the settings written to
  its other registers. Messages are recorded whole; \<open>stage2_on_uart\<close> of \<open>JB_Stage2\<close> sends them byte by
  byte, with the wait for the line status bit.
\<close>

record 'd stage2 =
  s2_disk :: 'd
  s2_mem :: "u32 \<Rightarrow> u8"
  health_persistent_enabled :: bool
  s2_serial :: "string list"
  s2_uart :: "(u16 \<times> u8) list"

definition serial_write :: "string \<Rightarrow> 'd stage2 \<Rightarrow> 'd stage2" where
  "serial_write message st = st\<lparr> s2_serial := s2_serial st @ [message] \<rparr>"

lemma serial_write_fields [simp]:
  "s2_disk (serial_write m st) = s2_disk st" "s2_mem (serial_write m st) = s2_mem st"
  "health_persistent_enabled (serial_write m st) = health_persistent_enabled st"
  by (simp_all add: serial_write_def)

definition health_read_copy :: "'d bios \<Rightarrow> 'd \<Rightarrow> u64 \<Rightarrow> josh_boot_health_record
    \<Rightarrow> bool \<times> josh_boot_health_record" where
  "health_read_copy fw disk lba record0 =
     (case bios_block_read fw disk lba 1 HEALTH_BUFFER_ADDR of
        None \<Rightarrow> (False, record0)
      | Some buffer \<Rightarrow>
          let r = health_record_of_bytes (map buffer [0..<health_sizeof])
          in (josh_boot_health_valid (Some r), r))"

text \<open>The local \<open>verify\<close> is not initialised in the source; it is only looked at after a successful read.\<close>

definition health_write_copy :: "'d bios \<Rightarrow> 'd \<Rightarrow> u64 \<Rightarrow> josh_boot_health_record \<Rightarrow> bool \<times> 'd" where
  "health_write_copy fw disk lba r =
     (case bios_block_write fw disk lba 1 HEALTH_BUFFER_ADDR (health_sector r) of
        (disk', False) \<Rightarrow> (False, disk')
      | (disk', True) \<Rightarrow>
          (case health_read_copy fw disk' lba zero_record of
             (False, verify) \<Rightarrow> (False, disk')
           | (True, verify) \<Rightarrow> (generation verify = generation r \<and> h_checksum verify = h_checksum r, disk')))"

definition health_load :: "'d bios \<Rightarrow> 'd stage2 \<Rightarrow> bool \<times> josh_boot_health_record \<times> 'd stage2" where
  "health_load fw st =
     (let (have_a, a) = health_read_copy fw (s2_disk st) JOSH_BOOT_HEALTH_LBA_A zero_record;
          (have_b, b) = health_read_copy fw (s2_disk st) JOSH_BOOT_HEALTH_LBA_B zero_record;
          st1 = st\<lparr> health_persistent_enabled := False \<rparr>
      in if \<not> have_a \<and> \<not> have_b
         then (True, the (josh_boot_health_default (Some zero_record)),
               serial_write ''JOSHBOOT_HEALTH_VOLATILE_UNPROVISIONED\<newline>'' st1)
         else (True, the (snd (josh_boot_health_choose (Some a) (Some b) (Some zero_record))),
               serial_write ''JOSHBOOT_HEALTH_LOADED\<newline>'' (st1\<lparr> health_persistent_enabled := True \<rparr>)))"

definition health_lba_for :: "josh_boot_health_record \<Rightarrow> u64" where
  "health_lba_for r = (if generation r AND 1 \<noteq> 0 then JOSH_BOOT_HEALTH_LBA_B else JOSH_BOOT_HEALTH_LBA_A)"

definition health_persist :: "'d bios \<Rightarrow> josh_boot_health_record \<Rightarrow> 'd stage2 \<Rightarrow> bool \<times> 'd stage2" where
  "health_persist fw r st =
     (if \<not> health_persistent_enabled st
      then (False, serial_write ''JOSHBOOT_HEALTH_VOLATILE_NO_WRITE\<newline>'' st)
      else
        (case health_write_copy fw (s2_disk st) (health_lba_for r) r of
           (False, disk') \<Rightarrow>
             (False, serial_write ''JOSHBOOT_WARN_HEALTH_PERSIST\<newline>''
                (st\<lparr> s2_disk := disk', health_persistent_enabled := False \<rparr>))
         | (True, disk') \<Rightarrow>
             (True, serial_write ''JOSHBOOT_HEALTH_PERSISTED\<newline>'' (st\<lparr> s2_disk := disk' \<rparr>))))"

section \<open>The host tool\<close>

text \<open>
  The disk image as a stream opened for update: its bytes, and how large the file may grow. A read
  at a position delivers the whole sector or falls short; a write past the end fills the gap with
  zeros, and one that hits the limit is short, as on a full file system.
\<close>

record image_file =
  contents :: bytes
  size_limit :: nat

definition file_put :: "bytes \<Rightarrow> nat \<Rightarrow> bytes \<Rightarrow> bytes" where
  "file_put cs off bs =
     (let base = cs @ replicate (off - length cs) 0
      in take off base @ bs @ drop (off + length bs) base)"

definition sector_offset :: "u64 \<Rightarrow> nat" where
  "sector_offset lba = unat (lba * of_nat JOSH_BOOT_HEALTH_SECTOR_SIZE)"

definition fread_sector :: "image_file \<Rightarrow> u64 \<Rightarrow> bytes option" where
  "fread_sector img lba =
     (if sector_offset lba + JOSH_BOOT_HEALTH_SECTOR_SIZE \<le> length (contents img)
      then Some (take JOSH_BOOT_HEALTH_SECTOR_SIZE (drop (sector_offset lba) (contents img))) else None)"

definition fwrite_sector :: "image_file \<Rightarrow> u64 \<Rightarrow> bytes \<Rightarrow> image_file \<times> bool" where
  "fwrite_sector img lba sector =
     (let n = min (length sector) (size_limit img - sector_offset lba)
      in (if n = 0 then img else img\<lparr> contents := file_put (contents img) (sector_offset lba) (take n sector) \<rparr>,
          n = length sector))"

definition read_record :: "image_file \<Rightarrow> u64 \<Rightarrow> josh_boot_health_record option" where
  "read_record img lba =
     (case fread_sector img lba of
        None \<Rightarrow> None
      | Some sector \<Rightarrow> Some (health_record_of_bytes (take health_sizeof sector)))"

definition write_record :: "image_file \<Rightarrow> u64 \<Rightarrow> josh_boot_health_record \<Rightarrow> image_file \<times> bool" where
  "write_record img lba r = fwrite_sector img lba (health_sector r)"

definition load_state :: "image_file \<Rightarrow> bool \<times> josh_boot_health_record" where
  "load_state img =
     (let a = (case read_record img JOSH_BOOT_HEALTH_LBA_A of None \<Rightarrow> zero_record | Some r \<Rightarrow> r);
          b = (case read_record img JOSH_BOOT_HEALTH_LBA_B of None \<Rightarrow> zero_record | Some r \<Rightarrow> r);
          (found, out) = josh_boot_health_choose (Some a) (Some b) (Some zero_record)
      in (found, the out))"

definition persist :: "image_file \<Rightarrow> josh_boot_health_record \<Rightarrow> image_file \<times> bool" where
  "persist img r = write_record img (health_lba_for r) r"

definition parse_slot :: "string \<Rightarrow> u32 option" where
  "parse_slot name =
     (if name = ''current'' then Some JOSH_BOOT_SLOT_CURRENT
      else if name = ''previous'' then Some JOSH_BOOT_SLOT_PREVIOUS
      else if name = ''recovery'' then Some JOSH_BOOT_SLOT_RECOVERY
      else None)"

definition slot_name :: "u32 \<Rightarrow> string" where
  "slot_name slot =
     (if slot = JOSH_BOOT_SLOT_CURRENT then ''current''
      else if slot = JOSH_BOOT_SLOT_PREVIOUS then ''previous''
      else if slot = JOSH_BOOT_SLOT_RECOVERY then ''recovery''
      else ''invalid'')"

definition show_record :: "josh_boot_health_record \<Rightarrow> bytes list" where
  "show_record r =
     [ascii ''generation='' @ decimal_digits (unat (generation r)) @ [0x0A],
      ascii ''selected='' @ ascii (slot_name (selected_slot r)) @ [0x0A],
      ascii ''last_good='' @ ascii (slot_name (last_good_slot r)) @ [0x0A],
      ascii ''pending_good='' @ decimal_digits (unat (pending_good r)) @ [0x0A],
      ascii ''attempt_count='' @ decimal_digits (unat (attempt_count r)) @ [0x0A],
      ascii ''last_failure_stage='' @ decimal_digits (unat (last_failure_stage r)) @ [0x0A],
      ascii ''update_generation='' @ decimal_digits (unat (update_generation r)) @ [0x0A]]"

text \<open>The commands \<open>good\<close> and \<open>pending\<close> once the slot is known: apply the operation, save the result.\<close>

definition ctl_update :: "string \<Rightarrow> u32 \<Rightarrow> image_file \<Rightarrow> josh_boot_health_record
    \<Rightarrow> nat \<times> bytes list \<times> image_file option" where
  "ctl_update cmd slot img r =
     (case (if cmd = ''good'' then josh_boot_health_mark_good (Some r) slot
            else josh_boot_health_begin_update (Some r) slot) of
        (ok, changed) \<Rightarrow>
          if \<not> ok then (1, [], Some img)
          else
            (case persist img (the changed) of
               (img1, written) \<Rightarrow>
                 if \<not> written then (1, [], Some img1) else (0, show_record (the changed), Some img1)))"

text \<open>
  The tool: its arguments and the opened image (\<open>None\<close> when \<open>fopen\<close> fails); the exit code, what it
  printed and the image afterwards. Messages to the error stream are left out.
\<close>

definition ctl_main :: "string list \<Rightarrow> image_file option \<Rightarrow> nat \<times> bytes list \<times> image_file option" where
  "ctl_main argv opened =
     (if length argv < 3 then (2, [], opened)
      else
        (case opened of
           None \<Rightarrow> (1, [], None)
         | Some img \<Rightarrow>
             let (existed, r) = load_state img; cmd = argv ! 1 in
             if cmd = ''init'' then
               let r = the (josh_boot_health_default (Some r));
                   (img1, ok_a) = write_record img JOSH_BOOT_HEALTH_LBA_A r in
               if \<not> ok_a then (1, [], Some img1)
               else
                 let (img2, ok_b) = write_record img1 JOSH_BOOT_HEALTH_LBA_B r in
                 if \<not> ok_b then (1, [], Some img2) else (0, show_record r, Some img2)
             else if cmd = ''show'' then
               if \<not> existed then (1, [], Some img) else (0, show_record r, Some img)
             else if cmd = ''good'' \<or> cmd = ''pending'' then
               if length argv \<noteq> 4 then (2, [], Some img)
               else
                 (case parse_slot (argv ! 3) of
                    None \<Rightarrow> (2, [], Some img)
                  | Some slot \<Rightarrow> ctl_update cmd slot img (if \<not> existed then the (josh_boot_health_default (Some r)) else r))
             else if cmd = ''attempt'' then
               let r = (if \<not> existed then the (josh_boot_health_default (Some r)) else r);
                   changed = snd (josh_boot_health_prepare_attempt (Some r) JOSH_BOOT_HEALTH_MAX_ATTEMPTS);
                   (img1, written) = persist img (the changed) in
               if \<not> written then (1, [], Some img1) else (0, show_record (the changed), Some img1)
             else (2, [], Some img)))"

section \<open>The abstract store\<close>

text \<open>
  A copy is what a sector holds when it is a valid record; the store holds the copy with the higher
  generation. \<open>hs_inv\<close>: the record is in its own sector and the other sector has nothing newer.
\<close>

definition hs_copy :: "('d \<Rightarrow> u64 \<Rightarrow> bytes option) \<Rightarrow> 'd \<Rightarrow> u64 \<Rightarrow> josh_boot_health_record option" where
  "hs_copy rd d lba =
     (case rd d lba of
        None \<Rightarrow> None
      | Some bs \<Rightarrow>
          if josh_boot_health_valid (Some (health_record_of_bytes bs)) then Some (health_record_of_bytes bs)
          else None)"

definition hs_load :: "('d \<Rightarrow> u64 \<Rightarrow> bytes option) \<Rightarrow> 'd \<Rightarrow> josh_boot_health_record option" where
  "hs_load rd d =
     (case (hs_copy rd d JOSH_BOOT_HEALTH_LBA_A, hs_copy rd d JOSH_BOOT_HEALTH_LBA_B) of
        (None, b) \<Rightarrow> b
      | (Some a, None) \<Rightarrow> Some a
      | (Some a, Some b) \<Rightarrow> Some (if generation b \<le> generation a then a else b))"

definition hs_record :: "('d \<Rightarrow> u64 \<Rightarrow> bytes option) \<Rightarrow> 'd \<Rightarrow> josh_boot_health_record" where
  "hs_record rd d = (case hs_load rd d of None \<Rightarrow> default_record | Some r \<Rightarrow> r)"

definition health_lba_other :: "josh_boot_health_record \<Rightarrow> u64" where
  "health_lba_other r = (if generation r AND 1 \<noteq> 0 then JOSH_BOOT_HEALTH_LBA_A else JOSH_BOOT_HEALTH_LBA_B)"

definition hs_inv :: "('d \<Rightarrow> u64 \<Rightarrow> bytes option) \<Rightarrow> 'd \<Rightarrow> josh_boot_health_record \<Rightarrow> bool" where
  "hs_inv rd d r \<longleftrightarrow>
     hs_copy rd d (health_lba_for r) = Some r
     \<and> (\<forall>r'. hs_copy rd d (health_lba_other r) = Some r' \<longrightarrow> r' = r \<or> generation r' < generation r)"

lemma health_lba_for_cases:
  "health_lba_for r = JOSH_BOOT_HEALTH_LBA_A \<and> health_lba_other r = JOSH_BOOT_HEALTH_LBA_B
   \<or> health_lba_for r = JOSH_BOOT_HEALTH_LBA_B \<and> health_lba_other r = JOSH_BOOT_HEALTH_LBA_A"
  by (auto simp: health_lba_for_def health_lba_other_def)

lemma hs_inv_load: "hs_inv rd d r \<Longrightarrow> hs_load rd d = Some r"
  using health_lba_for_cases [of r]
  by (auto simp: hs_inv_def hs_load_def split: option.split)

lemma hs_load_newest:
  assumes "hs_copy rd d lba = Some c" "lba \<in> {JOSH_BOOT_HEALTH_LBA_A, JOSH_BOOT_HEALTH_LBA_B}"
  shows "\<exists>r. hs_load rd d = Some r \<and> generation c \<le> generation r"
  using assms by (auto simp: hs_load_def split: option.split)

lemma hs_load_valid: "hs_load rd d = Some r \<Longrightarrow> josh_boot_health_valid (Some r)"
  by (auto simp: hs_load_def hs_copy_def split: option.splits if_splits)

lemma hs_record_valid: "josh_boot_health_valid (Some (hs_record rd d))"
  by (simp add: hs_record_def hs_load_valid split: option.split)

lemma even_generation: "generation r AND 1 \<noteq> 0 \<longleftrightarrow> odd (generation r)"
  by (simp add: and_one_eq mod_2_eq_odd)

lemma health_lba_next:
  assumes "generation r' = generation r + 1"
  shows "health_lba_for r' = health_lba_other r" "health_lba_other r' = health_lba_for r"
  using assms unfolding health_lba_for_def health_lba_other_def even_generation by simp_all

lemma length_health_sector [simp]: "length (health_sector r) = 512"
  by (simp add: health_sector_def health_sizeof_def JOSH_BOOT_HEALTH_SECTOR_SIZE_def)

lemma health_record_of_take: "health_record_of_bytes (take health_sizeof bs) = health_record_of_bytes bs"
  by (simp add: health_record_of_bytes_def health_sizeof_def read_le16_take read_le32_take read_le64_take
    drop_take)

lemma health_sector_decode [simp]: "health_record_of_bytes (health_sector r) = r"
  using health_record_of_take [of "health_sector r"] by (simp add: health_sector_def health_record_decode)

lemma zero_record_invalid [simp]: "\<not> josh_boot_health_valid (Some zero_record)"
  by (simp add: health_valid_iff zero_record_def health_record_of_bytes_def health_sizeof_def read_le32_def
    health_fields_ok_def JOSH_BOOT_HEALTH_MAGIC_def)

section \<open>What both programs rely on\<close>

locale health_medium =
  fixes ok :: "'d \<Rightarrow> bool" and rd :: "'d \<Rightarrow> u64 \<Rightarrow> bytes option" and wr :: "'d \<Rightarrow> u64 \<Rightarrow> bytes \<Rightarrow> 'd \<times> bool"
  assumes wr_ok: "ok d \<Longrightarrow> wr d l bs = (d', res) \<Longrightarrow> ok d'"
    and wr_rd: "ok d \<Longrightarrow> wr d l bs = (d', True) \<Longrightarrow> length bs = 512 \<Longrightarrow>
      l \<in> {JOSH_BOOT_HEALTH_LBA_A, JOSH_BOOT_HEALTH_LBA_B} \<Longrightarrow> rd d' l = Some bs"
    and wr_frame: "ok d \<Longrightarrow> wr d l bs = (d', res) \<Longrightarrow> length bs = 512 \<Longrightarrow> l \<noteq> l' \<Longrightarrow>
      l \<in> {JOSH_BOOT_HEALTH_LBA_A, JOSH_BOOT_HEALTH_LBA_B} \<Longrightarrow>
      l' \<in> {JOSH_BOOT_HEALTH_LBA_A, JOSH_BOOT_HEALTH_LBA_B} \<Longrightarrow> rd d' l' = rd d l'"
begin

lemma copy_written:
  assumes "ok d" "wr d l (health_sector r) = (d', True)" "josh_boot_health_valid (Some r)"
    and "l \<in> {JOSH_BOOT_HEALTH_LBA_A, JOSH_BOOT_HEALTH_LBA_B}"
  shows "hs_copy rd d' l = Some r"
  using wr_rd [OF assms(1,2) _ assms(4)] assms(3) by (simp add: hs_copy_def)

lemma other_frame:
  assumes "ok d" "wr d (health_lba_for r) (health_sector r') = (d', res)"
  shows "hs_copy rd d' (health_lba_other r) = hs_copy rd d (health_lba_other r)"
  using wr_frame [OF assms, of "health_lba_other r"] health_lba_for_cases [of r]
  by (auto simp: hs_copy_def)

text \<open>A completed write of a newer record makes it the stored one, whatever was there before.\<close>

lemma write_newer:
  assumes "ok d" "wr d (health_lba_for r) (health_sector r) = (d', True)" "josh_boot_health_valid (Some r)"
    and newer: "\<And>r0. hs_load rd d = Some r0 \<Longrightarrow> generation r0 < generation r"
  shows "hs_inv rd d' r"
proof -
  have "hs_copy rd d' (health_lba_for r) = Some r"
    using health_lba_for_cases [of r] by (intro copy_written [OF assms(1-3)]) auto
  moreover have "generation c < generation r" if "hs_copy rd d' (health_lba_other r) = Some c" for c
  proof -
    have "hs_copy rd d (health_lba_other r) = Some c" using that other_frame [OF assms(1,2)] by simp
    from hs_load_newest [OF this] newer show ?thesis
      using health_lba_for_cases [of r] by fastforce
  qed
  ultimately show ?thesis by (simp add: hs_inv_def)
qed

text \<open>Writing the stored record once more does not bring an older one back.\<close>

lemma write_again:
  assumes "ok d" "wr d (health_lba_for r) (health_sector r) = (d', True)" "josh_boot_health_valid (Some r)"
    and "hs_load rd d = Some r"
  shows "hs_load rd d' = Some r"
proof -
  have "hs_copy rd d' (health_lba_for r) = Some r"
    using health_lba_for_cases [of r] by (intro copy_written [OF assms(1-3)]) auto
  with other_frame [OF assms(1,2)] health_lba_for_cases [of r] assms(4) show ?thesis
    by (auto simp: hs_load_def split: option.split option.split_asm if_split_asm)
qed

lemma write_both:
  assumes "ok d" "josh_boot_health_valid (Some r)"
    and "wr d JOSH_BOOT_HEALTH_LBA_A (health_sector r) = (d1, True)"
    and "wr d1 JOSH_BOOT_HEALTH_LBA_B (health_sector r) = (d', True)"
  shows "hs_load rd d' = Some r"
proof -
  have ok1: "ok d1" using wr_ok [OF assms(1,3)] .
  have "hs_copy rd d1 JOSH_BOOT_HEALTH_LBA_A = Some r" "hs_copy rd d' JOSH_BOOT_HEALTH_LBA_B = Some r"
    by (rule copy_written [OF assms(1,3,2)] copy_written [OF ok1 assms(4,2)], simp)+
  moreover have "rd d' JOSH_BOOT_HEALTH_LBA_A = rd d1 JOSH_BOOT_HEALTH_LBA_A"
    by (rule wr_frame [OF ok1 assms(4)]) simp_all
  ultimately show ?thesis by (simp add: hs_load_def hs_copy_def)
qed

text \<open>An interrupted write of the next record can only lose the record that was older anyway.\<close>

lemma write_interrupted:
  assumes "hs_inv rd d r" "generation r' = generation r + 1" "ok d"
    and "wr d (health_lba_for r') (health_sector r') = (d', res)"
    and torn: "hs_copy rd d' (health_lba_for r') \<in> {None, Some r', hs_copy rd d (health_lba_for r')}"
    and "generation r \<noteq> - 1"
  shows "hs_load rd d' \<in> {Some r, Some r'}"
proof -
  have keep: "hs_copy rd d' (health_lba_for r) = Some r"
    using other_frame [OF assms(3,4)] assms(1) health_lba_next [OF assms(2)] by (simp add: hs_inv_def)
  consider (none) "hs_copy rd d' (health_lba_other r) = None"
    | (new) "hs_copy rd d' (health_lba_other r) = Some r'"
    | (old) "hs_copy rd d' (health_lba_other r) = hs_copy rd d (health_lba_other r)"
    using torn health_lba_next [OF assms(2)] by auto
  then show ?thesis
  proof cases
    case none
    then have "hs_inv rd d' r" using keep by (simp add: hs_inv_def)
    then show ?thesis by (simp add: hs_inv_load)
  next
    case new
    have "generation r < generation r'"
      using assms(2,6) by (simp add: inc_less_eq_self_iff_eq flip: linorder_not_le)
    with new keep have "hs_inv rd d' r'"
      using health_lba_next [OF assms(2)] by (simp add: hs_inv_def)
    then show ?thesis by (simp add: hs_inv_load)
  next
    case old
    then have "hs_inv rd d' r" using keep assms(1) by (simp add: hs_inv_def)
    then show ?thesis by (simp add: hs_inv_load)
  qed
qed

end

section \<open>The image file is such a medium\<close>

text \<open>An image that covers both reserved sectors.\<close>

definition image_ok :: "image_file \<Rightarrow> bool" where
  "image_ok img \<longleftrightarrow> 1016832 \<le> length (contents img)"

lemma health_offsets [simp]:
  "sector_offset JOSH_BOOT_HEALTH_LBA_A = 1015808" "sector_offset JOSH_BOOT_HEALTH_LBA_B = 1016320"
  by (simp_all add: sector_offset_def health_lba_defs JOSH_BOOT_HEALTH_SECTOR_SIZE_def)

lemma length_file_put: "length (file_put cs off bs) = max (length cs) (off + length bs)"
  by (auto simp: file_put_def Let_def)

lemma file_put_same: "take (length bs) (drop off (file_put cs off bs)) = bs"
  by (simp add: file_put_def Let_def)

lemma nth_file_put:
  assumes "i < off \<or> off + length bs \<le> i" "i < length cs"
  shows "file_put cs off bs ! i = cs ! i"
  using assms by (auto simp: file_put_def Let_def nth_append length_file_put)

lemma file_put_frame:
  assumes "off + length bs \<le> a \<or> a + n \<le> off" "a + n \<le> length cs"
  shows "take n (drop a (file_put cs off bs)) = take n (drop a cs)"
proof (rule nth_equalityI)
  show "length (take n (drop a (file_put cs off bs))) = length (take n (drop a cs))"
    using assms(2) by (simp add: length_file_put)
next
  fix i
  assume "i < length (take n (drop a (file_put cs off bs)))"
  then have i: "i < n" by simp
  then have "file_put cs off bs ! (a + i) = cs ! (a + i)"
    using assms by (intro nth_file_put) linarith+
  with i show "take n (drop a (file_put cs off bs)) ! i = take n (drop a cs) ! i"
    using assms(2) by (simp add: length_file_put)
qed

interpretation image: health_medium image_ok fread_sector fwrite_sector
proof
  fix d l bs d' res
  assume "image_ok d" "fwrite_sector d l bs = (d', res)"
  then show "image_ok d'"
    by (auto simp: image_ok_def fwrite_sector_def Let_def length_file_put split: if_split_asm)
next
  fix d l and bs :: bytes and d'
  assume "fwrite_sector d l bs = (d', True)" "length bs = 512"
    "l \<in> {JOSH_BOOT_HEALTH_LBA_A, JOSH_BOOT_HEALTH_LBA_B}"
  then have "d' = d\<lparr> contents := file_put (contents d) (sector_offset l) bs \<rparr>"
    by (auto simp: fwrite_sector_def Let_def split: if_split_asm)
  then show "fread_sector d' l = Some bs"
    using file_put_same [of bs "sector_offset l" "contents d"] \<open>length bs = 512\<close>
    by (simp add: fread_sector_def JOSH_BOOT_HEALTH_SECTOR_SIZE_def length_file_put)
next
  fix d l and bs :: bytes and d' res l'
  assume ok: "image_ok d" and wr: "fwrite_sector d l bs = (d', res)" and len: "length bs = 512"
    and l: "l \<noteq> l'" "l \<in> {JOSH_BOOT_HEALTH_LBA_A, JOSH_BOOT_HEALTH_LBA_B}"
      "l' \<in> {JOSH_BOOT_HEALTH_LBA_A, JOSH_BOOT_HEALTH_LBA_B}"
  define n where "n = min 512 (size_limit d - sector_offset l)"
  have d': "d' = (if n = 0 then d else d\<lparr> contents := file_put (contents d) (sector_offset l) (take n bs) \<rparr>)"
    using wr unfolding fwrite_sector_def Let_def len n_def [symmetric] by simp
  have n: "n \<le> 512" by (simp add: n_def)
  show "fread_sector d' l' = fread_sector d l'"
  proof (cases "n = 0")
    case False
    then have "take 512 (drop (sector_offset l') (contents d')) = take 512 (drop (sector_offset l') (contents d))"
      using ok l len d' n by (simp add: image_ok_def) (intro file_put_frame; auto)
    then show ?thesis
      using d' n False ok l by (auto simp: fread_sector_def JOSH_BOOT_HEALTH_SECTOR_SIZE_def length_file_put image_ok_def)
  qed (simp add: d')
qed

section \<open>The disk behind the BIOS\<close>

definition bios_sector :: "'d bios \<Rightarrow> 'd \<Rightarrow> u64 \<Rightarrow> bytes option" where
  "bios_sector fw d lba =
     map_option (\<lambda>buffer. map buffer [0..<512]) (bios_block_read fw d lba 1 HEALTH_BUFFER_ADDR)"

definition bios_put :: "'d bios \<Rightarrow> 'd \<Rightarrow> u64 \<Rightarrow> bytes \<Rightarrow> 'd \<times> bool" where
  "bios_put fw d lba bs = bios_block_write fw d lba 1 HEALTH_BUFFER_ADDR bs"

lemma health_buffer_ok [simp]: "bios_argument_ok 1 HEALTH_BUFFER_ADDR"
  by (simp add: bios_argument_ok_def HEALTH_BUFFER_ADDR_def Let_def word_less_nat_alt word_le_nat_alt)

interpretation sector_disk: health_medium "\<lambda>d. True" "bios_sector (sector_bios N)" "bios_put (sector_bios N)" for N
proof
  fix d l and bs :: bytes and d'
  assume "bios_put (sector_bios N) d l bs = (d', True)" "length bs = 512"
  then show "bios_sector (sector_bios N) d' l = Some bs"
    by (auto simp: bios_put_def bios_sector_def bios_block_write_def bios_block_read_def sector_bios_def
      disk_bytes_def intro!: nth_equalityI split: if_split_asm)
next
  fix d l and bs :: bytes and d' res l'
  assume "bios_put (sector_bios N) d l bs = (d', res)" "l \<noteq> l'"
  then show "bios_sector (sector_bios N) d' l' = bios_sector (sector_bios N) d l'"
    by (auto simp: bios_put_def bios_sector_def bios_block_write_def bios_block_read_def sector_bios_def
      disk_bytes_def split: if_split_asm)
qed simp

lemma health_read_copy_eq:
  "health_read_copy fw d lba r0 =
    (case bios_sector fw d lba of
       None \<Rightarrow> (False, r0)
     | Some bs \<Rightarrow> (josh_boot_health_valid (Some (health_record_of_bytes bs)), health_record_of_bytes bs))"
proof -
  have "health_record_of_bytes (map b [0..<health_sizeof]) = health_record_of_bytes (map b [0..<512])" for b
    using health_record_of_take [of "map b [0..<512]"] by (simp add: take_map take_upt health_sizeof_def)
  then show ?thesis by (simp add: health_read_copy_def bios_sector_def Let_def split: option.split)
qed

lemma choose_copies:
  fixes rd :: "'d \<Rightarrow> u64 \<Rightarrow> bytes option"
  defines "raw \<equiv> \<lambda>d lba. (case rd d lba of None \<Rightarrow> zero_record | Some bs \<Rightarrow> health_record_of_bytes bs)"
  shows "josh_boot_health_choose (Some (raw d JOSH_BOOT_HEALTH_LBA_A)) (Some (raw d JOSH_BOOT_HEALTH_LBA_B))
      (Some zero_record) = (hs_load rd d \<noteq> None, Some (hs_record rd d))"
  by (auto simp: raw_def josh_boot_health_choose_def hs_record_def hs_load_def hs_copy_def Let_def
    split: option.split)

text \<open>Both programs load what the abstract store holds.\<close>

lemma health_load_eq:
  "\<exists>st'. health_load fw st = (True, hs_record (bios_sector fw) (s2_disk st), st')
     \<and> s2_disk st' = s2_disk st \<and> s2_mem st' = s2_mem st
     \<and> (health_persistent_enabled st' \<longleftrightarrow> hs_load (bios_sector fw) (s2_disk st) \<noteq> None)"
  using choose_copies [where rd = "bios_sector fw" and d = "s2_disk st"]
  by (auto simp: health_load_def health_read_copy_eq Let_def hs_record_def hs_load_def hs_copy_def
    split: option.split)

lemma load_state_eq: "load_state img = (hs_load fread_sector img \<noteq> None, hs_record fread_sector img)"
proof -
  have "read_record img lba = map_option health_record_of_bytes (fread_sector img lba)" for lba
    by (simp add: read_record_def health_record_of_take split: option.split)
  then have "(case read_record img lba of None \<Rightarrow> zero_record | Some r \<Rightarrow> r)
      = (case fread_sector img lba of None \<Rightarrow> zero_record | Some bs \<Rightarrow> health_record_of_bytes bs)" for lba
    by (simp split: option.split)
  then show ?thesis by (simp add: load_state_def choose_copies)
qed

section \<open>Atomic updates\<close>

lemma health_write_copy_True:
  assumes "health_medium ok (bios_sector fw) (bios_put fw)" "ok d"
    and "lba \<in> {JOSH_BOOT_HEALTH_LBA_A, JOSH_BOOT_HEALTH_LBA_B}" "josh_boot_health_valid (Some r)"
    and "bios_put fw d lba (health_sector r) = (d', res)"
  shows "health_write_copy fw d lba r = (res, d')"
proof (cases res)
  case True
  then have "bios_sector fw d' lba = Some (health_sector r)"
    using health_medium.wr_rd [OF assms(1,2)] assms(3,5) by simp
  then show ?thesis
    using assms(4,5) True by (simp add: health_write_copy_def bios_put_def health_read_copy_eq)
next
  case False
  then show ?thesis using assms(5) by (simp add: health_write_copy_def bios_put_def)
qed

lemma health_persist_eq:
  assumes "health_medium ok (bios_sector fw) (bios_put fw)" "ok (s2_disk st)"
    and "josh_boot_health_valid (Some r)" "health_persistent_enabled st"
    and "health_persist fw r st = (res, st')"
  shows "bios_put fw (s2_disk st) (health_lba_for r) (health_sector r) = (s2_disk st', res)
    \<and> health_persistent_enabled st' = res \<and> s2_mem st' = s2_mem st"
proof -
  obtain d' b where put: "bios_put fw (s2_disk st) (health_lba_for r) (health_sector r) = (d', b)"
    by fastforce
  have "health_lba_for r \<in> {JOSH_BOOT_HEALTH_LBA_A, JOSH_BOOT_HEALTH_LBA_B}"
    using health_lba_for_cases [of r] by auto
  from health_write_copy_True [OF assms(1,2) this assms(3) put] show ?thesis
    using put assms(4,5) by (auto simp: health_persist_def split: bool.split_asm)
qed

text \<open>
  C3. Saving the health record is atomic. When the store holds a record and the loader saves the
  next one (every operation moves the generation by one), then after a reported success the store
  holds the new record, and after a failed or torn write, in which the sector is left with its old
  content, the new content or something that is no valid record, the next boot loads the old
  record or the new one, never anything else. A failure also stops all further writes.
\<close>

theorem health_persist_atomic:
  assumes "health_medium ok (bios_sector fw) (bios_put fw)" "ok (s2_disk st)"
    and "hs_inv (bios_sector fw) (s2_disk st) r" "generation r \<noteq> - 1"
    and "josh_boot_health_valid (Some r')" "generation r' = generation r + 1"
    and "health_persistent_enabled st" "health_persist fw r' st = (res, st')"
    and torn: "hs_copy (bios_sector fw) (s2_disk st') (health_lba_for r')
      \<in> {None, Some r', hs_copy (bios_sector fw) (s2_disk st) (health_lba_for r')}"
  shows "(res \<longrightarrow> hs_inv (bios_sector fw) (s2_disk st') r')
    \<and> (\<not> res \<longrightarrow> \<not> health_persistent_enabled st')
    \<and> fst (snd (health_load fw st')) \<in> {r, r'}
    \<and> (res \<longrightarrow> fst (snd (health_load fw st')) = r')"
proof -
  from health_persist_eq [OF assms(1,2,5,7,8)]
  have put: "bios_put fw (s2_disk st) (health_lba_for r') (health_sector r') = (s2_disk st', res)"
    and flag: "health_persistent_enabled st' = res" by simp_all
  have newer: "generation r < generation r'"
    using assms(4,6) by (simp add: inc_less_eq_self_iff_eq flip: linorder_not_le)
  have load: "fst (snd (health_load fw st')) = hs_record (bios_sector fw) (s2_disk st')"
    using health_load_eq [of fw st'] by auto
  have saved: "hs_inv (bios_sector fw) (s2_disk st') r'" if res
    using put that newer hs_inv_load [OF assms(3)]
    by (intro health_medium.write_newer [OF assms(1,2)]) (auto simp: assms(5))
  have "hs_load (bios_sector fw) (s2_disk st') \<in> {Some r, Some r'}"
    by (rule health_medium.write_interrupted [OF assms(1,3,6,2) put torn assms(4)])
  then show ?thesis
    using saved flag hs_inv_load [OF saved] by (auto simp: load hs_record_def)
qed

section \<open>From the host tool to the boot loader\<close>

text \<open>The BIOS of a machine that boots from the image.\<close>

definition image_bios :: "image_file bios" where
  "image_bios =
     \<lparr> int13_read = (\<lambda>img lba n.
         if 512 * (unat lba + unat n) \<le> length (contents img)
         then Some (\<lambda>i. contents img ! (512 * unat lba + i)) else None),
       int13_write = (\<lambda>img lba n data.
         if 512 * (unat lba + unat n) \<le> length (contents img) \<and> length data = 512 * unat n
         then (img\<lparr> contents := file_put (contents img) (512 * unat lba) data \<rparr>, True) else (img, False)) \<rparr>"

lemma image_bios_sector:
  assumes "l \<in> {JOSH_BOOT_HEALTH_LBA_A, JOSH_BOOT_HEALTH_LBA_B}"
  shows "bios_sector image_bios img l = fread_sector img l"
  using assms
  by (auto simp: bios_sector_def bios_block_read_def image_bios_def fread_sector_def
    JOSH_BOOT_HEALTH_SECTOR_SIZE_def health_lba_defs sector_offset_def intro!: nth_equalityI)

lemma image_bios_load:
  "hs_load (bios_sector image_bios) img = hs_load fread_sector img"
  "hs_record (bios_sector image_bios) img = hs_record fread_sector img"
  by (simp_all add: hs_record_def hs_load_def hs_copy_def image_bios_sector)

lemma persist_stored:
  assumes "image_ok img" "persist img r = (img', True)" "josh_boot_health_valid (Some r)"
    and "generation r = generation (hs_record fread_sector img) + 1" "generation (hs_record fread_sector img) \<noteq> - 1"
  shows "hs_load fread_sector img' = Some r"
proof -
  have "generation (hs_record fread_sector img) < generation r"
    using assms(4,5) by (simp add: inc_less_eq_self_iff_eq flip: linorder_not_le)
  then have "hs_inv fread_sector img' r"
    using assms(1-3)
    by (intro image.write_newer) (auto simp: persist_def write_record_def hs_record_def)
  then show ?thesis by (rule hs_inv_load)
qed

text \<open>Storing the record that was loaded, the default one on a blank image.\<close>

lemma persist_again:
  assumes "image_ok img" "persist img (hs_record fread_sector img) = (img', True)"
  shows "hs_load fread_sector img' = Some (hs_record fread_sector img)"
proof -
  let ?r = "hs_record fread_sector img"
  have wr: "fwrite_sector img (health_lba_for ?r) (health_sector ?r) = (img', True)"
    using assms(2) by (simp add: persist_def write_record_def)
  note valid = hs_record_valid [of fread_sector img]
  show ?thesis
  proof (cases "hs_load fread_sector img")
    case None
    with image.write_newer [OF assms(1) wr valid] show ?thesis by (simp add: hs_inv_load)
  next
    case (Some r)
    with image.write_again [OF assms(1) wr valid] show ?thesis by (simp add: hs_record_def)
  qed
qed

text \<open>
  What each command makes of the record that is stored: \<open>init\<close> starts afresh, \<open>show\<close> keeps it,
  \<open>attempt\<close> counts a boot, \<open>good\<close> and \<open>pending\<close> confirm or try the slot that is named.
\<close>

definition slot_numbers :: "(string \<times> u32) list" where
  "slot_numbers = [(''current'', 0), (''previous'', 1), (''recovery'', 2)]"

definition ctl_record :: "string \<Rightarrow> string list \<Rightarrow> josh_boot_health_record \<Rightarrow> josh_boot_health_record option" where
  "ctl_record cmd args r =
     (if cmd = ''init'' then Some default_record
      else if cmd = ''show'' then Some r
      else if cmd = ''attempt'' then snd (josh_boot_health_prepare_attempt (Some r) 3)
      else
        case args of
          [name] \<Rightarrow>
            (case map_of slot_numbers name of
               None \<Rightarrow> None
             | Some slot \<Rightarrow>
                 if cmd = ''good'' then committed (josh_boot_health_mark_good (Some r) slot)
                 else if cmd = ''pending'' then committed (josh_boot_health_begin_update (Some r) slot)
                 else None)
        | _ \<Rightarrow> None)"

lemma parse_slot_numbers: "parse_slot name = map_of slot_numbers name"
  by (simp add: parse_slot_def slot_numbers_def JOSH_BOOT_SLOT_CURRENT_def JOSH_BOOT_SLOT_PREVIOUS_def
    JOSH_BOOT_SLOT_RECOVERY_def)

text \<open>A run that ends with exit code 0, command by command.\<close>

lemma ctl_main_cases:
  assumes "ctl_main (prog # cmd # path # args) (Some img) = (0, out, Some img')"
  obtains (init) img1 where "cmd = ''init''" "fwrite_sector img JOSH_BOOT_HEALTH_LBA_A (health_sector default_record) = (img1, True)"
      "fwrite_sector img1 JOSH_BOOT_HEALTH_LBA_B (health_sector default_record) = (img', True)" "out = show_record default_record"
    | (read) "cmd = ''show''" "hs_load fread_sector img \<noteq> None" "out = show_record (hs_record fread_sector img)" "img' = img"
    | (store) r where "cmd \<notin> {''init'', ''show''}" "ctl_record cmd args (hs_record fread_sector img) = Some r"
      "persist img r = (img', True)" "out = show_record r"
proof -
  let ?r = "hs_record fread_sector img"
  have dflt: "(if hs_load fread_sector img = None then default_record else ?r) = ?r" by (simp add: hs_record_def)
  consider "cmd = ''init''" | "cmd = ''show''" | "cmd = ''good'' \<or> cmd = ''pending''" | "cmd = ''attempt''"
    using assms by (auto simp: ctl_main_def load_state_eq Let_def split: if_split_asm)
  then show thesis
  proof cases
    case 1
    then show thesis
      using assms by (intro init [of "fst (fwrite_sector img JOSH_BOOT_HEALTH_LBA_A (health_sector default_record))"]) (auto simp: ctl_main_def load_state_eq Let_def write_record_def split: if_split_asm prod.split_asm)
  next
    case 2
    then show thesis
      using assms by (intro read) (auto simp: ctl_main_def load_state_eq split: if_split_asm)
  next
    case 3
    let ?op = "if cmd = ''good'' then josh_boot_health_mark_good else josh_boot_health_begin_update"
    have run: "length args = 1" "parse_slot (hd args) \<noteq> None"
      "ctl_update cmd (the (parse_slot (hd args))) img ?r = (0, out, Some img')"
      using assms 3 dflt
      by (cases args; auto simp: ctl_main_def load_state_eq Let_def split: if_split_asm option.split_asm)+
    then obtain name slot where args: "args = [name]" "parse_slot name = Some slot" by (cases args) auto
    obtain ok changed where op: "?op (Some ?r) slot = (ok, changed)" by fastforce
    obtain img1 written where wr: "persist img (the changed) = (img1, written)" by fastforce
    have fin: "ok" "written" "img1 = img'" "out = show_record (the changed)"
      using run(3) op wr args 3 by (auto simp: ctl_update_def split: if_split_asm)
    obtain r' where ch: "changed = Some r'"
      using op fin(1)
      by (cases changed) (auto simp: josh_boot_health_mark_good_def josh_boot_health_begin_update_def Let_def
        split: if_split_asm)
    have "ctl_record cmd args ?r = Some r'"
      using 3 op ch fin(1) args by (auto simp: ctl_record_def committed_def parse_slot_numbers split: if_split_asm)
    then show thesis using 3 wr ch fin by (intro store [of r']) auto
  next
    case 4
    obtain slot r' where op: "josh_boot_health_prepare_attempt (Some ?r) 3 = (slot, Some r')"
      by (cases "josh_boot_health_prepare_attempt (Some ?r) 3")
        (auto simp: josh_boot_health_prepare_attempt_def Let_def split: if_split_asm)
    have "persist img r' = (img', True) \<and> out = show_record r'"
      using assms 4 dflt op
      by (auto simp: ctl_main_def load_state_eq Let_def JOSH_BOOT_HEALTH_MAX_ATTEMPTS_def split: if_split_asm prod.split_asm)
    then show thesis using 4 op by (intro store [of r']) (auto simp: ctl_record_def)
  qed
qed

lemma ctl_record_next:
  assumes "ctl_record cmd args r = Some r'" "cmd \<notin> {''init'', ''show''}" "josh_boot_health_valid (Some r)"
  shows "r' = r \<or> josh_boot_health_valid (Some r') \<and> generation r' = generation r + 1"
proof (cases "cmd = ''attempt''")
  case True
  then have r': "snd (josh_boot_health_prepare_attempt (Some r) 3) = Some r'" using assms(1) by (simp add: ctl_record_def)
  show ?thesis
  proof (cases "pending_good r = 0")
    case True
    then show ?thesis using r' prepare_attempt_idle [OF assms(3)] by simp
  next
    case False
    then have "counted_attempt 3 r = Some r'" using r' by (simp add: counted_attempt_def)
    then show ?thesis using attempt_tr.op_valid [OF assms(3)] attempt_tr.op_generation [OF assms(3)] by blast
  qed
next
  case False
  then show ?thesis
    using assms good_tr.op_valid [OF assms(3)] good_tr.op_generation [OF assms(3)]
      begin_tr.op_valid [OF assms(3)] begin_tr.op_generation [OF assms(3)]
    by (auto simp: ctl_record_def split: list.split_asm option.split_asm if_split_asm)
qed


section \<open>Runs\<close>

text \<open>A trial of the previous kernel, saved over the default record by the loader and by the tool.\<close>

definition trial_record :: josh_boot_health_record where
  "trial_record = the (snd (josh_boot_health_begin_update (Some default_record) JOSH_BOOT_SLOT_PREVIOUS))"

lemma trial_record:
  "josh_boot_health_begin_update (Some default_record) JOSH_BOOT_SLOT_PREVIOUS = (True, Some trial_record)"
  "josh_boot_health_valid (Some trial_record)" "generation trial_record = 1"
proof -
  show eq: "josh_boot_health_begin_update (Some default_record) JOSH_BOOT_SLOT_PREVIOUS = (True, Some trial_record)"
    by (simp add: trial_record_def begin_update_ok)
  then have "committed (josh_boot_health_begin_update (Some default_record) JOSH_BOOT_SLOT_PREVIOUS) = Some trial_record"
    by (simp add: committed_def)
  from begin_tr.op_valid [OF default_record_valid this] begin_tr.op_generation [OF default_record_valid this]
  show "josh_boot_health_valid (Some trial_record)" "generation trial_record = 1"
    by (simp_all add: default_record_def)
qed

definition fresh_disk :: "u64 \<Rightarrow> bytes" where
  "fresh_disk lba = (if lba = JOSH_BOOT_HEALTH_LBA_A then health_sector default_record else replicate 512 0)"

definition boot_from :: "'d \<Rightarrow> 'd stage2" where
  "boot_from d = \<lparr> s2_disk = d, s2_mem = \<lambda>a. 0, health_persistent_enabled = True, s2_serial = [],
     s2_uart = [] \<rparr>"

lemma boot_from_fields [simp]: "s2_disk (boot_from d) = d" "health_persistent_enabled (boot_from d)"
  by (simp_all add: boot_from_def)

lemma default_generation [simp]: "generation default_record = 0"
  by (simp add: default_record_def)

lemma sector_bios_sector:
  "length (f lba) = 512 \<Longrightarrow> unat lba < N \<Longrightarrow> bios_sector (sector_bios N) f lba = Some (f lba)"
  by (auto simp: bios_sector_def bios_block_read_def sector_bios_def disk_bytes_def intro!: nth_equalityI)

lemma blank_sector_invalid [simp]: "\<not> josh_boot_health_valid (Some (health_record_of_bytes (replicate 512 0)))"
  using zero_record_invalid health_record_of_take [of "replicate 512 0"]
  by (simp add: zero_record_def health_sizeof_def)

theorem health_persist_atomic_witness:
  "fst (snd (health_load (sector_bios 4096) (snd (health_persist (sector_bios 4096) trial_record (boot_from fresh_disk)))))
     = trial_record"
proof -
  let ?fw = "sector_bios 4096" and ?d = "fresh_disk(JOSH_BOOT_HEALTH_LBA_B := health_sector trial_record)"
  have lba: "health_lba_for trial_record = JOSH_BOOT_HEALTH_LBA_B"
    "health_lba_for default_record = JOSH_BOOT_HEALTH_LBA_A" "health_lba_other default_record = JOSH_BOOT_HEALTH_LBA_B"
    by (simp_all add: health_lba_for_def health_lba_other_def trial_record(3))
  have sector: "bios_sector ?fw fresh_disk l = Some (fresh_disk l)"
    if "l \<in> {JOSH_BOOT_HEALTH_LBA_A, JOSH_BOOT_HEALTH_LBA_B}" for l
    using that by (intro sector_bios_sector) (auto simp: fresh_disk_def health_lba_defs)
  have put: "bios_put ?fw fresh_disk JOSH_BOOT_HEALTH_LBA_B (health_sector trial_record) = (?d, True)"
    by (simp add: bios_put_def bios_block_write_def sector_bios_def health_lba_defs)
  obtain st' where run: "health_persist ?fw trial_record (boot_from fresh_disk) = (True, st')" "s2_disk st' = ?d"
    using health_write_copy_True [OF sector_disk.health_medium_axioms TrueI _ trial_record(2) put]
    by (simp add: health_persist_def lba)
  have inv: "hs_inv (bios_sector ?fw) (s2_disk (boot_from fresh_disk)) default_record"
    by (simp add: hs_inv_def hs_copy_def lba sector) (simp add: fresh_disk_def)
  have "hs_copy (bios_sector ?fw) (s2_disk st') (health_lba_for trial_record) = Some trial_record"
    using sector_disk.copy_written [OF TrueI put trial_record(2)] by (simp add: run lba)
  with health_persist_atomic [OF sector_disk.health_medium_axioms TrueI inv _ trial_record(2) _ _ run(1)]
  show ?thesis by (simp add: run trial_record(3))
qed

definition blank_image :: image_file where
  "blank_image = \<lparr> contents = replicate 1016832 0, size_limit = 1016832 \<rparr>"

lemma blank_image_record: "hs_record fread_sector blank_image = default_record"
  by (simp add: hs_record_def hs_load_def hs_copy_def fread_sector_def blank_image_def
    JOSH_BOOT_HEALTH_SECTOR_SIZE_def)


end
