(* ===== verification/JB_KernelLoad.thy ===== *)
theory JB_KernelLoad
  imports JB_HealthStore JB_Fat32 JB_Elf64
begin

text \<open>
  How the BIOS loader finds its kernel: \<open>kernel_path_for_slot\<close> to \<open>load_kernel_file\<close> of
  \<open>boot/stage2_pm.c\<close>. It ties the storage code, the configuration, the health record and the ELF
  validator together: find the partition, mount it, read the configuration, choose the slot, and
  try the kernels of the slot and of its fallbacks, recording each step in the health store.

  A result of \<open>None\<close> stands for a call that never returns. The file system structure holds a
  pointer to the device, so every access goes to the disk as it is at that moment:
  \<open>on_device fs (bios_device fw disk)\<close>.
\<close>

definition KERNEL_IMAGE_ADDR :: u32 where "KERNEL_IMAGE_ADDR = 0x01000000"
definition KERNEL_IMAGE_BYTES :: u32 where "KERNEL_IMAGE_BYTES = 4 * 1024 * 1024"
definition CONFIG_PATH :: bytes where "CONFIG_PATH = ascii ''/boot/josh/boot.cfg''"

definition kernel_path_for_slot :: "josh_boot_config \<Rightarrow> u32 \<Rightarrow> bytes" where
  "kernel_path_for_slot config slot =
     (if slot = JOSH_BOOT_SLOT_CURRENT then kernel_path config
      else if slot = JOSH_BOOT_SLOT_PREVIOUS then previous_kernel_path config
      else recovery_kernel_path config)"

definition write_slot_marker :: "u32 \<Rightarrow> 'd stage2 \<Rightarrow> 'd stage2" where
  "write_slot_marker slot =
     (if slot = JOSH_BOOT_SLOT_CURRENT then serial_write ''JOSHBOOT_SLOT_CURRENT\<newline>''
      else if slot = JOSH_BOOT_SLOT_PREVIOUS then serial_write ''JOSHBOOT_SLOT_PREVIOUS\<newline>''
      else serial_write ''JOSHBOOT_SLOT_RECOVERY\<newline>'')"

text \<open>A summary that has not been filled in.\<close>

definition no_summary :: JoshElf64Summary where
  "no_summary = \<lparr> sum_entry = 0, virtual_min = 0, virtual_max = 0, load_segment_count = 0 \<rparr>"

text \<open>\<open>Some n\<close> is success with \<open>*image_bytes = n\<close>; the file goes to the staging area in memory.\<close>

definition read_kernel_candidate :: "'d bios \<Rightarrow> josh_fat32 \<Rightarrow> bytes option \<Rightarrow> 'd stage2
    \<Rightarrow> (u32 option \<times> 'd stage2) option" where
  "read_kernel_candidate fw filesystem path st =
     (case path of
        None \<Rightarrow> Some (None, st)
      | Some p \<Rightarrow>
          if p ! 0 = 0 then Some (None, st)
          else
            let fs = on_device filesystem (bios_device fw (s2_disk st)) in
            (case josh_fat32_open_path (Some fs) (Some (cstr p)) True of
               None \<Rightarrow> None
             | Some (Inl status) \<Rightarrow> Some (None, st)
             | Some (Inr kernel0) \<Rightarrow>
                 if file_size kernel0 = 0 \<or> file_size kernel0 > KERNEL_IMAGE_BYTES then Some (None, st)
                 else
                   (case josh_fat32_read_file (Some fs) (Some kernel0) 0 True (file_size kernel0) of
                      None \<Rightarrow> None
                    | Some (status, out, bytes_read) \<Rightarrow>
                        let st1 = st\<lparr> s2_mem := mem_store (s2_mem st) KERNEL_IMAGE_ADDR out \<rparr> in
                        if status \<noteq> JOSH_FAT32_OK \<or> bytes_read \<noteq> file_size kernel0 then Some (None, st1)
                        else if fst (josh_elf64_validate
                                  (Some (mem_bytes (s2_mem st1) KERNEL_IMAGE_ADDR (unat (file_size kernel0))))
                                  (ucast (file_size kernel0)) (Some no_summary)) \<noteq> JOSH_ELF64_OK
                        then Some (None, st1)
                        else Some (Some (file_size kernel0), st1))))"

text \<open>The loop over the candidates, \<open>n\<close> rounds left; \<open>Some (None, st)\<close> is falling out of the loop.\<close>

fun candidate_loop :: "'d bios \<Rightarrow> josh_fat32 \<Rightarrow> josh_boot_config \<Rightarrow> nat \<Rightarrow> josh_boot_health_record \<Rightarrow> u32
    \<Rightarrow> 'd stage2 \<Rightarrow> (u32 option \<times> 'd stage2) option" where
  "candidate_loop fw fs config 0 health slot st = Some (None, st)"
| "candidate_loop fw fs config (Suc n) health slot st =
     (case read_kernel_candidate fw fs (Some (kernel_path_for_slot config slot)) (write_slot_marker slot st) of
        None \<Rightarrow> None
      | Some (Some bytes, st1) \<Rightarrow>
          Some (Some bytes, serial_write ''JOSHBOOT_KERNEL_FILE_LOADED\<newline>''
                              (serial_write ''JOSHBOOT_KERNEL_PATH_OK\<newline>'' st1))
      | Some (None, st1) \<Rightarrow>
          if slot = JOSH_BOOT_SLOT_CURRENT \<and> previous_kernel_path config ! 0 \<noteq> 0 then
            (case josh_boot_health_select_fallback (Some health) JOSH_BOOT_SLOT_PREVIOUS JOSH_BOOT_FAILURE_KERNEL_FILE of
               (ok, health') \<Rightarrow>
                 if \<not> ok then Some (None, st1)
                 else candidate_loop fw fs config n (the health') JOSH_BOOT_SLOT_PREVIOUS
                        (serial_write ''JOSHBOOT_FALLBACK_PREVIOUS\<newline>'' (snd (health_persist fw (the health') st1))))
          else if slot \<noteq> JOSH_BOOT_SLOT_RECOVERY \<and> recovery_kernel_path config ! 0 \<noteq> 0 then
            (case josh_boot_health_select_fallback (Some health) JOSH_BOOT_SLOT_RECOVERY JOSH_BOOT_FAILURE_KERNEL_FILE of
               (ok, health') \<Rightarrow>
                 if \<not> ok then Some (None, st1)
                 else candidate_loop fw fs config n (the health') JOSH_BOOT_SLOT_RECOVERY
                        (serial_write ''JOSHBOOT_FALLBACK_RECOVERY\<newline>'' (snd (health_persist fw (the health') st1))))
          else Some (None, st1))"

text \<open>The second half of \<open>load_kernel_file\<close>: health record, slot and candidates.\<close>

definition load_kernel_slots :: "'d bios \<Rightarrow> bool \<Rightarrow> josh_fat32 \<Rightarrow> josh_boot_config \<Rightarrow> 'd stage2
    \<Rightarrow> (u32 option \<times> 'd stage2) option" where
  "load_kernel_slots fw health_layout_safe fs config st =
     (let (loaded, health, st1) =
            (if \<not> health_layout_safe
             then (True, the (josh_boot_health_default (Some zero_record)),
                   serial_write ''JOSHBOOT_HEALTH_VOLATILE_LAYOUT\<newline>'' (st\<lparr> health_persistent_enabled := False \<rparr>))
             else health_load fw st) in
      if \<not> loaded then Some (None, serial_write ''JOSHBOOT_ERROR_HEALTH_LOAD\<newline>'' st1)
      else
        let old_slot = selected_slot health;
            old_generation = generation health;
            was_pending = (pending_good health \<noteq> 0);
            (slot, prepared) = josh_boot_health_prepare_attempt (Some health) JOSH_BOOT_HEALTH_MAX_ATTEMPTS;
            health1 = the prepared;
            st2 = (if generation health1 \<noteq> old_generation then snd (health_persist fw health1 st1) else st1);
            st3 = (if was_pending \<and> old_slot \<noteq> slot
                   then if slot = JOSH_BOOT_SLOT_PREVIOUS then serial_write ''JOSHBOOT_HEALTH_ROLLBACK_PREVIOUS\<newline>'' st2
                        else serial_write ''JOSHBOOT_HEALTH_ROLLBACK_RECOVERY\<newline>'' st2
                   else st2) in
        (case candidate_loop fw fs config 3 health1 slot st3 of
           None \<Rightarrow> None
         | Some (Some bytes, st4) \<Rightarrow> Some (Some bytes, st4)
         | Some (None, st4) \<Rightarrow> Some (None, serial_write ''JOSHBOOT_ERROR_KERNEL_CANDIDATES\<newline>'' st4)))"

text \<open>
  The configuration: \<open>Some (status, config')\<close> where the status is \<open>None\<close> when the file was read
  and parsed and the marker of the failure otherwise.
\<close>

definition load_boot_config :: "josh_fat32 \<Rightarrow> josh_boot_config option
    \<Rightarrow> (string option \<times> josh_boot_config option) option" where
  "load_boot_config fs config =
     (case josh_fat32_open_path (Some fs) (Some CONFIG_PATH) True of
        None \<Rightarrow> None
      | Some (Inl status) \<Rightarrow> Some (Some ''JOSHBOOT_ERROR_CONFIG_PATH\<newline>'', config)
      | Some (Inr config_file) \<Rightarrow>
          if file_size config_file = 0 \<or> unat (file_size config_file) > JOSH_BOOT_CONFIG_MAX_BYTES
          then Some (Some ''JOSHBOOT_ERROR_CONFIG_SIZE\<newline>'', config)
          else
            (case josh_fat32_read_file (Some fs) (Some config_file) 0 True (file_size config_file) of
               None \<Rightarrow> None
             | Some (status, config_buffer, config_bytes) \<Rightarrow>
                 if status \<noteq> JOSH_FAT32_OK \<or> config_bytes \<noteq> file_size config_file
                 then Some (Some ''JOSHBOOT_ERROR_CONFIG_READ\<newline>'', config)
                 else
                   (case josh_boot_config_parse (Some config_buffer) (unat config_bytes) config of
                      (parsed, config') \<Rightarrow>
                        if parsed \<noteq> JOSH_CONFIG_OK then Some (Some ''JOSHBOOT_ERROR_CONFIG_PARSE\<newline>'', config')
                        else Some (None, config'))))"

definition load_kernel_file :: "'d bios \<Rightarrow> u32 option \<Rightarrow> josh_boot_config option \<Rightarrow> 'd stage2
    \<Rightarrow> (bool \<times> u32 option \<times> josh_boot_config option \<times> 'd stage2) option" where
  "load_kernel_file fw image_bytes config st =
     (if image_bytes = None \<or> config = None then Some (False, image_bytes, config, st)
      else
        let device = bios_device fw (s2_disk st) in
        (case josh_partition_find_boot (Some device) True of
           Inl status \<Rightarrow> Some (False, image_bytes, config, serial_write ''JOSHBOOT_ERROR_PARTITION\<newline>'' st)
         | Inr part \<Rightarrow>
             let st1 = serial_write ''JOSHBOOT_PARTITION_OK\<newline>'' st;
                 health_layout_safe = josh_partition_range_is_unallocated (Some device) JOSH_BOOT_HEALTH_LBA_A 2;
                 st2 = (if \<not> health_layout_safe
                        then serial_write ''JOSHBOOT_HEALTH_LAYOUT_UNSAFE_VOLATILE\<newline>'' st1 else st1) in
             (case josh_fat32_mount (Some device) (Some part) True of
                Inl status \<Rightarrow> Some (False, image_bytes, config, serial_write ''JOSHBOOT_ERROR_FAT32\<newline>'' st2)
              | Inr filesystem \<Rightarrow>
                  let st3 = serial_write ''JOSHBOOT_FAT32_OK\<newline>'' st2 in
                  (case load_boot_config filesystem config of
                     None \<Rightarrow> None
                   | Some (Some message, config') \<Rightarrow> Some (False, image_bytes, config', serial_write message st3)
                   | Some (None, config') \<Rightarrow>
                       (case load_kernel_slots fw health_layout_safe filesystem (the config')
                               (serial_write ''JOSHBOOT_CONFIG_OK\<newline>'' st3) of
                          None \<Rightarrow> None
                        | Some (None, st4) \<Rightarrow> Some (False, image_bytes, config', st4)
                        | Some (Some bytes, st4) \<Rightarrow> Some (True, Some bytes, config', st4))))))"

section \<open>Devices on the same disk\<close>

lemma on_device_on_device [simp]: "on_device (on_device fs d1) d2 = on_device fs d2"
  by (simp add: on_device_def)

lemma on_device_self [simp]: "on_device fs (fs_device fs) = fs"
  by (simp add: on_device_def)

lemma partition_region_on_device [simp]: "partition_region (on_device fs dev) = partition_region fs"
  by (simp add: partition_region_def)

lemma fat32_inv_on_device:
  "fat32_inv fs \<Longrightarrow> dev_sector_count dev = dev_sector_count (fs_device fs) \<Longrightarrow> fat32_inv (on_device fs dev)"
  by (simp add: fat32_inv_def on_device_def)

text \<open>A file system the loader has mounted: sound, and on the BIOS device.\<close>

definition bios_fs :: "josh_fat32 \<Rightarrow> bool" where
  "bios_fs fs \<longleftrightarrow> fat32_inv fs \<and> dev_sector_count (fs_device fs) = 0x100000000"

lemma bios_fs_inv: "bios_fs fs \<Longrightarrow> fat32_inv (on_device fs (bios_device fw d))"
  by (simp add: bios_fs_def fat32_inv_on_device)

section \<open>One candidate\<close>

text \<open>The image a path denotes, when it is one the loader accepts.\<close>

definition kernel_file :: "'d bios \<Rightarrow> josh_fat32 \<Rightarrow> 'd \<Rightarrow> bytes \<Rightarrow> bytes option" where
  "kernel_file fw fs d p =
     (if p ! 0 = 0 then None
      else
        (case josh_fat32_open_path (Some (on_device fs (bios_device fw d))) (Some (cstr p)) True of
           Some (Inr kernel0) \<Rightarrow>
             if file_size kernel0 = 0 \<or> file_size kernel0 > KERNEL_IMAGE_BYTES then None
             else
               (case josh_fat32_read_file (Some (on_device fs (bios_device fw d))) (Some kernel0) 0 True (file_size kernel0) of
                  Some (status, out, n) \<Rightarrow>
                    if status = JOSH_FAT32_OK \<and> n = file_size kernel0
                       \<and> fst (josh_elf64_validate (Some out) (ucast n) (Some no_summary)) = JOSH_ELF64_OK
                    then Some out else None
                | None \<Rightarrow> None)
         | _ \<Rightarrow> None))"

lemma unat_KERNEL_IMAGE_BYTES [simp]: "unat KERNEL_IMAGE_BYTES = 4194304"
  by (simp add: KERNEL_IMAGE_BYTES_def)

lemma read_kernel_candidate_eq:
  assumes "bios_fs fs"
  shows "\<exists>out. read_kernel_candidate fw fs (Some p) st =
      Some (map_option (\<lambda>b. of_nat (length b)) (kernel_file fw fs (s2_disk st) p),
            st\<lparr> s2_mem := mem_store (s2_mem st) KERNEL_IMAGE_ADDR out \<rparr>)
    \<and> length out \<le> 4194304
    \<and> (\<forall>b. kernel_file fw fs (s2_disk st) p = Some b \<longrightarrow> out = b \<and> 0 < length b)"
proof -
  let ?fs = "on_device fs (bios_device fw (s2_disk st))"
  note inv = bios_fs_inv [OF assms, of fw "s2_disk st"]
  have id: "st\<lparr> s2_mem := mem_store (s2_mem st) KERNEL_IMAGE_ADDR [] \<rparr> = st" by simp
  show ?thesis
  proof (cases "p ! 0 = 0")
    case True
    then show ?thesis using id by (intro exI [of _ "[]"]) (simp add: read_kernel_candidate_def kernel_file_def)
  next
    case p: False
    obtain r where r: "josh_fat32_open_path (Some ?fs) (Some (cstr p)) True = Some r"
      using open_path_outcome [OF inv] by blast
    show ?thesis
    proof (cases r)
      case (Inl status)
      then show ?thesis
        using p r id by (intro exI [of _ "[]"]) (simp add: read_kernel_candidate_def kernel_file_def)
    next
      case (Inr kernel0)
      show ?thesis
      proof (cases "file_size kernel0 = 0 \<or> file_size kernel0 > KERNEL_IMAGE_BYTES")
        case True
        then show ?thesis
          using p r Inr id by (intro exI [of _ "[]"]) (simp add: read_kernel_candidate_def kernel_file_def)
      next
        case False
        then have size: "unat (file_size kernel0) \<le> 4194304" "0 < unat (file_size kernel0)"
          by (auto simp: word_less_nat_alt unat_gt_0)
        obtain status out n where rd:
          "josh_fat32_read_file (Some ?fs) (Some kernel0) 0 True (file_size kernel0) = Some (status, out, n)"
          "length out \<le> unat (file_size kernel0)" "if status = JOSH_FAT32_OK then length out = unat n else n = 0"
          using read_file_outcome [OF inv, of kernel0 0 True "file_size kernel0"] by auto
        have mem: "mem_bytes (mem_store (s2_mem st) KERNEL_IMAGE_ADDR out) KERNEL_IMAGE_ADDR (length out) = out"
          using size rd(2) by (intro mem_bytes_store) simp
        then show ?thesis
          using p r Inr False rd size
          by (intro exI [of _ out]) (auto simp: read_kernel_candidate_def kernel_file_def Let_def)
      qed
    qed
  qed
qed

section \<open>What the loader writes\<close>

text \<open>The documented effect of a one-sector write: no other sector changes, also when it fails.\<close>

definition bios_writes_in_place :: "'d bios \<Rightarrow> bool" where
  "bios_writes_in_place fw \<longleftrightarrow>
     (\<forall>d lba bs d' res l. int13_write fw d lba 1 bs = (d', res) \<and> l \<noteq> lba \<longrightarrow>
        int13_read fw d' l 1 = int13_read fw d l 1)"

definition health_lbas :: "u64 set" where
  "health_lbas = {JOSH_BOOT_HEALTH_LBA_A, JOSH_BOOT_HEALTH_LBA_B}"

definition same_outside_health :: "'d bios \<Rightarrow> 'd \<Rightarrow> 'd \<Rightarrow> bool" where
  "same_outside_health fw d d' \<longleftrightarrow>
     (\<forall>l. l \<notin> health_lbas \<longrightarrow> read_sector (bios_device fw d') l = read_sector (bios_device fw d) l)"

text \<open>The relation between the loader's states before and after: what may have been written.\<close>

definition disk_step :: "'d bios \<Rightarrow> 'd stage2 \<Rightarrow> 'd stage2 \<Rightarrow> bool" where
  "disk_step fw st st' \<longleftrightarrow>
     same_outside_health fw (s2_disk st) (s2_disk st')
     \<and> (\<not> health_persistent_enabled st \<longrightarrow> s2_disk st' = s2_disk st \<and> \<not> health_persistent_enabled st')"

lemma disk_step_refl [simp]: "disk_step fw st st"
  by (simp add: disk_step_def same_outside_health_def)

lemma disk_step_trans: "disk_step fw st st1 \<Longrightarrow> disk_step fw st1 st2 \<Longrightarrow> disk_step fw st st2"
  by (auto simp: disk_step_def same_outside_health_def)

lemma disk_step_serial [simp]:
  "disk_step fw st (serial_write m st') = disk_step fw st st'"
  "disk_step fw (serial_write m st) st' = disk_step fw st st'"
  "disk_step fw (write_slot_marker slot st) st' = disk_step fw st st'"
  by (simp_all add: disk_step_def write_slot_marker_def)

lemma disk_step_mem [simp]: "disk_step fw st (st'\<lparr> s2_mem := m \<rparr>) = disk_step fw st st'"
  by (simp add: disk_step_def)

lemma write_slot_marker_fields [simp]:
  "s2_disk (write_slot_marker slot st) = s2_disk st" "s2_mem (write_slot_marker slot st) = s2_mem st"
  "health_persistent_enabled (write_slot_marker slot st) = health_persistent_enabled st"
  by (simp_all add: write_slot_marker_def)

lemma read_sector_bios_cong:
  assumes "int13_read fw d' l 1 = int13_read fw d l 1"
  shows "read_sector (bios_device fw d') l = read_sector (bios_device fw d) l"
proof -
  have "bounce_chunk 1 = 1" by (simp add: bounce_chunk_def BIOS_BOUNCE_SECTORS_def word_less_nat_alt)
  then have "bounced_loop fw d' l 1 [] = bounced_loop fw d l 1 []"
    using assms by (simp add: bounced_step split: option.split)
  then show ?thesis
    by (simp add: read_sector_def josh_block_read_def bios_device_def bios_block_read_bounced_def)
qed

lemma health_write_copy_disk:
  assumes "bios_writes_in_place fw" "health_write_copy fw d lba r = (res, d')" "lba \<in> health_lbas"
  shows "same_outside_health fw d d'"
proof -
  obtain res' where "bios_block_write fw d lba 1 HEALTH_BUFFER_ADDR (health_sector r) = (d', res')"
    using assms(2) by (auto simp: health_write_copy_def split: prod.splits bool.splits)
  then have "int13_read fw d' l 1 = int13_read fw d l 1" if "l \<noteq> lba" for l
    using assms(1) that unfolding bios_writes_in_place_def by (auto simp: bios_block_write_def)
  with assms(3) show ?thesis
    unfolding same_outside_health_def by (metis read_sector_bios_cong)
qed

lemma health_persist_step:
  assumes "bios_writes_in_place fw"
  shows "disk_step fw st (snd (health_persist fw r st))"
proof -
  have "health_lba_for r \<in> health_lbas" by (simp add: health_lba_for_def health_lbas_def)
  with health_write_copy_disk [OF assms] show ?thesis
    by (auto simp: health_persist_def disk_step_def same_outside_health_def split: prod.split bool.split)
qed

lemma health_persist_mem [simp]: "s2_mem (snd (health_persist fw r st)) = s2_mem st"
  by (simp add: health_persist_def split: prod.split bool.split)

lemma health_load_step: "disk_step fw (st\<lparr> health_persistent_enabled := True \<rparr>) (snd (snd (health_load fw st)))"
  using health_load_eq [of fw st] by (auto simp: disk_step_def same_outside_health_def)

lemma candidate_loop_step:
  assumes "bios_fs fs" "bios_writes_in_place fw"
    and "candidate_loop fw fs config n health slot st = Some (r, st')"
  shows "disk_step fw st st'"
  using assms(3)
proof (induction n arbitrary: health slot st)
  case (Suc n)
  obtain k out where cand: "read_kernel_candidate fw fs (Some (kernel_path_for_slot config slot)) (write_slot_marker slot st)
      = Some (k, (write_slot_marker slot st)\<lparr> s2_mem := mem_store (s2_mem st) KERNEL_IMAGE_ADDR out \<rparr>)"
    using read_kernel_candidate_eq [OF assms(1), of fw "kernel_path_for_slot config slot" "write_slot_marker slot st"]
    by auto
  let ?st1 = "(write_slot_marker slot st)\<lparr> s2_mem := mem_store (s2_mem st) KERNEL_IMAGE_ADDR out \<rparr>"
  have st1: "disk_step fw st ?st1" by (simp add: disk_step_def same_outside_health_def)
  have persisted: "disk_step fw st (snd (health_persist fw h ?st1))" for h
    using st1 health_persist_step [OF assms(2)] by (rule disk_step_trans)
  show ?case
  proof (cases k)
    case (Some b)
    then show ?thesis using Suc.prems cand st1 by auto
  next
    case None
    then show ?thesis
      using Suc.prems cand st1 Suc.IH persisted
      by (auto split: if_split_asm prod.split_asm dest!: Suc.IH intro: disk_step_trans [OF persisted])
  qed
qed simp

section \<open>The chain of candidates\<close>

text \<open>
  The slots in the order in which they are tried, and the first of them with an acceptable kernel
  on the disk.
\<close>

fun fallback_slots :: "josh_boot_config \<Rightarrow> nat \<Rightarrow> u32 \<Rightarrow> u32 list" where
  "fallback_slots config 0 slot = []"
| "fallback_slots config (Suc n) slot =
     slot #
     (if slot = JOSH_BOOT_SLOT_CURRENT \<and> previous_kernel_path config ! 0 \<noteq> 0
      then fallback_slots config n JOSH_BOOT_SLOT_PREVIOUS
      else if slot \<noteq> JOSH_BOOT_SLOT_RECOVERY \<and> recovery_kernel_path config ! 0 \<noteq> 0
      then fallback_slots config n JOSH_BOOT_SLOT_RECOVERY
      else [])"

definition fallback_chain :: "josh_boot_config \<Rightarrow> u32 \<Rightarrow> u32 list" where
  "fallback_chain config slot =
     slot # (if slot = JOSH_BOOT_SLOT_CURRENT \<and> previous_kernel_path config ! 0 \<noteq> 0
             then [JOSH_BOOT_SLOT_PREVIOUS] else [])
     @ (if slot \<noteq> JOSH_BOOT_SLOT_RECOVERY \<and> recovery_kernel_path config ! 0 \<noteq> 0
        then [JOSH_BOOT_SLOT_RECOVERY] else [])"

lemma fallback_slots_3: "fallback_slots config 3 slot = fallback_chain config slot"
  by (auto simp: fallback_chain_def numeral_3_eq_3)

fun first_kernel :: "'d bios \<Rightarrow> josh_fat32 \<Rightarrow> 'd \<Rightarrow> josh_boot_config \<Rightarrow> u32 list \<Rightarrow> bytes option" where
  "first_kernel fw fs d config [] = None"
| "first_kernel fw fs d config (s # slots) =
     (case kernel_file fw fs d (kernel_path_for_slot config s) of
        None \<Rightarrow> first_kernel fw fs d config slots
      | Some image0 \<Rightarrow> Some image0)"

text \<open>Saving the health record cannot disturb the file system it is not part of.\<close>

definition health_apart :: "josh_fat32 \<Rightarrow> 'd stage2 \<Rightarrow> bool" where
  "health_apart fs st \<longleftrightarrow> partition_region fs \<inter> health_lbas = {} \<or> \<not> health_persistent_enabled st"

lemma kernel_file_step:
  assumes "bios_fs fs" "health_apart fs st" "disk_step fw st st'"
  shows "kernel_file fw fs (s2_disk st') p = kernel_file fw fs (s2_disk st) p"
proof (cases "partition_region fs \<inter> health_lbas = {}")
  case True
  then have "agree_on (partition_region (on_device fs (bios_device fw (s2_disk st))))
      (fs_device (on_device fs (bios_device fw (s2_disk st)))) (bios_device fw (s2_disk st'))"
    using assms(3) by (auto simp: agree_on_def disk_step_def same_outside_health_def)
  note eqs = open_path_agree [OF bios_fs_inv [OF assms(1)] this] read_file_agree [OF bios_fs_inv [OF assms(1)] this]
  show ?thesis unfolding kernel_file_def eqs [unfolded on_device_on_device] ..
next
  case False
  then have "s2_disk st' = s2_disk st" using assms(2,3) by (simp add: health_apart_def disk_step_def)
  then show ?thesis by simp
qed

lemma health_apart_step: "health_apart fs st \<Longrightarrow> disk_step fw st st' \<Longrightarrow> health_apart fs st'"
  by (auto simp: health_apart_def disk_step_def)

lemma first_kernel_step:
  assumes "bios_fs fs" "health_apart fs st" "disk_step fw st st'"
  shows "first_kernel fw fs (s2_disk st') config slots = first_kernel fw fs (s2_disk st) config slots"
  by (induction slots) (simp_all add: kernel_file_step [OF assms] split: option.split)

lemma select_fallback_kernel:
  assumes "josh_boot_health_valid (Some health)" "slot_valid s"
  obtains h where "josh_boot_health_select_fallback (Some health) s JOSH_BOOT_FAILURE_KERNEL_FILE = (True, Some h)"
    and "josh_boot_health_valid (Some h)"
proof -
  have "josh_boot_health_select_fallback (Some health) s JOSH_BOOT_FAILURE_KERNEL_FILE
      = (True, snd (josh_boot_health_select_fallback (Some health) s JOSH_BOOT_FAILURE_KERNEL_FILE))"
    and "snd (josh_boot_health_select_fallback (Some health) s JOSH_BOOT_FAILURE_KERNEL_FILE) \<noteq> None"
    using select_fallback_ok [OF assms failure_consts_ok(3)] by simp_all
  then obtain h where eq: "josh_boot_health_select_fallback (Some health) s JOSH_BOOT_FAILURE_KERNEL_FILE = (True, Some h)"
    by auto
  then have "committed (josh_boot_health_select_fallback (Some health) s JOSH_BOOT_FAILURE_KERNEL_FILE) = Some h"
    by (simp add: committed_def)
  from fallback_tr.op_valid [OF assms(1) this] show ?thesis using eq that by blast
qed

lemma candidate_loop_spec:
  assumes "bios_fs fs" "bios_writes_in_place fw" "health_apart fs st" "josh_boot_health_valid (Some health)"
  shows "\<exists>st'. candidate_loop fw fs config n health slot st =
      Some (map_option (\<lambda>b. of_nat (length b)) (first_kernel fw fs (s2_disk st) config (fallback_slots config n slot)), st')
    \<and> (\<forall>b. first_kernel fw fs (s2_disk st) config (fallback_slots config n slot) = Some b \<longrightarrow>
         0 < length b \<and> length b \<le> 4194304 \<and> mem_bytes (s2_mem st') KERNEL_IMAGE_ADDR (length b) = b)"
  using assms(3,4)
proof (induction n arbitrary: health slot st)
  case (Suc n)
  let ?p = "kernel_path_for_slot config slot" and ?st0 = "write_slot_marker slot st"
  obtain out where cand: "read_kernel_candidate fw fs (Some ?p) ?st0 =
      Some (map_option (\<lambda>b. of_nat (length b)) (kernel_file fw fs (s2_disk st) ?p),
            ?st0\<lparr> s2_mem := mem_store (s2_mem st) KERNEL_IMAGE_ADDR out \<rparr>)"
    and out: "length out \<le> 4194304" "\<And>b. kernel_file fw fs (s2_disk st) ?p = Some b \<Longrightarrow> out = b \<and> 0 < length b"
    using read_kernel_candidate_eq [OF assms(1), of fw ?p ?st0] by auto
  let ?st1 = "?st0\<lparr> s2_mem := mem_store (s2_mem st) KERNEL_IMAGE_ADDR out \<rparr>"
  have step: "disk_step fw st ?st1" by (simp add: disk_step_def same_outside_health_def)
  show ?case
  proof (cases "kernel_file fw fs (s2_disk st) ?p")
    case (Some b)
    then have "out = b" "0 < length b" using out(2) by simp_all
    moreover have "mem_bytes (mem_store (s2_mem st) KERNEL_IMAGE_ADDR out) KERNEL_IMAGE_ADDR (length out) = out"
      using out(1) by (intro mem_bytes_store) simp
    ultimately show ?thesis using cand Some out(1) by simp
  next
    case None
    have next_slot: "\<exists>h. josh_boot_health_select_fallback (Some health) s JOSH_BOOT_FAILURE_KERNEL_FILE = (True, Some h)
        \<and> (\<exists>st'. candidate_loop fw fs config n h s (serial_write m (snd (health_persist fw h ?st1))) =
            Some (map_option (\<lambda>b. of_nat (length b)) (first_kernel fw fs (s2_disk st) config (fallback_slots config n s)), st')
          \<and> (\<forall>b. first_kernel fw fs (s2_disk st) config (fallback_slots config n s) = Some b \<longrightarrow>
               0 < length b \<and> length b \<le> 4194304 \<and> mem_bytes (s2_mem st') KERNEL_IMAGE_ADDR (length b) = b))"
      if sv: "slot_valid s" for s m
    proof -
      obtain h where h: "josh_boot_health_select_fallback (Some health) s JOSH_BOOT_FAILURE_KERNEL_FILE = (True, Some h)"
        "josh_boot_health_valid (Some h)"
        using Suc.prems(2) sv by (rule select_fallback_kernel)
      let ?st2 = "serial_write m (snd (health_persist fw h ?st1))"
      have st2: "disk_step fw st ?st2"
        using disk_step_trans [OF step health_persist_step [OF assms(2)]] by simp
      have "first_kernel fw fs (s2_disk ?st2) config slots = first_kernel fw fs (s2_disk st) config slots" for slots
        using assms(1) Suc.prems(1) st2 by (rule first_kernel_step)
      with Suc.IH [of ?st2 h s] h st2 health_apart_step [OF Suc.prems(1)] show ?thesis by auto
    qed
    show ?thesis
    proof (cases "slot = JOSH_BOOT_SLOT_CURRENT \<and> previous_kernel_path config ! 0 \<noteq> 0")
      case True
      then show ?thesis
        using next_slot [of JOSH_BOOT_SLOT_PREVIOUS "''JOSHBOOT_FALLBACK_PREVIOUS\<newline>''"] cand None by auto
    next
      case no_prev: False
      show ?thesis
      proof (cases "slot \<noteq> JOSH_BOOT_SLOT_RECOVERY \<and> recovery_kernel_path config ! 0 \<noteq> 0")
        case True
        then show ?thesis
          using next_slot [of JOSH_BOOT_SLOT_RECOVERY "''JOSHBOOT_FALLBACK_RECOVERY\<newline>''"] cand None no_prev
          by (auto simp del: de_Morgan_conj)
      next
        case False
        then show ?thesis using cand None no_prev by auto
      qed
    qed
  qed
qed simp

section \<open>Loading the kernel\<close>

lemma mount_bios_fs:
  assumes "josh_fat32_mount (Some (bios_device fw d)) (Some part) True = Inr fs"
  shows "bios_fs fs" "fs_device fs = bios_device fw d"
  using mount_inv [OF assms] by (simp_all add: bios_fs_def)

lemma prepare_attempt_valid:
  assumes "josh_boot_health_valid (Some h)"
  obtains slot h' where "josh_boot_health_prepare_attempt (Some h) m = (slot, Some h')" "josh_boot_health_valid (Some h')"
proof (cases "pending_good h \<noteq> 0")
  case True
  obtain slot h' where eq: "josh_boot_health_prepare_attempt (Some h) m = (slot, Some h')"
    using prepare_attempt_pending [OF assms True, of m] by (auto split: if_split_asm)
  with True have "counted_attempt m h = Some h'" by (simp add: counted_attempt_def)
  from attempt_tr.op_valid [OF assms this] eq that show ?thesis by blast
next
  case False
  then show ?thesis using that assms by (auto simp: josh_boot_health_prepare_attempt_def Let_def)
qed

text \<open>The health record a boot starts from and the slot it chooses.\<close>

definition boot_record :: "'d bios \<Rightarrow> bool \<Rightarrow> 'd \<Rightarrow> josh_boot_health_record" where
  "boot_record fw health_layout_safe d = (if health_layout_safe then hs_record (bios_sector fw) d else default_record)"

definition boot_slot :: "'d bios \<Rightarrow> bool \<Rightarrow> 'd \<Rightarrow> u32" where
  "boot_slot fw health_layout_safe d =
     fst (josh_boot_health_prepare_attempt (Some (boot_record fw health_layout_safe d)) JOSH_BOOT_HEALTH_MAX_ATTEMPTS)"

lemma load_kernel_slots_start:
  obtains h1 st3 where
    "load_kernel_slots fw safe fs config st =
       (case candidate_loop fw fs config 3 h1 (boot_slot fw safe (s2_disk st)) st3 of
          None \<Rightarrow> None
        | Some (Some bytes, st4) \<Rightarrow> Some (Some bytes, st4)
        | Some (None, st4) \<Rightarrow> Some (None, serial_write ''JOSHBOOT_ERROR_KERNEL_CANDIDATES\<newline>'' st4))"
    "josh_boot_health_valid (Some h1)"
    "bios_writes_in_place fw \<Longrightarrow> disk_step fw (st\<lparr> health_persistent_enabled := safe \<rparr>) st3"
proof -
  let ?h = "boot_record fw safe (s2_disk st)"
  have valid: "josh_boot_health_valid (Some ?h)" by (simp add: boot_record_def hs_record_valid)
  obtain slot h1 where prep: "josh_boot_health_prepare_attempt (Some ?h) JOSH_BOOT_HEALTH_MAX_ATTEMPTS = (slot, Some h1)"
    and h1: "josh_boot_health_valid (Some h1)"
    using valid by (rule prepare_attempt_valid)
  obtain st1 where start: "(if \<not> safe
      then (True, the (josh_boot_health_default (Some zero_record)),
            serial_write ''JOSHBOOT_HEALTH_VOLATILE_LAYOUT\<newline>'' (st\<lparr> health_persistent_enabled := False \<rparr>))
      else health_load fw st) = (True, ?h, st1)"
    and st1: "disk_step fw (st\<lparr> health_persistent_enabled := safe \<rparr>) st1"
  proof (cases safe)
    case True
    then show ?thesis
      using that health_load_eq [of fw st] health_load_step [of fw st] by (auto simp: boot_record_def)
  qed (use that in \<open>simp add: boot_record_def\<close>)
  have slot: "boot_slot fw safe (s2_disk st) = slot" using prep by (simp add: boot_slot_def)
  let ?st2 = "if generation h1 \<noteq> generation ?h then snd (health_persist fw h1 st1) else st1"
  let ?st3 = "if pending_good ?h \<noteq> 0 \<and> selected_slot ?h \<noteq> slot
    then if slot = JOSH_BOOT_SLOT_PREVIOUS then serial_write ''JOSHBOOT_HEALTH_ROLLBACK_PREVIOUS\<newline>'' ?st2
         else serial_write ''JOSHBOOT_HEALTH_ROLLBACK_RECOVERY\<newline>'' ?st2
    else ?st2"
  have "disk_step fw (st\<lparr> health_persistent_enabled := safe \<rparr>) ?st3" if "bios_writes_in_place fw"
    using st1 disk_step_trans [OF st1 health_persist_step [OF that]] by simp
  moreover have "load_kernel_slots fw safe fs config st =
      (case candidate_loop fw fs config 3 h1 slot ?st3 of
          None \<Rightarrow> None
        | Some (Some bytes, st4) \<Rightarrow> Some (Some bytes, st4)
        | Some (None, st4) \<Rightarrow> Some (None, serial_write ''JOSHBOOT_ERROR_KERNEL_CANDIDATES\<newline>'' st4))"
    unfolding load_kernel_slots_def start Let_def prod.case by (simp add: prep)
  ultimately show ?thesis using that h1 slot by blast
qed

lemma candidate_loop_returns:
  assumes "bios_fs fs"
  shows "\<exists>r st'. candidate_loop fw fs config n health slot st = Some (r, st')"
proof (induction n arbitrary: health slot st)
  case (Suc n)
  obtain r st1 where "read_kernel_candidate fw fs (Some (kernel_path_for_slot config slot)) (write_slot_marker slot st)
      = Some (r, st1)"
    using read_kernel_candidate_eq [OF assms] by blast
  then show ?case using Suc.IH by (cases r) (auto split: prod.split)
qed simp

lemma load_boot_config_returns:
  assumes "fat32_inv fs" "device_fills_sectors (fs_device fs)"
  shows "\<exists>message config'. load_boot_config fs (Some c0) = Some (message, Some config')"
proof -
  have parse: "\<exists>c. snd (josh_boot_config_parse (Some t) n (Some c0)) = Some c" for t n
    by (auto simp: josh_boot_config_parse_def split: prod.split)
  obtain r where r: "josh_fat32_open_path (Some fs) (Some CONFIG_PATH) True = Some r"
    using open_path_outcome [OF assms(1)] by blast
  show ?thesis
  proof (cases r)
    case (Inl status)
    then show ?thesis using r by (simp add: load_boot_config_def)
  next
    case (Inr fl)
    obtain status out n where
      "josh_fat32_read_file (Some fs) (Some fl) 0 True (file_size fl) = Some (status, out, n)"
      using read_file_outcome [OF assms] by blast
    then show ?thesis using r Inr parse [of out "unat n"] by (auto simp: load_boot_config_def split: prod.split)
  qed
qed

text \<open>Whether the two health sectors are free to be used.\<close>

definition health_layout_ok :: "'d bios \<Rightarrow> 'd \<Rightarrow> bool" where
  "health_layout_ok fw d = josh_partition_range_is_unallocated (Some (bios_device fw d)) JOSH_BOOT_HEALTH_LBA_A 2"

lemma load_kernel_file_call:
  assumes "josh_partition_find_boot (Some (bios_device fw (s2_disk st))) True = Inr part"
    and "josh_fat32_mount (Some (bios_device fw (s2_disk st))) (Some part) True = Inr fs"
    and "load_boot_config fs (Some c0) = Some (None, Some config)"
  obtains st1 where "s2_disk st1 = s2_disk st"
    "load_kernel_file fw (Some image_bytes) (Some c0) st =
      (case load_kernel_slots fw (health_layout_ok fw (s2_disk st)) fs config st1 of
         None \<Rightarrow> None
       | Some (None, st4) \<Rightarrow> Some (False, Some image_bytes, Some config, st4)
       | Some (Some bytes, st4) \<Rightarrow> Some (True, Some bytes, Some config, st4))"
proof -
  let ?safe = "health_layout_ok fw (s2_disk st)"
  let ?st1 = "serial_write ''JOSHBOOT_CONFIG_OK\<newline>'' (serial_write ''JOSHBOOT_FAT32_OK\<newline>''
    (if \<not> ?safe then serial_write ''JOSHBOOT_HEALTH_LAYOUT_UNSAFE_VOLATILE\<newline>''
       (serial_write ''JOSHBOOT_PARTITION_OK\<newline>'' st) else serial_write ''JOSHBOOT_PARTITION_OK\<newline>'' st))"
  have "s2_disk ?st1 = s2_disk st" by simp
  moreover have "load_kernel_file fw (Some image_bytes) (Some c0) st =
      (case load_kernel_slots fw ?safe fs config ?st1 of
         None \<Rightarrow> None
       | Some (None, st4) \<Rightarrow> Some (False, Some image_bytes, Some config, st4)
       | Some (Some bytes, st4) \<Rightarrow> Some (True, Some bytes, Some config, st4))"
    using assms by (simp add: load_kernel_file_def Let_def health_layout_ok_def)
  ultimately show ?thesis by (rule that)
qed

lemma load_kernel_slots_returns:
  assumes "bios_fs fs"
  shows "\<exists>r st'. load_kernel_slots fw safe fs config st = Some (r, st')"
proof (rule load_kernel_slots_start [of fw safe fs config st])
  fix h1 st3
  assume eq: "load_kernel_slots fw safe fs config st =
    (case candidate_loop fw fs config 3 h1 (boot_slot fw safe (s2_disk st)) st3 of
       None \<Rightarrow> None
     | Some (Some bytes, st4) \<Rightarrow> Some (Some bytes, st4)
     | Some (None, st4) \<Rightarrow> Some (None, serial_write ''JOSHBOOT_ERROR_KERNEL_CANDIDATES\<newline>'' st4))"
  show "\<exists>r st'. load_kernel_slots fw safe fs config st = Some (r, st')"
    unfolding eq using candidate_loop_returns [OF assms, of fw config 3 h1 _ st3]
    by (auto split: option.split)
qed

lemma load_kernel_file_returns: "\<exists>r. load_kernel_file fw image_bytes config st = Some r"
proof (cases "image_bytes = None \<or> config = None")
  case True
  then show ?thesis by (simp add: load_kernel_file_def del: split_paired_Ex)
next
  case False
  then obtain c0 where c0: "config = Some c0" by auto
  let ?dev = "bios_device fw (s2_disk st)"
  show ?thesis
  proof (cases "josh_partition_find_boot (Some ?dev) True")
    case (Inl status)
    then show ?thesis using False by (simp add: load_kernel_file_def del: split_paired_Ex)
  next
    case part: (Inr part)
    show ?thesis
    proof (cases "josh_fat32_mount (Some ?dev) (Some part) True")
      case (Inl status)
      then show ?thesis using False part by (simp add: load_kernel_file_def Let_def del: split_paired_Ex)
    next
      case (Inr fs)
      note fs = mount_bios_fs [OF this]
      obtain message config' where cfg: "load_boot_config fs (Some c0) = Some (message, Some config')"
        using load_boot_config_returns [of fs c0] fs by (auto simp: bios_fs_def)
      show ?thesis
      proof (cases message)
        case (Some m)
        then show ?thesis
          using False c0 part Inr cfg by (simp add: load_kernel_file_def Let_def del: split_paired_Ex)
      next
        case None
        from False obtain n where n: "image_bytes = Some n" by auto
        obtain st1 where "load_kernel_file fw (Some n) (Some c0) st =
          (case load_kernel_slots fw (health_layout_ok fw (s2_disk st)) fs config' st1 of
             None \<Rightarrow> None
           | Some (None, st4) \<Rightarrow> Some (False, Some n, Some config', st4)
           | Some (Some bytes, st4) \<Rightarrow> Some (True, Some bytes, Some config', st4))"
          using load_kernel_file_call [OF part Inr cfg [unfolded None]] by blast
        then show ?thesis
          using load_kernel_slots_returns [OF fs(1), of fw "health_layout_ok fw (s2_disk st)" config' st1]
          by (auto simp: n c0 simp del: split_paired_Ex split: option.split)
      qed
    qed
  qed
qed

section \<open>What is booted\<close>

text \<open>
  The outcome of a boot as a function of the disk: the first acceptable kernel on the fallback chain
  that starts at the slot of the health record, when there is a partition, a file system and a
  configuration.
\<close>

definition boot_outcome :: "'d bios \<Rightarrow> 'd \<Rightarrow> josh_boot_config \<Rightarrow> bytes option" where
  "boot_outcome fw d c0 =
     (case josh_partition_find_boot (Some (bios_device fw d)) True of
        Inl status \<Rightarrow> None
      | Inr part \<Rightarrow>
          (case josh_fat32_mount (Some (bios_device fw d)) (Some part) True of
             Inl status \<Rightarrow> None
           | Inr fs \<Rightarrow>
               (case load_boot_config fs (Some c0) of
                  Some (None, Some config) \<Rightarrow>
                    first_kernel fw fs d config (fallback_chain config (boot_slot fw (health_layout_ok fw d) d))
                | _ \<Rightarrow> None)))"

lemma health_sectors: "sectors JOSH_BOOT_HEALTH_LBA_A 2 = unat ` health_lbas"
  by (auto simp: sectors_def health_lbas_def health_lba_defs)

lemma health_apart_mounted:
  assumes "josh_partition_find_boot (Some (bios_device fw d)) True = Inr part"
    and "josh_fat32_mount (Some (bios_device fw d)) (Some part) True = Inr fs"
  shows "health_apart fs (st\<lparr> health_persistent_enabled := health_layout_ok fw d \<rparr>)"
proof (cases "health_layout_ok fw d")
  case True
  then have "sectors JOSH_BOOT_HEALTH_LBA_A 2 \<inter> sectors (first_lba part) (sector_count part) = {}"
    using unallocated_boot_disjoint assms(1) unfolding health_layout_ok_def by blast
  moreover have "unat ` partition_region fs \<subseteq> sectors (first_lba part) (sector_count part)"
    using mount_inv [OF assms(2)] by (auto simp: partition_region_def sectors_def)
  ultimately have "partition_region fs \<inter> health_lbas = {}" unfolding health_sectors by blast
  then show ?thesis by (simp add: health_apart_def)
qed (simp add: health_apart_def)

lemma load_kernel_file_outcome:
  assumes "bios_writes_in_place fw"
  shows "\<exists>config' st'. load_kernel_file fw (Some image_bytes) (Some c0) st =
      (case boot_outcome fw (s2_disk st) c0 of
         None \<Rightarrow> Some (False, Some image_bytes, config', st')
       | Some image0 \<Rightarrow> Some (True, Some (of_nat (length image0)), config', st'))
    \<and> (\<forall>image0. boot_outcome fw (s2_disk st) c0 = Some image0 \<longrightarrow>
         0 < length image0 \<and> length image0 \<le> unat KERNEL_IMAGE_BYTES
         \<and> mem_bytes (s2_mem st') KERNEL_IMAGE_ADDR (length image0) = image0)"
proof -
  let ?dev = "bios_device fw (s2_disk st)" and ?safe = "health_layout_ok fw (s2_disk st)"
  show ?thesis
  proof (cases "josh_partition_find_boot (Some ?dev) True")
    case (Inl status)
    then show ?thesis by (simp add: load_kernel_file_def boot_outcome_def)
  next
    case part: (Inr part)
    show ?thesis
    proof (cases "josh_fat32_mount (Some ?dev) (Some part) True")
      case (Inl status)
      then show ?thesis using part by (simp add: load_kernel_file_def boot_outcome_def Let_def)
    next
      case mount: (Inr fs)
      note fs = mount_bios_fs [OF mount]
      obtain message config where cfg: "load_boot_config fs (Some c0) = Some (message, Some config)"
        using load_boot_config_returns [of fs c0] fs by (auto simp: bios_fs_def)
      show ?thesis
      proof (cases message)
        case (Some m)
        then show ?thesis using part mount cfg by (simp add: load_kernel_file_def boot_outcome_def Let_def)
      next
        case None
        obtain st1 where st1: "s2_disk st1 = s2_disk st"
          and call: "load_kernel_file fw (Some image_bytes) (Some c0) st =
          (case load_kernel_slots fw ?safe fs config st1 of
             None \<Rightarrow> None
           | Some (None, st4) \<Rightarrow> Some (False, Some image_bytes, Some config, st4)
           | Some (Some bytes, st4) \<Rightarrow> Some (True, Some bytes, Some config, st4))"
          using load_kernel_file_call [OF part mount cfg [unfolded None]] by blast
        obtain h1 st3 where slots: "load_kernel_slots fw ?safe fs config st1 =
           (case candidate_loop fw fs config 3 h1 (boot_slot fw ?safe (s2_disk st1)) st3 of
              None \<Rightarrow> None
            | Some (Some bytes, st4) \<Rightarrow> Some (Some bytes, st4)
            | Some (None, st4) \<Rightarrow> Some (None, serial_write ''JOSHBOOT_ERROR_KERNEL_CANDIDATES\<newline>'' st4))"
          and h1: "josh_boot_health_valid (Some h1)"
          and step: "disk_step fw (st1\<lparr> health_persistent_enabled := ?safe \<rparr>) st3"
          by (rule load_kernel_slots_start [of fw ?safe fs config st1]) (use assms in blast)
        note apart = health_apart_mounted [OF part mount, of st1]
        have same: "first_kernel fw fs (s2_disk st3) config slots = first_kernel fw fs (s2_disk st) config slots" for slots
          using first_kernel_step [OF fs(1) apart step] st1 by simp
        have outcome: "boot_outcome fw (s2_disk st) c0 =
            first_kernel fw fs (s2_disk st) config (fallback_chain config (boot_slot fw ?safe (s2_disk st)))"
          using part mount cfg None by (simp add: boot_outcome_def)
        from candidate_loop_spec [OF fs(1) assms health_apart_step [OF apart step] h1, of config 3 "boot_slot fw ?safe (s2_disk st)"]
        obtain st4 where loop: "candidate_loop fw fs config 3 h1 (boot_slot fw ?safe (s2_disk st)) st3 =
            Some (map_option (\<lambda>b. of_nat (length b)) (boot_outcome fw (s2_disk st) c0), st4)"
          and image0: "\<forall>b. boot_outcome fw (s2_disk st) c0 = Some b \<longrightarrow>
            0 < length b \<and> length b \<le> 4194304 \<and> mem_bytes (s2_mem st4) KERNEL_IMAGE_ADDR (length b) = b"
          unfolding same outcome fallback_slots_3 by blast
        then show ?thesis
          unfolding call slots st1 by (cases "boot_outcome fw (s2_disk st) c0") auto
      qed
    qed
  qed
qed

text \<open>
  C2. Which kernel is booted: the call succeeds exactly when some slot on the fallback chain
  (the chosen slot, then the previous kernel if the chosen one is the current, then recovery) has a
  kernel file that the ELF validator accepts, as the disk was when the loader started; then the
  first such kernel is in the staging area byte for byte and its size is reported. The health
  records saved on the way do not influence the choice.
\<close>

theorem load_kernel_file_first:
  assumes "bios_writes_in_place fw"
  shows "\<exists>config' st'. load_kernel_file fw (Some image_bytes) (Some c0) st =
      (case boot_outcome fw (s2_disk st) c0 of
         None \<Rightarrow> Some (False, Some image_bytes, config', st')
       | Some image0 \<Rightarrow> Some (True, Some (of_nat (length image0)), config', st'))
    \<and> (\<forall>image0. boot_outcome fw (s2_disk st) c0 = Some image0 \<longrightarrow>
         0 < length image0 \<and> length image0 \<le> unat KERNEL_IMAGE_BYTES
         \<and> mem_bytes (s2_mem st') KERNEL_IMAGE_ADDR (length image0) = image0)"
  using assms by (rule load_kernel_file_outcome)

section \<open>What is written\<close>

lemma load_kernel_slots_step:
  assumes "bios_fs fs" "bios_writes_in_place fw" "load_kernel_slots fw safe fs config st = Some (r, st')"
  shows "disk_step fw (st\<lparr> health_persistent_enabled := safe \<rparr>) st'"
proof (rule load_kernel_slots_start [of fw safe fs config st])
  fix h1 st3
  assume eq: "load_kernel_slots fw safe fs config st =
    (case candidate_loop fw fs config 3 h1 (boot_slot fw safe (s2_disk st)) st3 of
       None \<Rightarrow> None
     | Some (Some bytes, st4) \<Rightarrow> Some (Some bytes, st4)
     | Some (None, st4) \<Rightarrow> Some (None, serial_write ''JOSHBOOT_ERROR_KERNEL_CANDIDATES\<newline>'' st4))"
    and step: "bios_writes_in_place fw \<Longrightarrow> disk_step fw (st\<lparr> health_persistent_enabled := safe \<rparr>) st3"
  obtain r4 st4 where loop: "candidate_loop fw fs config 3 h1 (boot_slot fw safe (s2_disk st)) st3 = Some (r4, st4)"
    using candidate_loop_returns [OF assms(1)] by blast
  then have "disk_step fw (st\<lparr> health_persistent_enabled := safe \<rparr>) st4"
    using disk_step_trans [OF step [OF assms(2)] candidate_loop_step [OF assms(1,2)]] by blast
  then show ?thesis using assms(3) eq loop by (auto split: option.split_asm)
qed

lemma load_kernel_file_step:
  assumes "bios_writes_in_place fw" "load_kernel_file fw image_bytes config st = Some (ok, image_bytes', config', st')"
  shows "same_outside_health fw (s2_disk st) (s2_disk st')
    \<and> (s2_disk st' \<noteq> s2_disk st \<longrightarrow> health_layout_ok fw (s2_disk st)
         \<and> (\<exists>part. josh_partition_find_boot (Some (bios_device fw (s2_disk st))) True = Inr part))"
proof -
  consider (early) "s2_disk st' = s2_disk st"
    | (slots) part fs c1 st1 r where "josh_partition_find_boot (Some (bios_device fw (s2_disk st))) True = Inr part"
      "josh_fat32_mount (Some (bios_device fw (s2_disk st))) (Some part) True = Inr fs"
      "s2_disk st1 = s2_disk st"
      "load_kernel_slots fw (health_layout_ok fw (s2_disk st)) fs c1 st1 = Some (r, st')"
  proof (cases "image_bytes = None \<or> config = None")
    case True
    then show ?thesis using that(1) assms(2) by (simp add: load_kernel_file_def)
  next
    case False
    then obtain n c0 where nc: "image_bytes = Some n" "config = Some c0" by auto
    show ?thesis
    proof (cases "josh_partition_find_boot (Some (bios_device fw (s2_disk st))) True")
      case (Inl status)
      then show ?thesis using that(1) assms(2) nc by (auto simp: load_kernel_file_def Let_def)
    next
      case part: (Inr part)
      show ?thesis
      proof (cases "josh_fat32_mount (Some (bios_device fw (s2_disk st))) (Some part) True")
        case (Inl status)
        then show ?thesis using that(1) assms(2) nc part by (auto simp: load_kernel_file_def Let_def)
      next
        case mount: (Inr fs)
        obtain message c1 where cfg: "load_boot_config fs (Some c0) = Some (message, Some c1)"
          using load_boot_config_returns [of fs c0] mount_bios_fs [OF mount] by (auto simp: bios_fs_def)
        show ?thesis
        proof (cases message)
          case (Some m)
          then show ?thesis using that(1) assms(2) nc part mount cfg by (auto simp: load_kernel_file_def Let_def)
        next
          case None
          obtain st1 where st1: "s2_disk st1 = s2_disk st"
            and call: "load_kernel_file fw (Some n) (Some c0) st =
            (case load_kernel_slots fw (health_layout_ok fw (s2_disk st)) fs c1 st1 of
               None \<Rightarrow> None
             | Some (None, st4) \<Rightarrow> Some (False, Some n, Some c1, st4)
             | Some (Some bytes, st4) \<Rightarrow> Some (True, Some bytes, Some c1, st4))"
            using load_kernel_file_call [OF part mount cfg [unfolded None]] by blast
          then obtain r where "load_kernel_slots fw (health_layout_ok fw (s2_disk st)) fs c1 st1 = Some (r, st')"
            using assms(2) nc by (auto split: option.split_asm)
          then show ?thesis using that(2) part mount st1 by blast
        qed
      qed
    qed
  qed
  then show ?thesis
  proof cases
    case early
    then show ?thesis by (simp add: same_outside_health_def)
  next
    case slots
    from load_kernel_slots_step [OF mount_bios_fs(1) [OF slots(2)] assms(1) slots(4)]
    show ?thesis using slots(1,3) by (auto simp: disk_step_def)
  qed
qed

text \<open>
  C10. The loader never damages the disk it boots from: the only sectors whose content can differ
  after it are the two health sectors, they are only written when the partition table leaves them
  free, and then they are not part of the boot partition.
\<close>

theorem boot_writes_only_health:
  assumes "bios_writes_in_place fw" "load_kernel_file fw image_bytes config st = Some (ok, image_bytes', config', st')"
  shows "(\<forall>lba. lba \<noteq> JOSH_BOOT_HEALTH_LBA_A \<and> lba \<noteq> JOSH_BOOT_HEALTH_LBA_B \<longrightarrow>
      read_sector (bios_device fw (s2_disk st')) lba = read_sector (bios_device fw (s2_disk st)) lba)
    \<and> (s2_disk st' \<noteq> s2_disk st \<longrightarrow>
        josh_partition_range_is_unallocated (Some (bios_device fw (s2_disk st))) JOSH_BOOT_HEALTH_LBA_A 2
        \<and> (\<exists>part. josh_partition_find_boot (Some (bios_device fw (s2_disk st))) True = Inr part
            \<and> sectors JOSH_BOOT_HEALTH_LBA_A 2 \<inter> sectors (first_lba part) (sector_count part) = {}))"
  using load_kernel_file_step [OF assms] unallocated_boot_disjoint
  by (fastforce simp: same_outside_health_def health_lbas_def health_layout_ok_def)

section \<open>What a successful load hands on\<close>

lemma read_kernel_candidate_size:
  "read_kernel_candidate fw fs path st = Some (Some n, st') \<Longrightarrow> n \<le> KERNEL_IMAGE_BYTES"
  by (auto simp: read_kernel_candidate_def Let_def split: option.splits sum.splits if_split_asm)

lemma candidate_loop_size:
  "candidate_loop fw fs config n health slot st = Some (Some b, st') \<Longrightarrow> b \<le> KERNEL_IMAGE_BYTES"
proof (induction n arbitrary: health slot st)
  case (Suc n)
  then show ?case
    by (auto simp: split: option.splits if_split_asm prod.splits dest: read_kernel_candidate_size)
qed simp

lemma load_boot_config_wf:
  "load_boot_config fs (Some c0) = Some (None, cfg) \<Longrightarrow> \<exists>c. cfg = Some c \<and> config_wf c"
proof -
  assume "load_boot_config fs (Some c0) = Some (None, cfg)"
  then obtain buf n where p: "josh_boot_config_parse (Some buf) n (Some c0) = (JOSH_CONFIG_OK, cfg)"
    by (auto simp: load_boot_config_def split: option.splits sum.splits if_split_asm prod.splits)
  moreover then obtain c where "cfg = Some c"
    by (auto simp: josh_boot_config_parse_def split: prod.splits if_split_asm)
  ultimately show ?thesis using parse_wf by blast
qed

lemma load_kernel_file_success:
  assumes "load_kernel_file fw (Some n) (Some c0) st = Some (True, image_bytes, cfg, st')"
  obtains b c where "image_bytes = Some b" "b \<le> KERNEL_IMAGE_BYTES" "cfg = Some c" "config_wf c"
proof -
  from assms obtain safe fs st1 b c where "load_boot_config fs (Some c0) = Some (None, cfg)"
    "load_kernel_slots fw safe fs (the cfg) st1 = Some (Some b, st')" "image_bytes = Some b"
    by (auto simp: load_kernel_file_def Let_def split: option.splits sum.splits if_split_asm prod.splits)
  moreover then have "b \<le> KERNEL_IMAGE_BYTES"
    by (auto simp: load_kernel_slots_def Let_def split: option.splits if_split_asm prod.splits dest: candidate_loop_size)
  ultimately show ?thesis using load_boot_config_wf that by blast
qed

end
