(* ===== verification/JB_Paging.thy ===== *)
theory JB_Paging
  imports JB_Memory
begin

text \<open>
  The page tables of the BIOS loader: \<open>build_page_tables\<close> of \<open>boot/stage2_pm.c\<close>, over the same
  physical memory as the rest of the loader, and the four-level address translation of the
  processor as the specification they are checked against.
\<close>

definition KERNEL_VIRT_BASE :: u64 where "KERNEL_VIRT_BASE = 0xFFFFFFFF80000000"
definition KERNEL_PHYS_BASE :: u32 where "KERNEL_PHYS_BASE = 0x00200000"
definition KERNEL_PHYS_LIMIT :: u32 where "KERNEL_PHYS_LIMIT = 0x08000000"

definition PML4_ADDR :: u32 where "PML4_ADDR = 0x00050000"
definition PDPT_LOW_ADDR :: u32 where "PDPT_LOW_ADDR = 0x00051000"
definition PD_LOW0_ADDR :: u32 where "PD_LOW0_ADDR = 0x00052000"
definition PDPT_HIGH_ADDR :: u32 where "PDPT_HIGH_ADDR = 0x00056000"
definition PD_HIGH_ADDR :: u32 where "PD_HIGH_ADDR = 0x00057000"

definition PAGE_PRESENT :: u64 where "PAGE_PRESENT = 0x001"
definition PAGE_RW :: u64 where "PAGE_RW = 0x002"
definition PAGE_PS :: u64 where "PAGE_PS = 0x080"

lemmas paging_constants = PML4_ADDR_def PDPT_LOW_ADDR_def PD_LOW0_ADDR_def PDPT_HIGH_ADDR_def
  PD_HIGH_ADDR_def PAGE_PRESENT_def PAGE_RW_def PAGE_PS_def

text \<open>Access to a little-endian 64-bit object: \<open>p[i] = v\<close> and \<open>p[i]\<close> for an \<open>unsigned long long *\<close>.\<close>

definition store64 :: "'a :: len memory \<Rightarrow> 'a word \<Rightarrow> u64 \<Rightarrow> 'a memory" where
  "store64 m a v = mem_store m a (le64_bytes v)"

definition load64 :: "'a :: len memory \<Rightarrow> 'a word \<Rightarrow> u64" where
  "load64 m a = read_le64 (mem_bytes m a 8)"

text \<open>The 512 assignments \<open>pd[i] = entry i\<close> of a filling loop.\<close>

definition fill_table :: "32 memory \<Rightarrow> u32 \<Rightarrow> (nat \<Rightarrow> u64) \<Rightarrow> 32 memory" where
  "fill_table m pd entry = fold (\<lambda>i m'. store64 m' (pd + 8 * of_nat i) (entry i)) [0..<512] m"

text \<open>One round of the loop over the four low gigabytes.\<close>

definition map_gib :: "nat \<Rightarrow> 32 memory \<Rightarrow> 32 memory" where
  "map_gib gib m =
     (let pd_address = PD_LOW0_ADDR + of_nat gib * 0x1000;
          m1 = store64 m (PDPT_LOW_ADDR + 8 * of_nat gib) (ucast pd_address OR PAGE_PRESENT OR PAGE_RW)
      in fill_table m1 pd_address
           (\<lambda>i. ((of_nat gib * 512 + of_nat i) * 0x200000) OR PAGE_PRESENT OR PAGE_RW OR PAGE_PS))"

definition build_page_tables :: "32 memory \<Rightarrow> 32 memory" where
  "build_page_tables m =
     (let m0 = memzero m PML4_ADDR 0x8000;
          m1 = store64 m0 (PML4_ADDR + 8 * 0) (ucast PDPT_LOW_ADDR OR PAGE_PRESENT OR PAGE_RW);
          m2 = fold map_gib [0..<4] m1;
          m3 = store64 m2 (PML4_ADDR + 8 * 511) (ucast PDPT_HIGH_ADDR OR PAGE_PRESENT OR PAGE_RW);
          m4 = store64 m3 (PDPT_HIGH_ADDR + 8 * 510) (ucast PD_HIGH_ADDR OR PAGE_PRESENT OR PAGE_RW)
      in fill_table m4 PD_HIGH_ADDR
           (\<lambda>i. (ucast KERNEL_PHYS_BASE + of_nat i * 0x200000) OR PAGE_PRESENT OR PAGE_RW OR PAGE_PS))"

section \<open>Specification: four-level translation\<close>

text \<open>
  What the processor does with a canonical address in long mode: \<open>read\<close> reads a table entry at a
  physical address. Only the bits the loaders use are interpreted; the result is the physical
  address of a page that is present and writable at every level.
\<close>

definition entry_address :: "u64 \<Rightarrow> u64" where
  "entry_address e = e AND 0x000FFFFFFFFFF000"

definition entry_usable :: "u64 \<Rightarrow> bool" where
  "entry_usable e \<longleftrightarrow> e AND 1 \<noteq> 0 \<and> e AND 2 \<noteq> 0"

definition table_index :: "nat \<Rightarrow> u64 \<Rightarrow> u64" where
  "table_index shift va = drop_bit shift va AND 511"

definition canonical :: "u64 \<Rightarrow> bool" where
  "canonical va \<longleftrightarrow> va < 0x0000800000000000 \<or> va \<ge> 0xFFFF800000000000"

definition x86_translate :: "(u64 \<Rightarrow> u64) \<Rightarrow> u64 \<Rightarrow> u64 \<Rightarrow> u64 option" where
  "x86_translate read pml4 va =
     (if \<not> canonical va then None
      else
        let e4 = read (pml4 + 8 * table_index 39 va) in
        if \<not> entry_usable e4 then None
        else
          let e3 = read (entry_address e4 + 8 * table_index 30 va) in
          if \<not> entry_usable e3 then None
          else if e3 AND 0x80 \<noteq> 0 then Some ((e3 AND 0x000FFFFFC0000000) + (va AND 0x3FFFFFFF))
          else
            let e2 = read (entry_address e3 + 8 * table_index 21 va) in
            if \<not> entry_usable e2 then None
            else if e2 AND 0x80 \<noteq> 0 then Some ((e2 AND 0x000FFFFFFFE00000) + (va AND 0x1FFFFF))
            else
              let e1 = read (entry_address e2 + 8 * table_index 12 va) in
              if \<not> entry_usable e1 then None else Some (entry_address e1 + (va AND 0xFFF)))"

text \<open>Physical reads in the memory of the BIOS loader.\<close>

definition phys_read64 :: "32 memory \<Rightarrow> u64 \<Rightarrow> u64" where
  "phys_read64 m a = load64 m (ucast a)"

section \<open>Memory as 64-bit cells\<close>

text \<open>The aligned 64-bit objects of memory, by index.\<close>

definition cell_addr :: "nat \<Rightarrow> u32" where
  "cell_addr i = of_nat (8 * i)"

definition cell :: "32 memory \<Rightarrow> nat \<Rightarrow> u64" where
  "cell m i = load64 m (cell_addr i)"

lemma unat_cell_addr [simp]: "i < 2 ^ 29 \<Longrightarrow> unat (cell_addr i) = 8 * i"
  by (simp add: cell_addr_def unat_of_nat take_bit_nat_eq_self del: of_nat_mult)

lemma cell_addr_add: "cell_addr b + 8 * of_nat i = cell_addr (b + i)"
  by (simp add: cell_addr_def distrib_left)

lemma region_cell:
  "b + n \<le> 2 ^ 29 \<Longrightarrow> 0 < n \<Longrightarrow> x \<in> region (cell_addr b) (8 * n) \<longleftrightarrow> 8 * b \<le> unat x \<and> unat x < 8 * (b + n)"
  by (subst region_bounds) simp_all

lemma region_cells_disjoint:
  assumes "i < 2 ^ 29" "j < 2 ^ 29" "i \<noteq> j"
  shows "region (cell_addr i) 8 \<inter> region (cell_addr j) 8 = {}"
  using region_cell [of i 1] region_cell [of j 1] assms by auto

lemma cell_store64:
  assumes "i < 2 ^ 29" "j < 2 ^ 29"
  shows "cell (store64 m (cell_addr i) v) j = (if i = j then v else cell m j)"
proof (cases "i = j")
  case True
  then show ?thesis using mem_bytes_store [of "le64_bytes v" m "cell_addr i"]
    by (simp add: cell_def load64_def store64_def codec_simps)
next
  case False
  then show ?thesis
    using mem_bytes_frame [of "cell_addr j" 8 "cell_addr i" "le64_bytes v" m]
      region_cells_disjoint [of j i] assms
    by (simp add: cell_def load64_def store64_def)
qed

lemma cell_fill:
  assumes "b + n < 2 ^ 29" "j < 2 ^ 29"
  shows "cell (fold (\<lambda>i m'. store64 m' (cell_addr b + 8 * of_nat i) (entry i)) [0..<n] m) j =
     (if b \<le> j \<and> j < b + n then entry (j - b) else cell m j)"
  using assms(1)
proof (induction n)
  case (Suc n)
  then show ?case
    using assms(2) by (auto simp: cell_addr_add cell_store64)
qed auto

lemma cell_fill_table:
  assumes "b + 512 < 2 ^ 29" "j < 2 ^ 29"
  shows "cell (fill_table m (cell_addr b) entry) j = (if b \<le> j \<and> j < b + 512 then entry (j - b) else cell m j)"
  unfolding fill_table_def by (rule cell_fill [OF assms])

lemma cell_memzero:
  assumes "b + n < 2 ^ 29" "b \<le> j" "j < b + n"
  shows "cell (memzero m (cell_addr b) (8 * n)) j = 0"
proof -
  have "memzero m (cell_addr b) (8 * n) x = 0" if "x \<in> region (cell_addr j) 8" for x
  proof -
    have "x \<in> region (cell_addr b) (8 * n)"
      using that assms region_cell [of b n x] region_cell [of j 1 x] by simp
    moreover then have "unat (x - cell_addr b) < 8 * n" by (simp add: region_def)
    ultimately show ?thesis using assms by (simp add: memzero_store mem_store_apply)
  qed
  then have "mem_bytes (memzero m (cell_addr b) (8 * n)) (cell_addr j) 8 = mem_bytes (\<lambda>_. 0) (cell_addr j) 8"
    by (intro mem_bytes_eqI) simp_all
  then show ?thesis unfolding cell_def load64_def
    by (simp only:) (simp add: read_le64_def read_le32_def)
qed

section \<open>The tables that are built\<close>

lemma table_cells:
  "PML4_ADDR = cell_addr 0xA000" "PDPT_LOW_ADDR = cell_addr 0xA200" "PDPT_HIGH_ADDR = cell_addr 0xAC00"
  "PD_HIGH_ADDR = cell_addr 0xAE00"
  "PD_LOW0_ADDR + of_nat gib * 0x1000 = cell_addr (0xA400 + 512 * gib)"
  by (simp_all add: paging_constants cell_addr_def distrib_left)

lemma cell_map_gib:
  assumes "gib < 4" "j < 2 ^ 29"
  shows "cell (map_gib gib m) j =
     (if 0xA400 + 512 * gib \<le> j \<and> j < 0xA600 + 512 * gib
      then ((of_nat gib * 512 + of_nat (j - (0xA400 + 512 * gib))) * 0x200000) OR PAGE_PRESENT OR PAGE_RW OR PAGE_PS
      else if j = 0xA200 + gib then ucast (PD_LOW0_ADDR + of_nat gib * 0x1000) OR PAGE_PRESENT OR PAGE_RW
      else cell m j)"
  using assms
  by (simp add: map_gib_def Let_def table_cells cell_fill_table cell_addr_add cell_store64)

text \<open>The contents of the eight pages, by level.\<close>

lemma cell_build:
  assumes "0xA000 \<le> j" "j < 0xB000"
  shows "cell (build_page_tables m) j =
     (if j = 0xA000 then 0x51003
      else if j = 0xA1FF then 0x56003
      else if 0xA200 \<le> j \<and> j < 0xA204 then 0x52003 + of_nat (j - 0xA200) * 0x1000
      else if 0xA400 \<le> j \<and> j < 0xAC00 then (of_nat (j - 0xA400) * 0x200000) OR 0x83
      else if j = 0xADFE then 0x57003
      else if 0xAE00 \<le> j then (of_nat (j - 0xAE00 + 1) * 0x200000) OR 0x83
      else 0)" (is "_ = ?R")
proof -
  have j: "j < 2 ^ 29" using assms by simp
  have four: "fold map_gib [0..<4] m' = map_gib 3 (map_gib 2 (map_gib 1 (map_gib 0 m')))" for m'
    by (simp add: upt_rec numeral_eq_Suc)
  have zero: "cell (memzero m PML4_ADDR 0x8000) j = 0"
    using cell_memzero [of "0xA000" "0x1000" j m] assms by (simp add: table_cells)
  have addr: "cell_addr 0xA000 + 0xFF8 = cell_addr 0xA1FF" "cell_addr 0xAC00 + 0xFF0 = cell_addr 0xADFE"
    by (simp_all add: cell_addr_def)
  define hi where "hi = (\<lambda>i. (ucast KERNEL_PHYS_BASE + of_nat i * 0x200000 :: u64) OR PAGE_PRESENT OR PAGE_RW OR PAGE_PS)"
  have top: "cell (build_page_tables m) j =
     (if 0xAE00 \<le> j then hi (j - 0xAE00)
      else if j = 0xADFE then 0x57003
      else if j = 0xA1FF then 0x56003
      else cell (fold map_gib [0..<4] (store64 (memzero m PML4_ADDR 0x8000) (cell_addr 0xA000) 0x51003)) j)"
    using j assms unfolding build_page_tables_def Let_def hi_def [symmetric]
    by (simp add: table_cells(1-4) cell_fill_table cell_store64 addr)
       (simp add: table_cells(1-4) [symmetric] paging_constants)
  have low: "cell (fold map_gib [0..<4] (store64 (memzero m PML4_ADDR 0x8000) (cell_addr 0xA000) 0x51003)) j =
      (if j = 0xA000 then 0x51003
       else if 0xA200 \<le> j \<and> j < 0xA204 then 0x52003 + of_nat (j - 0xA200) * 0x1000
       else if 0xA400 \<le> j \<and> j < 0xAC00 then (of_nat (j - 0xA400) * 0x200000) OR 0x83
       else 0)" (is "?A = ?B")
  proof -
    consider "j < 0xA200" | "j = 0xA200" | "j = 0xA201" | "j = 0xA202" | "j = 0xA203" | "0xA204 \<le> j" "j < 0xA400"
      | "0xA400 \<le> j" "j < 0xA600" | "0xA600 \<le> j" "j < 0xA800" | "0xA800 \<le> j" "j < 0xAA00"
      | "0xAA00 \<le> j" "j < 0xAC00" | "0xAC00 \<le> j"
      using not_le by force
    then show ?thesis
      unfolding four using j
      by cases (simp_all add: cell_map_gib cell_store64 zero [unfolded PML4_ADDR_def] paging_constants)
  qed
  show ?thesis unfolding top low using assms
    by (simp add: hi_def KERNEL_PHYS_BASE_def paging_constants distrib_right)
qed

section \<open>Translation\<close>

lemma unat_table_index: "unat (table_index s va) = unat va div 2 ^ s mod 512"
proof -
  have m: "(511 :: u64) = mask 9" by (simp add: mask_eq_exp_minus_1)
  have "table_index s va = take_bit 9 (drop_bit s va)"
    unfolding table_index_def m take_bit_eq_mask ..
  then show ?thesis using unsigned_less [of va, where ?'a = nat]
    by (simp only: unsigned_take_bit_eq unsigned_drop_bit_eq) (simp add: take_bit_eq_mod drop_bit_eq_div)
qed

lemma phys_read64_cell: "phys_read64 m (of_nat (8 * b) + 8 * i) = cell m (b + unat i)"
proof -
  have "ucast (of_nat n :: u64) = (of_nat n :: u32)" for n
    by (simp add: word_unat_eq_iff unsigned_ucast_eq unat_of_nat take_bit_eq_mod mod_mod_cancel)
  moreover have "of_nat (8 * b) + 8 * i = of_nat (8 * (b + unat i))" by (simp add: distrib_left)
  ultimately show ?thesis by (simp only: phys_read64_def cell_def cell_addr_def)
qed

lemma large_entry:
  fixes n :: nat
  assumes "n < 2 ^ 31"
  defines "e \<equiv> of_nat n * 0x200000 OR 0x83 :: u64"
  shows "entry_usable e" "e AND 0x80 \<noteq> 0" "e AND 0x000FFFFFFFE00000 = of_nat n * 0x200000"
proof -
  have e: "e = push_bit 21 (of_nat n) OR 0x83" by (simp add: e_def push_bit_eq_mult)
  have bits: "bit e 0" "bit e 1" "bit e 7" by (simp_all add: e bit_simps)
  have "bit (e AND 1) 0" "bit (e AND 2) 1" "bit (e AND 0x80) 7" using bits by (simp_all add: bit_simps)
  then show "entry_usable e" "e AND 0x80 \<noteq> 0" by (auto simp: entry_usable_def)
  have x: "(of_nat n :: u64) AND mask 31 = of_nat n"
    using assms(1)
    by (simp only: take_bit_eq_mask [symmetric])
      (simp add: word_unat_eq_iff unsigned_take_bit_eq unat_of_nat take_bit_nat_eq_self)
  have "e AND 0x000FFFFFFFE00000 = push_bit 21 (of_nat n) AND 0x000FFFFFFFE00000 OR 0x83 AND 0x000FFFFFFFE00000"
    unfolding e by (rule bit.conj_disj_distrib2)
  also have "\<dots> = push_bit 21 (of_nat n) AND push_bit 21 (mask 31)"
    by (simp add: mask_eq_exp_minus_1 push_bit_eq_mult)
  also have "\<dots> = of_nat n * 0x200000"
    by (simp only: push_bit_and [symmetric] x) (simp add: push_bit_eq_mult)
  finally show "e AND 0x000FFFFFFFE00000 = of_nat n * 0x200000" .
qed

text \<open>The translation of a page of two megabytes, \<open>n\<close> its number.\<close>

lemma page_2m:
  fixes va :: u64
  assumes "n < 2 ^ 31"
  shows "of_nat n * 0x200000 + (va AND 0x1FFFFF) = (of_nat (n * 0x200000 + unat va mod 0x200000) :: u64)"
proof -
  have m: "(0x1FFFFF :: u64) = mask 21" by (simp add: mask_eq_exp_minus_1)
  have "unat (va AND 0x1FFFFF) = unat va mod 0x200000"
    by (simp only: m take_bit_eq_mask [symmetric] unsigned_take_bit_eq) (simp add: take_bit_eq_mod)
  then have "va AND 0x1FFFFF = of_nat (unat va mod 0x200000)" by (simp add: word_unat_eq_iff unat_of_nat take_bit_nat_eq_self)
  then show ?thesis by simp
qed

lemma translate_2m:
  assumes "canonical va" "read (pml4 + 8 * table_index 39 va) = e4" "entry_usable e4"
    and "read (entry_address e4 + 8 * table_index 30 va) = e3" "entry_usable e3" "e3 AND 0x80 = 0"
    and "read (entry_address e3 + 8 * table_index 21 va) = of_nat n * 0x200000 OR 0x83" "n < 2 ^ 31"
  shows "x86_translate read pml4 va = Some (of_nat (n * 0x200000 + unat va mod 0x200000))"
  using assms large_entry [OF assms(8)] page_2m [OF assms(8), of va]
  by (simp add: x86_translate_def del: of_nat_add of_nat_mult)

definition kernel_window :: "u64 \<Rightarrow> bool" where
  "kernel_window va \<longleftrightarrow> KERNEL_VIRT_BASE \<le> va \<and> va - KERNEL_VIRT_BASE < 0x40000000"

text \<open>The three table indices of an address as digits, \<open>v\<close> its value.\<close>

lemma address_digits:
  fixes v :: nat
  defines "i4 \<equiv> v div 2 ^ 39" and "i3 \<equiv> v div 2 ^ 30 mod 512" and "i2 \<equiv> v div 2 ^ 21 mod 512"
  shows "v = (i4 * 0x40000 + i3 * 0x200 + i2) * 0x200000 + v mod 0x200000" "i3 < 512" "i2 < 512"
proof -
  have "v div 2 ^ 39 = v div 2 ^ 30 div 512" "v div 2 ^ 30 = v div 2 ^ 21 div 512"
    using div_mult2_eq [of v "2 ^ 30" 512] div_mult2_eq [of v "2 ^ 21" 512] by simp_all
  then have "v div 2 ^ 30 = i4 * 512 + i3" "v div 2 ^ 21 = v div 2 ^ 30 * 512 + i2"
    unfolding i4_def i3_def i2_def by presburger+
  then have "v div 0x200000 = i4 * 0x40000 + i3 * 0x200 + i2" by simp
  then show "v = (i4 * 0x40000 + i3 * 0x200 + i2) * 0x200000 + v mod 0x200000"
    using div_mult_mod_eq [of v "0x200000"] by metis
qed (simp_all add: i3_def i2_def)

lemma canonical_iff: "canonical va \<longleftrightarrow> unat va < 2 ^ 47 \<or> 2 ^ 64 - 2 ^ 47 \<le> unat va"
  by (simp add: canonical_def word_less_nat_alt word_le_nat_alt)

lemma read_table:
  assumes "t = of_nat (8 * b)"
  shows "phys_read64 m (t + 8 * table_index s va) = cell m (b + unat va div 2 ^ s mod 512)"
  unfolding assms by (simp only: phys_read64_cell unat_table_index)

lemma translate_low:
  assumes "unat va < 2 ^ 39"
  shows "x86_translate (phys_read64 (build_page_tables m)) 0x50000 va = (if unat va < 2 ^ 32 then Some va else None)"
proof -
  let ?M = "build_page_tables m"
  have c: "canonical va" using assms by (simp add: canonical_iff)
  have e4: "phys_read64 ?M (0x50000 + 8 * table_index 39 va) = 0x51003"
    using assms by (simp add: read_table [where b = "0xA000"] cell_build)
  have e3: "phys_read64 ?M (0x51000 + 8 * table_index 30 va) =
      (if unat va < 2 ^ 32 then 0x52003 + of_nat (unat va div 2 ^ 30) * 0x1000 else 0)"
  proof -
    have i: "unat va div 2 ^ 30 mod 512 = unat va div 2 ^ 30"
      by (rule mod_less) (use assms in \<open>simp add: div_less_iff_less_mult\<close>)
    have "unat va div 2 ^ 30 < 512" using i by (metis mod_less_divisor zero_less_numeral)
    then show ?thesis
      by (simp only: read_table [where b = "0xA200" and t = "0x51000", simplified] i)
        (auto simp: cell_build div_less_iff_less_mult)
  qed
  have a4: "entry_usable 0x51003" "entry_address 0x51003 = 0x51000" "\<not> entry_usable 0"
    by (simp_all add: entry_usable_def entry_address_def)
  show ?thesis
  proof (cases "unat va < 2 ^ 32")
    case False
    then show ?thesis by (simp add: x86_translate_def Let_def c e4 e3 a4)
  next
    case True
    define g where "g = unat va div 2 ^ 30"
    have g: "g = 0 \<or> g = 1 \<or> g = 2 \<or> g = 3" using True by (simp add: g_def) linarith
    define n where "n = g * 512 + unat va div 2 ^ 21 mod 512"
    have n2: "n < 2048"
      using g mod_less_divisor [of 512 "unat va div 2 ^ 21"] unfolding n_def by auto
    then have n: "n < 2 ^ 31" by simp
    have a3: "entry_usable (0x52003 + of_nat g * 0x1000)" "(0x52003 + of_nat g * 0x1000) AND 0x80 = (0 :: u64)"
      "entry_address (0x52003 + of_nat g * 0x1000) = of_nat (8 * (0xA400 + 512 * g))"
      using g by (auto simp: entry_usable_def entry_address_def)
    have e2: "phys_read64 ?M (entry_address (0x52003 + of_nat g * 0x1000) + 8 * table_index 21 va) =
        of_nat n * 0x200000 OR 0x83"
      using n2 cell_build [of "0xA400 + n" m]
      by (simp only: read_table [OF a3(3)]) (simp add: n_def algebra_simps)
    have "unat va div 2 ^ 39 = 0" "g mod 512 = g" using assms g by auto
    then have "n * 0x200000 + unat va mod 0x200000 = unat va"
      using address_digits(1) [of "unat va"] unfolding n_def g_def by simp
    moreover have "x86_translate (phys_read64 ?M) 0x50000 va = Some (of_nat (n * 0x200000 + unat va mod 0x200000))"
      by (rule translate_2m [OF c e4 a4(1) _ a3(1,2) e2 n]) (use e3 True in \<open>simp add: a4 g_def\<close>)
    ultimately show ?thesis using True by simp
  qed
qed

lemma translate_high:
  assumes "2 ^ 64 - 2 ^ 39 \<le> unat va"
  shows "x86_translate (phys_read64 (build_page_tables m)) 0x50000 va =
     (if kernel_window va then Some (ucast KERNEL_PHYS_BASE + (va - KERNEL_VIRT_BASE)) else None)"
proof -
  let ?M = "build_page_tables m"
  have v: "unat va < 2 ^ 64" using unsigned_less [of va, where ?'a = nat] by simp
  have c: "canonical va" using assms by (simp add: canonical_iff)
  have i4: "unat va div 2 ^ 39 = 0x1FFFFFF"
    using assms v by (intro div_nat_eqI) simp_all
  have e4: "phys_read64 ?M (0x50000 + 8 * table_index 39 va) = 0x56003"
    using i4 by (simp add: read_table [where b = "0xA000"] cell_build)
  have a: "entry_usable 0x56003" "entry_address 0x56003 = 0x56000" "\<not> entry_usable 0"
    "entry_usable 0x57003" "entry_address 0x57003 = 0x57000"
    by (simp_all add: entry_usable_def entry_address_def)
  define i3 where "i3 = unat va div 2 ^ 30 mod 512"
  define i2 where "i2 = unat va div 2 ^ 21 mod 512"
  have dig: "unat va = (0x1FFFFFF * 0x40000 + i3 * 0x200 + i2) * 0x200000 + unat va mod 0x200000" "i3 < 512" "i2 < 512"
    using address_digits [of "unat va"] unfolding i4 i3_def i2_def by simp_all
  obtain r where rem: "unat va = (0x1FFFFFF * 0x40000 + i3 * 0x200 + i2) * 0x200000 + r" "r < 0x200000"
    using dig(1) mod_less_divisor [of "0x200000" "unat va"] by auto
  have w: "kernel_window va \<longleftrightarrow> i3 = 510"
  proof -
    have "kernel_window va \<longleftrightarrow> 0xFFFFFFFF80000000 \<le> unat va \<and> unat va < 0xFFFFFFFFC0000000"
      using v by (auto simp: kernel_window_def KERNEL_VIRT_BASE_def word_le_nat_alt word_less_nat_alt unat_diff_le)
    also have "\<dots> \<longleftrightarrow> i3 = 510"
    proof -
      have "unat va < 0xFFFFFFFF80000000" if "i3 \<le> 509" using that dig(2,3) rem by simp
      moreover have "0xFFFFFFFF80000000 \<le> unat va" "unat va < 0xFFFFFFFFC0000000" if "i3 = 510"
        using that dig(2,3) rem by simp_all
      moreover have "0xFFFFFFFFC0000000 \<le> unat va" if "511 \<le> i3" using that dig(2,3) rem by simp
      ultimately show ?thesis by linarith
    qed
    finally show ?thesis .
  qed
  have e3: "phys_read64 ?M (0x56000 + 8 * table_index 30 va) = (if i3 = 510 then 0x57003 else 0)"
    using dig(2) by (simp add: read_table [where b = "0xAC00"] cell_build i3_def [unfolded numeral_power_eq_of_nat_cancel_iff, simplified, symmetric])
  have n: "i2 + 1 < 2 ^ 31" using dig(3) by simp
  have e2: "phys_read64 ?M (0x57000 + 8 * table_index 21 va) = of_nat (i2 + 1) * 0x200000 OR 0x83"
    using dig(3) by (simp add: read_table [where b = "0xAE00"] cell_build i2_def)
  show ?thesis
  proof (cases "i3 = 510")
    case False
    then show ?thesis by (simp add: x86_translate_def Let_def c e4 e3 a w)
  next
    case True
    then have "KERNEL_VIRT_BASE \<le> va" using w by (simp add: kernel_window_def)
    then have "unat (va - KERNEL_VIRT_BASE) = i2 * 0x200000 + unat va mod 0x200000"
      using dig(1) True by (simp add: unat_diff_le KERNEL_VIRT_BASE_def)
    then have "va - KERNEL_VIRT_BASE = of_nat (i2 * 0x200000 + unat va mod 0x200000)"
      by (metis ucast_id ucast_unat_of_nat)
    then have "ucast KERNEL_PHYS_BASE + (va - KERNEL_VIRT_BASE) = of_nat ((i2 + 1) * 0x200000 + unat va mod 0x200000)"
      by (simp add: KERNEL_PHYS_BASE_def distrib_right)
    moreover have "x86_translate (phys_read64 ?M) 0x50000 va = Some (of_nat ((i2 + 1) * 0x200000 + unat va mod 0x200000))"
      by (rule translate_2m [where read = "phys_read64 ?M", OF c e4 a(1) _ a(4) _ _ n]) (use e3 e2 True in \<open>simp_all add: a\<close>)
    ultimately show ?thesis using True by (simp add: w)
  qed
qed

lemma translate_hole:
  assumes "2 ^ 39 \<le> unat va" "unat va < 2 ^ 64 - 2 ^ 39"
  shows "x86_translate (phys_read64 (build_page_tables m)) 0x50000 va = None"
proof (cases "canonical va")
  case True
  define q where "q = unat va div 2 ^ 39"
  have q: "1 \<le> q" "q < 0x1FFFFFF" "q < 256 \<or> 0x1FFFF00 \<le> q"
    using assms True by (auto simp: q_def canonical_iff div_less_iff_less_mult less_eq_div_iff_mult_less_eq)
  define i4 where "i4 = q mod 512"
  have "i4 \<noteq> 0 \<and> i4 \<noteq> 511"
  proof (cases "q < 256")
    case True
    then show ?thesis using q by (simp add: i4_def)
  next
    case False
    with q obtain s where "q = 512 * 0xFFFF + s" "256 \<le> s" "s < 511"
      using le_Suc_ex [of "0x1FFFF00" q] by (auto intro: that [of "q - 512 * 0xFFFF"])
    then show ?thesis unfolding i4_def by (simp only: mod_mult_self4) simp
  qed
  moreover have "i4 < 512" by (simp add: i4_def)
  ultimately have "phys_read64 (build_page_tables m) (0x50000 + 8 * table_index 39 va) = 0"
    using cell_build [of "0xA000 + i4" m] read_table [of "0x50000" "0xA000" _ 39 va]
    by (simp add: i4_def q_def)
  then show ?thesis by (simp add: x86_translate_def entry_usable_def)
qed (simp add: x86_translate_def)

text \<open>
  C8. The page tables the loader builds give exactly two mappings: the low four gigabytes onto
  themselves, and the gigabyte from \<open>KERNEL_VIRT_BASE\<close> onto the physical memory from
  \<open>KERNEL_PHYS_BASE\<close>. Every other virtual address is unmapped. This holds whatever the memory
  contained before.
\<close>
theorem page_tables_translate:
  "x86_translate (phys_read64 (build_page_tables m)) (ucast PML4_ADDR) va =
     (if va < 0x100000000 then Some va
      else if kernel_window va then Some (ucast KERNEL_PHYS_BASE + (va - KERNEL_VIRT_BASE))
      else None)"
proof -
  have "kernel_window va \<Longrightarrow> 2 ^ 64 - 2 ^ 39 \<le> unat va"
    by (simp add: kernel_window_def KERNEL_VIRT_BASE_def word_le_nat_alt)
  then consider "unat va < 2 ^ 39" "\<not> kernel_window va" | "2 ^ 39 \<le> unat va" "unat va < 2 ^ 64 - 2 ^ 39" "\<not> kernel_window va"
    | "2 ^ 64 - 2 ^ 39 \<le> unat va" by fastforce
  then show ?thesis
    by cases (simp_all add: translate_low translate_high translate_hole PML4_ADDR_def word_less_nat_alt)
qed

text \<open>Only the eight table pages are written.\<close>

lemma store64_frame: "x \<notin> region a 8 \<Longrightarrow> store64 m a v x = m (x :: u32)"
  by (simp add: store64_def mem_store_apply)

lemma fill_table_frame:
  assumes "b + 512 \<le> 2 ^ 29" "\<not> (8 * b \<le> unat x \<and> unat x < 8 * b + 4096)"
  shows "fill_table m (cell_addr b) entry x = m x"
proof -
  have "fold (\<lambda>i m'. store64 m' (cell_addr b + 8 * of_nat i) (entry i)) [0..<n] m x = m x" if "n \<le> 512" for n
    using that
  proof (induction n)
    case (Suc n)
    have "x \<notin> region (cell_addr (b + n)) 8"
      using assms Suc.prems region_cell [of "b + n" 1 x] by (simp, linarith)
    then show ?case using Suc by (simp add: cell_addr_add store64_frame)
  qed simp
  then show ?thesis by (simp add: fill_table_def)
qed

lemma build_page_tables_frame:
  assumes "unat x < 0x50000 \<or> 0x58000 \<le> unat x"
  shows "build_page_tables m x = m x"
proof -
  have st: "store64 m' (cell_addr i) v x = m' x" if "0xA000 \<le> i" "i < 0xB000" for m' i v
    using that assms region_cell [of i 1 x] by (intro store64_frame) auto
  have fl: "fill_table m' (cell_addr b) entry x = m' x" if "0xA000 \<le> b" "b \<le> 0xAE00" for m' b entry
    using that assms by (intro fill_table_frame) auto
  have z: "memzero m (cell_addr 0xA000) 0x8000 x = m x"
    using assms region_cell [of "0xA000" "0x1000" x] by (intro memzero_frame) auto
  have g: "map_gib gib m' x = m' x" if "gib < 4" for gib m'
    using that by (simp add: map_gib_def Let_def table_cells(2,5) fl cell_addr_add st)
  have f: "fold map_gib [0..<4] m' x = m' x" for m'
    by (simp add: upt_rec numeral_eq_Suc g)
  have addr: "PML4_ADDR + 8 * 0 = cell_addr 0xA000" "PML4_ADDR + 8 * 511 = cell_addr 0xA1FF"
    "PDPT_HIGH_ADDR + 8 * 510 = cell_addr 0xADFE"
    by (simp_all add: cell_addr_def paging_constants)
  show ?thesis
    unfolding build_page_tables_def Let_def addr table_cells(4) unfolding table_cells(1)
    by (simp add: fl st f z)
qed

end
