(* ===== verification/JB_Placement.thy ===== *)
theory JB_Placement
  imports JB_KernelLoad JB_Paging
begin

text \<open>
  Placing the kernel: \<open>load_elf\<close> of \<open>boot/stage2_pm.c\<close>, which validates the staged image and
  copies its segments to the physical memory behind \<open>KERNEL_VIRT_BASE\<close>. Image and destination are
  in the same memory, so every step reads the image as the steps before it have left it.
\<close>

definition no_segment :: JoshElf64LoadSegment where
  "no_segment = \<lparr> seg_file_offset = 0, seg_virtual_address = 0, seg_file_size = 0,
     seg_memory_size = 0, seg_alignment = 0, seg_flags = 0 \<rparr>"

definition staged_image :: "u32 \<Rightarrow> 32 memory \<Rightarrow> bytes" where
  "staged_image image_bytes m = mem_bytes m KERNEL_IMAGE_ADDR (unat image_bytes)"

text \<open>The body of the loop for a segment that was handed out; \<open>None\<close> is the return with an error.\<close>

definition place_segment :: "JoshElf64LoadSegment \<Rightarrow> 32 memory \<Rightarrow> 32 memory option" where
  "place_segment segment m =
     (if seg_virtual_address segment < KERNEL_VIRT_BASE then None
      else
        let offset = seg_virtual_address segment - KERNEL_VIRT_BASE;
            physical = ucast KERNEL_PHYS_BASE + offset in
        if physical > ucast KERNEL_PHYS_LIMIT \<or> seg_memory_size segment > ucast KERNEL_PHYS_LIMIT - physical then None
        else
          let m1 = memcopy m (ucast physical) (KERNEL_IMAGE_ADDR + ucast (seg_file_offset segment))
                     (unat (ucast (seg_file_size segment) :: u32)) in
          Some (if seg_memory_size segment > seg_file_size segment
                then memzero m1 (ucast (physical + seg_file_size segment))
                       (unat (ucast (seg_memory_size segment - seg_file_size segment) :: u32))
                else m1))"

fun place_loop :: "u32 \<Rightarrow> u16 \<Rightarrow> nat \<Rightarrow> 32 memory \<Rightarrow> bool \<times> 32 memory" where
  "place_loop image_bytes i 0 m = (True, m)"
| "place_loop image_bytes i (Suc n) m =
     (case josh_elf64_load_segment (Some (staged_image image_bytes m)) (ucast image_bytes) i (Some no_segment) of
        (status, segment) \<Rightarrow>
          if status \<noteq> JOSH_ELF64_OK then (False, m)
          else
            (case place_segment (the segment) m of
               None \<Rightarrow> (False, m)
             | Some m' \<Rightarrow> place_loop image_bytes (i + 1) n m'))"

text \<open>Returns whether the call succeeded, \<open>*summary\<close> and the memory.\<close>

definition load_elf :: "JoshElf64Summary \<Rightarrow> u32 \<Rightarrow> 32 memory \<Rightarrow> bool \<times> JoshElf64Summary \<times> 32 memory" where
  "load_elf summary0 image_bytes m =
     (case josh_elf64_validate (Some (staged_image image_bytes m)) (ucast image_bytes) (Some summary0) of
        (status, summary') \<Rightarrow>
          let summary = the summary' in
          if status \<noteq> JOSH_ELF64_OK then (False, summary, m)
          else if virtual_min summary < KERNEL_VIRT_BASE \<or> virtual_max summary \<le> virtual_min summary
          then (False, summary, m)
          else if virtual_max summary - KERNEL_VIRT_BASE > ucast (KERNEL_PHYS_LIMIT - KERNEL_PHYS_BASE)
          then (False, summary, m)
          else
            (case place_loop image_bytes 0 (unat (load_segment_count summary)) m of
               (ok, m') \<Rightarrow> (ok, summary, m')))"

section \<open>One segment\<close>

lemmas place_constants = KERNEL_VIRT_BASE_def KERNEL_PHYS_BASE_def KERNEL_PHYS_LIMIT_def KERNEL_IMAGE_ADDR_def

text \<open>The distance of a segment from \<open>KERNEL_VIRT_BASE\<close>, and where it goes.\<close>

definition seg_offset :: "Elf64ProgramHeader \<Rightarrow> nat" where
  "seg_offset p = unat (p_vaddr p) - unat KERNEL_VIRT_BASE"

definition seg_address :: "Elf64ProgramHeader \<Rightarrow> u32" where
  "seg_address p = of_nat (0x200000 + seg_offset p)"

text \<open>The bytes a segment has in memory: its part of the file, then zeros.\<close>

definition seg_content :: "bytes \<Rightarrow> Elf64ProgramHeader \<Rightarrow> bytes" where
  "seg_content img p = take (unat (p_filesz p)) (drop (unat (p_offset p)) img)
     @ replicate (unat (p_memsz p) - unat (p_filesz p)) 0"

lemma ucast_of_nat_down: "ucast (of_nat n :: u64) = (of_nat n :: u32)"
  by (simp add: word_unat_eq_iff unsigned_ucast_eq unat_of_nat take_bit_eq_mod mod_mod_cancel)

lemma unat_ucast_down: "unat (w :: u64) < 2 ^ 32 \<Longrightarrow> unat (ucast w :: u32) = unat w"
  by (simp add: unsigned_ucast_eq take_bit_nat_eq_self)

lemma word_of_unat: "unat w = n \<Longrightarrow> w = of_nat n"
  by auto

lemma place_segment_physical:
  assumes "KERNEL_VIRT_BASE \<le> p_vaddr p"
  shows "ucast KERNEL_PHYS_BASE + (p_vaddr p - KERNEL_VIRT_BASE) = of_nat (0x200000 + seg_offset p)"
    "unat (ucast KERNEL_PHYS_BASE + (p_vaddr p - KERNEL_VIRT_BASE)) = 0x200000 + seg_offset p"
    "seg_offset p < 2 ^ 31"
proof -
  have o: "unat (p_vaddr p - KERNEL_VIRT_BASE) = seg_offset p" using assms by (simp add: seg_offset_def unat_diff_le)
  show lt: "seg_offset p < 2 ^ 31"
    using unsigned_less [of "p_vaddr p", where ?'a = nat] assms
    by (simp add: seg_offset_def KERNEL_VIRT_BASE_def word_le_nat_alt)
  show u: "unat (ucast KERNEL_PHYS_BASE + (p_vaddr p - KERNEL_VIRT_BASE)) = 0x200000 + seg_offset p"
    using lt o by (simp add: KERNEL_PHYS_BASE_def unat_add_lem [THEN iffD1])
  show "ucast KERNEL_PHYS_BASE + (p_vaddr p - KERNEL_VIRT_BASE) = of_nat (0x200000 + seg_offset p)"
    using u by (rule word_of_unat)
qed

text \<open>The checks and the two loops in terms of natural numbers.\<close>

lemma place_segment_eq:
  assumes "phdr_ok size0 p"
  shows "place_segment (segment_of_phdr p) m =
     (if KERNEL_VIRT_BASE \<le> p_vaddr p \<and> 0x200000 + seg_offset p + unat (p_memsz p) \<le> 0x8000000
      then Some (memzero (memcopy m (seg_address p) (KERNEL_IMAGE_ADDR + ucast (p_offset p)) (unat (p_filesz p)))
              (seg_address p + ucast (p_filesz p)) (unat (p_memsz p) - unat (p_filesz p)))
      else None)"
proof (cases "KERNEL_VIRT_BASE \<le> p_vaddr p")
  case True
  let ?phys = "ucast KERNEL_PHYS_BASE + (p_vaddr p - KERNEL_VIRT_BASE)"
  note ph = place_segment_physical [OF True]
  have le: "unat (p_filesz p) \<le> unat (p_memsz p)" using assms by (simp add: phdr_ok_def)
  have chk: "\<not> (?phys > ucast KERNEL_PHYS_LIMIT \<or> p_memsz p > ucast KERNEL_PHYS_LIMIT - ?phys)
      \<longleftrightarrow> 0x200000 + seg_offset p + unat (p_memsz p) \<le> 0x8000000"
  proof (cases "?phys > ucast KERNEL_PHYS_LIMIT")
    case True
    then show ?thesis using ph(2) by (simp add: KERNEL_PHYS_LIMIT_def word_less_nat_alt)
  next
    case False
    then have "?phys \<le> ucast KERNEL_PHYS_LIMIT" by simp
    then have "unat (ucast KERNEL_PHYS_LIMIT - ?phys) = 0x8000000 - (0x200000 + seg_offset p)"
      by (simp add: unat_diff_le ph(2)) (simp add: KERNEL_PHYS_LIMIT_def)
    then show ?thesis using False ph(2) by (simp add: word_less_nat_alt KERNEL_PHYS_LIMIT_def) linarith
  qed
  show ?thesis
  proof (cases "0x200000 + seg_offset p + unat (p_memsz p) \<le> 0x8000000")
    case fits: True
    then have small: "unat (p_memsz p) < 2 ^ 32" "unat (p_filesz p) < 2 ^ 32" using le by simp_all
    have u: "unat (ucast (p_filesz p) :: u32) = unat (p_filesz p)"
      "unat (ucast (p_memsz p - p_filesz p) :: u32) = unat (p_memsz p) - unat (p_filesz p)"
      using small le by (simp_all add: unsigned_ucast_eq unat_diff_le word_le_nat_alt take_bit_nat_eq_self)
    have a: "ucast ?phys = seg_address p" "ucast (?phys + p_filesz p) = seg_address p + ucast (p_filesz p)"
    proof -
      show "ucast ?phys = seg_address p" by (simp only: ph(1) ucast_of_nat_down seg_address_def)
      have "?phys + p_filesz p = of_nat (0x200000 + seg_offset p + unat (p_filesz p))" by (simp add: ph(1))
      then show "ucast (?phys + p_filesz p) = seg_address p + ucast (p_filesz p)"
        by (simp only: ucast_of_nat_down) (simp add: seg_address_def)
    qed
    have z: "unat (p_memsz p) - unat (p_filesz p) = 0" if "\<not> p_filesz p < p_memsz p"
      using that by (simp add: word_less_nat_alt)
    show ?thesis
      using True fits chk z unfolding place_segment_def Let_def segment_of_phdr_def
      by (auto simp: u a)
  next
    case False
    then show ?thesis using True chk unfolding place_segment_def Let_def segment_of_phdr_def by auto
  qed
qed (auto simp: place_segment_def segment_of_phdr_def)

text \<open>The copy never leaves the memory reserved for the kernel.\<close>

lemma seg_address_bounds:
  "0x200000 + seg_offset p + n \<le> 0x8000000 \<Longrightarrow> unat (seg_address p) = 0x200000 + seg_offset p"
  unfolding seg_address_def by (simp add: unat_of_nat take_bit_nat_eq_self del: of_nat_add)

lemma place_segment_frame:
  assumes "phdr_ok size0 p" "place_segment (segment_of_phdr p) m = Some m'" "unat x < 0x200000 \<or> 0x8000000 \<le> unat x"
  shows "m' x = m x"
proof -
  have fits: "0x200000 + seg_offset p + unat (p_memsz p) \<le> 0x8000000"
    and m': "m' = memzero (memcopy m (seg_address p) (KERNEL_IMAGE_ADDR + ucast (p_offset p)) (unat (p_filesz p)))
              (seg_address p + ucast (p_filesz p)) (unat (p_memsz p) - unat (p_filesz p))"
    using assms(2) unfolding place_segment_eq [OF assms(1)] by (auto split: if_split_asm)
  have le: "unat (p_filesz p) \<le> unat (p_memsz p)" using assms(1) by (simp add: phdr_ok_def)
  note a = seg_address_bounds [OF fits]
  have a2: "unat (seg_address p + ucast (p_filesz p)) = 0x200000 + seg_offset p + unat (p_filesz p)"
    using a fits le by (subst unat_add_lem [THEN iffD1]) (simp_all add: unat_ucast_down)
  have "x \<notin> region (seg_address p) (unat (p_filesz p))"
    "x \<notin> region (seg_address p + ucast (p_filesz p)) (unat (p_memsz p) - unat (p_filesz p))"
    using assms(3) fits le by (auto simp: region_bounds a a2)
  then show ?thesis using fits le by (simp add: m' memzero_frame memcopy_frame)
qed

text \<open>Below the staging area the copy does not disturb the image, and delivers the segment.\<close>

lemma place_segment_store:
  assumes "phdr_ok (ucast image_bytes) p" "KERNEL_VIRT_BASE \<le> p_vaddr p"
    and "seg_offset p + unat (p_memsz p) \<le> 0xE00000" "unat image_bytes \<le> 0x400000"
  shows "place_segment (segment_of_phdr p) m = Some (mem_store m (seg_address p) (seg_content (staged_image image_bytes m) p))"
proof -
  have le: "unat (p_filesz p) \<le> unat (p_memsz p)" "unat (p_offset p) + unat (p_filesz p) \<le> unat image_bytes"
    using assms(1) by (simp_all add: phdr_ok_def)
  have fits: "0x200000 + seg_offset p + unat (p_memsz p) \<le> 0x8000000" using assms(3) by simp
  note a = seg_address_bounds [OF fits]
  have src: "unat (KERNEL_IMAGE_ADDR + ucast (p_offset p)) = 0x1000000 + unat (p_offset p)"
    using le assms(4) by (subst unat_add_lem [THEN iffD1])
      (simp_all add: unat_ucast_down KERNEL_IMAGE_ADDR_def)
  have disj: "region (KERNEL_IMAGE_ADDR + ucast (p_offset p)) (unat (p_filesz p)) \<inter> region (seg_address p) (unat (p_filesz p)) = {}"
    using assms le by (auto simp: region_bounds src a)
  have f: "mem_bytes m (KERNEL_IMAGE_ADDR + ucast (p_offset p)) (unat (p_filesz p))
      = take (unat (p_filesz p)) (drop (unat (p_offset p)) (staged_image image_bytes m))" (is "_ = ?f")
    using mem_bytes_drop_take [OF le(2), of m KERNEL_IMAGE_ADDR] by (simp add: staged_image_def)
  have len: "length ?f = unat (p_filesz p)" using le(2) by (simp add: staged_image_def)
  have "memcopy m (seg_address p) (KERNEL_IMAGE_ADDR + ucast (p_offset p)) (unat (p_filesz p))
      = mem_store m (seg_address p) ?f"
    using memcopy_store [OF disj] le assms(4) f by simp
  then show ?thesis
    using assms(2) fits mem_store_append [of m "seg_address p" ?f "replicate (unat (p_memsz p) - unat (p_filesz p)) 0"]
    unfolding place_segment_eq [OF assms(1)] len by (simp add: memzero_store seg_content_def)
qed

section \<open>All segments\<close>

lemma place_loop_frame:
  assumes "unat x < 0x200000 \<or> 0x8000000 \<le> unat x"
  shows "snd (place_loop image_bytes i n m) x = m x"
proof (induction n arbitrary: i m)
  case (Suc n)
  obtain status segment where s: "josh_elf64_load_segment (Some (staged_image image_bytes m)) (ucast image_bytes) i (Some no_segment) = (status, segment)"
    by (cases "josh_elf64_load_segment (Some (staged_image image_bytes m)) (ucast image_bytes) i (Some no_segment)")
  show ?case
  proof (cases "status = JOSH_ELF64_OK")
    case True
    obtain p where p: "segment = Some (segment_of_phdr p)" "phdr_ok (ucast image_bytes) p"
      using s unfolding True by (rule load_segment_ok)
    show ?thesis
      using place_segment_frame [OF p(2) _ assms, of m] Suc.IH
      by (simp add: s True p(1) split: option.split)
  qed (simp add: s)
qed simp

text \<open>
  C13. Placing a kernel writes only to the memory between \<open>KERNEL_PHYS_BASE\<close> and
  \<open>KERNEL_PHYS_LIMIT\<close>, whatever the image says: the loader, its page tables, its tables for the
  kernel and everything above the limit keep their contents, also when the call fails half way.
\<close>
theorem load_elf_confined:
  assumes "x < KERNEL_PHYS_BASE \<or> KERNEL_PHYS_LIMIT \<le> x"
  shows "snd (snd (load_elf s0 image_bytes m)) x = m x"
proof -
  have "unat x < 0x200000 \<or> 0x8000000 \<le> unat x"
    using assms by (simp add: KERNEL_PHYS_BASE_def KERNEL_PHYS_LIMIT_def word_less_nat_alt word_le_nat_alt)
  then show ?thesis
    using place_loop_frame [of x image_bytes 0 _ m] by (simp add: load_elf_def Let_def split: prod.split)
       (metis snd_conv)
qed

text \<open>Where the segments of an accepted kernel lie, from its summary.\<close>

lemma segment_bounds:
  assumes "elf_image_ok img size0 h s" "p \<in> set (elf_segments img h)" "KERNEL_VIRT_BASE \<le> virtual_min s"
  shows "phdr_ok size0 p" "p_memsz p \<noteq> 0" "KERNEL_VIRT_BASE \<le> p_vaddr p" "p_vaddr p + p_memsz p \<le> virtual_max s"
    "seg_offset p + unat (p_memsz p) \<le> unat (virtual_max s - KERNEL_VIRT_BASE)" "virtual_min s < virtual_max s"
proof -
  have l: "elf_load p" using assms(2) by (simp add: elf_segments_def)
  then show nz: "p_memsz p \<noteq> 0" by (simp add: elf_load_def)
  show ok: "phdr_ok size0 p"
    using assms(1,2) l by (auto simp: elf_image_ok_def elf_segments_def elf_load_def)
  have min: "virtual_min s \<le> p_vaddr p" and max: "p_vaddr p + p_memsz p \<le> virtual_max s"
    using assms(1,2) by (auto simp: elf_image_ok_def)
  then show base: "KERNEL_VIRT_BASE \<le> p_vaddr p" "p_vaddr p + p_memsz p \<le> virtual_max s"
    using assms(3) by simp_all
  note e = phdr_ok_end [OF ok l]
  have "unat (p_vaddr p) + unat (p_memsz p) \<le> unat (virtual_max s)"
    using max e by (simp add: word_le_nat_alt)
  moreover then have "unat (virtual_max s - KERNEL_VIRT_BASE) = unat (virtual_max s) - unat KERNEL_VIRT_BASE"
    using base by (intro unat_diff_le) (simp add: word_le_nat_alt)
  ultimately show "seg_offset p + unat (p_memsz p) \<le> unat (virtual_max s - KERNEL_VIRT_BASE)"
    using base by (simp add: seg_offset_def word_le_nat_alt)
  have "unat (p_vaddr p) < unat (p_vaddr p + p_memsz p)" using e nz by (simp add: unat_gt_0)
  then show "virtual_min s < virtual_max s"
    using min max by (simp add: word_less_nat_alt word_le_nat_alt)
qed

definition place_all :: "bytes \<Rightarrow> Elf64ProgramHeader list \<Rightarrow> 32 memory \<Rightarrow> 32 memory" where
  "place_all img ps m = fold (\<lambda>p m'. mem_store m' (seg_address p) (seg_content img p)) ps m"

lemma length_seg_content:
  "phdr_ok (ucast (image_bytes :: u32)) p \<Longrightarrow> length img = unat image_bytes \<Longrightarrow> length (seg_content img p) = unat (p_memsz p)"
  by (auto simp: seg_content_def phdr_ok_def min_def)

text \<open>A segment list that fits below the staging area.\<close>

definition segments_fit :: "u32 \<Rightarrow> Elf64ProgramHeader list \<Rightarrow> bool" where
  "segments_fit image_bytes ps \<longleftrightarrow> (\<forall>p \<in> set ps. phdr_ok (ucast image_bytes) p \<and> KERNEL_VIRT_BASE \<le> p_vaddr p
     \<and> seg_offset p + unat (p_memsz p) \<le> 0xE00000)"

lemma seg_region:
  assumes "segments_fit image_bytes ps" "p \<in> set ps"
  shows "x \<in> region (seg_address p) (unat (p_memsz p)) \<longleftrightarrow>
     0x200000 + seg_offset p \<le> unat x \<and> unat x < 0x200000 + seg_offset p + unat (p_memsz p)"
proof -
  have "seg_offset p + unat (p_memsz p) \<le> 0xE00000" using assms by (simp add: segments_fit_def)
  then show ?thesis
    using seg_address_bounds [of p "unat (p_memsz p)"] by (subst region_bounds) simp_all
qed

lemma place_all_Cons:
  assumes "segments_fit image_bytes (q # qs)" "length img = unat image_bytes"
  shows "place_all img (q # qs) m = place_all img qs (mem_store m (seg_address q) (seg_content img q))"
    "mem_store m (seg_address q) (seg_content img q) x =
      (if x \<in> region (seg_address q) (unat (p_memsz q)) then seg_content img q ! unat (x - seg_address q) else m x)"
    "segments_fit image_bytes qs"
proof -
  have "length (seg_content img q) = unat (p_memsz q)" "unat (p_memsz q) \<le> 2 ^ LENGTH(32)"
    using assms length_seg_content [of image_bytes q img] by (simp_all add: segments_fit_def)
  then show "mem_store m (seg_address q) (seg_content img q) x =
      (if x \<in> region (seg_address q) (unat (p_memsz q)) then seg_content img q ! unat (x - seg_address q) else m x)"
    by (simp add: mem_store_apply)
qed (use assms in \<open>simp_all add: place_all_def segments_fit_def\<close>)

lemma place_all_frame:
  assumes "segments_fit image_bytes ps" "length img = unat image_bytes"
    and "\<And>p. p \<in> set ps \<Longrightarrow> x \<notin> region (seg_address p) (unat (p_memsz p))"
  shows "place_all img ps m x = m x"
  using assms
proof (induction ps arbitrary: m)
  case (Cons q qs)
  then show ?case by (simp add: place_all_Cons [OF Cons.prems(1,2)])
qed (simp add: place_all_def)

lemma seg_regions_disjoint:
  assumes "segments_fit image_bytes ps" "p \<in> set ps" "q \<in> set ps" "p_range q \<inter> p_range p = {}"
    and "x \<in> region (seg_address q) (unat (p_memsz q))"
  shows "x \<notin> region (seg_address p) (unat (p_memsz p))"
proof
  assume "x \<in> region (seg_address p) (unat (p_memsz p))"
  then have "0x200000 + seg_offset p \<le> unat x" "unat x < 0x200000 + seg_offset p + unat (p_memsz p)"
    "0x200000 + seg_offset q \<le> unat x" "unat x < 0x200000 + seg_offset q + unat (p_memsz q)"
    using seg_region [OF assms(1)] assms(2,3,5) by auto
  moreover have "unat KERNEL_VIRT_BASE \<le> unat (p_vaddr p)" "unat KERNEL_VIRT_BASE \<le> unat (p_vaddr q)"
    using assms(1-3) by (auto simp: segments_fit_def word_le_nat_alt)
  ultimately have "unat x - 0x200000 + unat KERNEL_VIRT_BASE \<in> p_range q \<inter> p_range p"
    by (auto simp: p_range_def seg_offset_def)
  with assms(4) show False by blast
qed

lemma place_all_apply:
  assumes "segments_fit image_bytes ps" "length img = unat image_bytes"
    and "sorted_wrt (\<lambda>p q. p_range p \<inter> p_range q = {}) ps"
    and "p \<in> set ps" "x \<in> region (seg_address p) (unat (p_memsz p))"
  shows "place_all img ps m x = seg_content img p ! unat (x - seg_address p)"
  using assms
proof (induction ps arbitrary: m)
  case (Cons q qs)
  note step = place_all_Cons [OF Cons.prems(1,2)]
  show ?case
  proof (cases "p \<in> set qs")
    case True
    then show ?thesis using Cons.IH [OF step(3)] Cons.prems by (simp add: step(1))
  next
    case False
    then have "p = q" using Cons.prems(4) by simp
    moreover have "x \<notin> region (seg_address r) (unat (p_memsz r))" if "r \<in> set qs" for r
      using seg_regions_disjoint [OF Cons.prems(1), of r q x] Cons.prems that \<open>p = q\<close> by simp
    ultimately show ?thesis
      using place_all_frame [OF step(3) Cons.prems(2), of x] Cons.prems(5) by (simp add: step(1,2))
  qed
qed simp

lemma staged_outside:
  assumes "segments_fit image_bytes ps" "p \<in> set ps" "unat image_bytes \<le> 0x400000"
    and "x \<in> region KERNEL_IMAGE_ADDR (unat image_bytes)"
  shows "x \<notin> region (seg_address p) (unat (p_memsz p))"
proof -
  have "0x1000000 \<le> unat x" using assms(3,4) by (simp add: region_bounds KERNEL_IMAGE_ADDR_def)
  moreover have "seg_offset p + unat (p_memsz p) \<le> 0xE00000" using assms(1,2) by (simp add: segments_fit_def)
  ultimately show ?thesis using seg_region [OF assms(1,2), of x] by simp
qed

lemma staged_place_all:
  assumes "segments_fit image_bytes ps" "unat image_bytes \<le> 0x400000" "length img = unat image_bytes"
  shows "staged_image image_bytes (place_all img ps m) = staged_image image_bytes m"
  unfolding staged_image_def
proof (rule mem_bytes_eqI)
  fix x
  assume "x \<in> region KERNEL_IMAGE_ADDR (unat image_bytes)"
  with assms show "place_all img ps m x = m x" by (intro place_all_frame staged_outside)
qed (use assms(2) in simp)

lemma place_loop_validated:
  assumes v: "josh_elf64_validate (Some img) (ucast image_bytes) (Some s0) = (JOSH_ELF64_OK, Some s)"
    and fit: "segments_fit image_bytes (elf_segments img (elf64_header_of_bytes img))"
    and sz: "unat image_bytes \<le> 0x400000" "length img = unat image_bytes"
    and k: "k + n = length (elf_segments img (elf64_header_of_bytes img))" "staged_image image_bytes m = img"
  shows "place_loop image_bytes (of_nat k) n m =
     (True, place_all img (drop k (elf_segments img (elf64_header_of_bytes img))) m)"
  using k
proof (induction n arbitrary: k m)
  case (Suc n)
  let ?segs = "elf_segments img (elf64_header_of_bytes img)"
  obtain "unat (load_segment_count s) = length ?segs" "length ?segs \<le> 128"
    using v
  proof (rule validate_obtain)
    fix h
    assume "h = elf64_header_of_bytes img" "unat (eh_phnum h) \<le> 128" "unat (load_segment_count s) = length (elf_segments img h)"
    then show ?thesis
      using length_filter_le [of elf_load "map (elf_phdr img h) [0..<unat (eh_phnum h)]"]
      by (intro that) (simp_all add: elf_segments_def)
  qed
  then have kk: "unat (of_nat k :: u16) = k" "(of_nat k :: u16) < load_segment_count s"
    using Suc.prems by (simp_all add: unat_of_nat take_bit_nat_eq_self word_less_nat_alt)
  have d: "drop k ?segs = ?segs ! k # drop (Suc k) ?segs" using Suc.prems by (intro Cons_nth_drop_Suc [symmetric]) simp
  have f: "segments_fit image_bytes (drop k ?segs)"
    using fit set_drop_subset [of k ?segs] by (auto simp: segments_fit_def)
  let ?m = "mem_store m (seg_address (?segs ! k)) (seg_content img (?segs ! k))"
  have p: "place_segment (segment_of_phdr (?segs ! k)) m = Some ?m"
    using place_segment_store [of image_bytes "?segs ! k" m] f sz Suc.prems
    by (simp add: d segments_fit_def)
  have "staged_image image_bytes ?m = img"
    using staged_place_all [of image_bytes "[?segs ! k]" img m] f sz Suc.prems
    by (simp add: d segments_fit_def place_all_def)
  then have "place_loop image_bytes (of_nat (Suc k)) n ?m = (True, place_all img (drop (Suc k) ?segs) ?m)"
    using Suc.prems by (intro Suc.IH) simp_all
  then show ?case
    by (simp add: Suc.prems(2) load_segment_validated [OF v] kk p d place_all_def add.commute)
qed (simp add: place_all_def)

lemma load_elf_validated:
  assumes v: "josh_elf64_validate (Some (staged_image image_bytes m)) (ucast image_bytes) (Some s0) = (JOSH_ELF64_OK, Some s)"
    and base: "KERNEL_VIRT_BASE \<le> virtual_min s" "virtual_max s - KERNEL_VIRT_BASE \<le> 0xE00000"
    and sz: "image_bytes \<le> KERNEL_IMAGE_BYTES"
  defines "img \<equiv> staged_image image_bytes m"
  defines "segs \<equiv> elf_segments img (elf64_header_of_bytes img)"
  shows "load_elf s0 image_bytes m = (True, s, place_all img segs m)" "segments_fit image_bytes segs"
    "length img = unat image_bytes" "sorted_wrt (\<lambda>p q. p_range p \<inter> p_range q = {}) segs"
proof -
  have len: "length img = unat image_bytes" by (simp add: img_def staged_image_def)
  then show "length img = unat image_bytes" .
  obtain h where ok: "elf_image_ok img (ucast image_bytes) h s" and h: "h = elf64_header_of_bytes img"
    and cnt: "unat (load_segment_count s) = length (elf_segments img h)"
    using v unfolding img_def [symmetric] by (rule validate_obtain)
  then show "sorted_wrt (\<lambda>p q. p_range p \<inter> p_range q = {}) segs" by (simp add: elf_image_ok_def segs_def)
  have ne: "segs \<noteq> []" using ok h by (simp add: elf_image_ok_def segs_def)
  note b = segment_bounds [OF ok, folded segs_def h]
  have le: "unat (virtual_max s - KERNEL_VIRT_BASE) \<le> 0xE00000" using base(2) by (simp add: word_le_nat_alt)
  show fit: "segments_fit image_bytes segs"
    using b base(1) le h by (fastforce simp: segments_fit_def segs_def)
  have "virtual_min s < virtual_max s" using b(6) base(1) ne h by (fastforce simp: segs_def neq_Nil_conv)
  moreover have "\<not> virtual_max s - KERNEL_VIRT_BASE > ucast (KERNEL_PHYS_LIMIT - KERNEL_PHYS_BASE)"
    using le by (simp add: KERNEL_PHYS_LIMIT_def KERNEL_PHYS_BASE_def word_less_nat_alt)
  moreover have "place_loop image_bytes (of_nat 0) (length segs) m = (True, place_all img (drop 0 segs) m)"
    unfolding segs_def
    by (rule place_loop_validated [OF v [folded img_def]])
      (use fit sz len in \<open>simp_all add: img_def segs_def word_le_nat_alt\<close>)
  ultimately show "load_elf s0 image_bytes m = (True, s, place_all img segs m)"
    using v base(1) cnt h by (simp add: load_elf_def Let_def segs_def not_less)
qed

text \<open>
  C11. An accepted kernel that is linked at or above \<open>KERNEL_VIRT_BASE\<close> and ends below the staging
  area is placed: every segment is in memory at its physical address, its file part followed by
  zeros, nothing outside the segments changes, and the staged image is intact.
\<close>
theorem load_elf_places:
  assumes "josh_elf64_validate (Some (staged_image image_bytes m)) (ucast image_bytes) (Some s0) = (JOSH_ELF64_OK, Some s)"
    and "KERNEL_VIRT_BASE \<le> virtual_min s" "virtual_max s - KERNEL_VIRT_BASE \<le> 0xE00000"
    and "image_bytes \<le> KERNEL_IMAGE_BYTES"
  shows "\<exists>m'. load_elf s0 image_bytes m = (True, s, m')
     \<and> (let img = staged_image image_bytes m; segs = elf_segments img (elf64_header_of_bytes img) in
         (\<forall>p \<in> set segs. mem_bytes m' (seg_address p) (unat (p_memsz p)) = seg_content img p)
         \<and> (\<forall>x. (\<forall>p \<in> set segs. x \<notin> region (seg_address p) (unat (p_memsz p))) \<longrightarrow> m' x = m x)
         \<and> staged_image image_bytes m' = img)"
proof -
  define img where "img = staged_image image_bytes m"
  define segs where "segs = elf_segments img (elf64_header_of_bytes img)"
  note l = load_elf_validated [OF assms, folded img_def, folded segs_def]
  let ?m = "place_all img segs m"
  have "mem_bytes ?m (seg_address p) (unat (p_memsz p)) = seg_content img p" if "p \<in> set segs" for p
  proof (rule nth_equalityI)
    have pok: "phdr_ok (ucast image_bytes) p" and pf: "seg_offset p + unat (p_memsz p) \<le> 0xE00000"
      using l(2) that by (simp_all add: segments_fit_def)
    show len: "length (mem_bytes ?m (seg_address p) (unat (p_memsz p))) = length (seg_content img p)"
      using length_seg_content [OF pok l(3)] by simp
    fix i
    assume "i < length (mem_bytes ?m (seg_address p) (unat (p_memsz p)))"
    then have i: "i < unat (p_memsz p)" by simp
    then have "unat (of_nat i :: u32) = i" using pf by (simp add: unat_of_nat take_bit_nat_eq_self)
    with i have "seg_address p + of_nat i \<in> region (seg_address p) (unat (p_memsz p))" by (simp add: region_def)
    from place_all_apply [OF l(2-4) that this] i \<open>unat (of_nat i :: u32) = i\<close>
    show "mem_bytes ?m (seg_address p) (unat (p_memsz p)) ! i = seg_content img p ! i" by simp
  qed
  moreover have "staged_image image_bytes ?m = img"
    using staged_place_all [OF l(2) _ l(3)] assms(4) by (simp add: img_def word_le_nat_alt)
  ultimately show ?thesis
    using l(1) place_all_frame [OF l(2,3)] unfolding Let_def img_def [symmetric] segs_def [symmetric] by blast
qed

end
