(* ===== verification/JB_Protocol.thy ===== *)
theory JB_Protocol
  imports JB_Paging
begin

text \<open>
  The interface between loader and kernel, \<open>boot/protocol.h\<close>: the boot information structure, the
  memory map entries and the framebuffer description, with the bytes the packed structures have in
  memory.
\<close>

definition JOSH_BOOT_INFO_MAGIC :: u64 where "JOSH_BOOT_INFO_MAGIC = 0x30494248534F4A4A"
definition JOSH_BOOT_ABI_MAJOR :: u32 where "JOSH_BOOT_ABI_MAJOR = 0"
definition JOSH_BOOT_ABI_MINOR :: u32 where "JOSH_BOOT_ABI_MINOR = 1"

definition JOSH_BOOT_FLAG_MEMORY_MAP :: u32 where "JOSH_BOOT_FLAG_MEMORY_MAP = push_bit 0 1"
definition JOSH_BOOT_FLAG_FRAMEBUFFER :: u32 where "JOSH_BOOT_FLAG_FRAMEBUFFER = push_bit 1 1"
definition JOSH_BOOT_FLAG_RSDP :: u32 where "JOSH_BOOT_FLAG_RSDP = push_bit 2 1"
definition JOSH_BOOT_FLAG_SMBIOS :: u32 where "JOSH_BOOT_FLAG_SMBIOS = push_bit 3 1"
definition JOSH_BOOT_FLAG_CMDLINE :: u32 where "JOSH_BOOT_FLAG_CMDLINE = push_bit 4 1"
definition JOSH_BOOT_FLAG_LOADER_NAME :: u32 where "JOSH_BOOT_FLAG_LOADER_NAME = push_bit 5 1"

definition JOSH_FIRMWARE_LEGACY_BIOS :: u32 where "JOSH_FIRMWARE_LEGACY_BIOS = 1"
definition JOSH_FIRMWARE_UEFI :: u32 where "JOSH_FIRMWARE_UEFI = 2"

definition JOSH_MEMORY_USABLE :: u32 where "JOSH_MEMORY_USABLE = 1"
definition JOSH_MEMORY_RESERVED :: u32 where "JOSH_MEMORY_RESERVED = 2"
definition JOSH_MEMORY_ACPI_RECLAIMABLE :: u32 where "JOSH_MEMORY_ACPI_RECLAIMABLE = 3"
definition JOSH_MEMORY_ACPI_NVS :: u32 where "JOSH_MEMORY_ACPI_NVS = 4"
definition JOSH_MEMORY_BAD :: u32 where "JOSH_MEMORY_BAD = 5"

definition JOSH_BOOT_MAX_MEMORY_ENTRIES :: u32 where "JOSH_BOOT_MAX_MEMORY_ENTRIES = 128"

lemmas boot_flags = JOSH_BOOT_FLAG_MEMORY_MAP_def JOSH_BOOT_FLAG_FRAMEBUFFER_def JOSH_BOOT_FLAG_RSDP_def
  JOSH_BOOT_FLAG_SMBIOS_def JOSH_BOOT_FLAG_CMDLINE_def JOSH_BOOT_FLAG_LOADER_NAME_def

record JoshMemoryMapEntry =
  mm_base :: u64
  mm_length :: u64
  mm_type :: u32
  mm_flags :: u32

record JoshFramebufferInfo =
  fb_address :: u64
  fb_width :: u32
  fb_height :: u32
  fb_pitch :: u32
  fb_bpp :: u32
  red_mask_size :: u32
  red_mask_shift :: u32
  green_mask_size :: u32
  green_mask_shift :: u32
  blue_mask_size :: u32
  blue_mask_shift :: u32

record JoshBootInfo =
  bi_magic :: u64
  abi_major :: u32
  abi_minor :: u32
  total_size :: u32
  bi_flags :: u32
  firmware_type :: u32
  bi_boot_drive :: u32
  memory_map_address :: u64
  memory_map_entries :: u32
  memory_map_entry_size :: u32
  framebuffer :: JoshFramebufferInfo
  kernel_phys_start :: u64
  kernel_phys_end :: u64
  kernel_virt_start :: u64
  kernel_virt_end :: u64
  rsdp_phys :: u64
  smbios_phys :: u64
  command_line_address :: u64
  command_line_length :: u32
  bi_reserved0 :: u32
  bootloader_name_address :: u64
  bootloader_name_length :: u32
  bi_reserved1 :: u32
  kernel_entry :: u64
  bi_reserved :: "u64 list"

text \<open>The bytes of the packed structures, field after field.\<close>

definition memory_map_entry_bytes :: "JoshMemoryMapEntry \<Rightarrow> bytes" where
  "memory_map_entry_bytes e =
     le64_bytes (mm_base e) @ le64_bytes (mm_length e) @ le32_bytes (mm_type e) @ le32_bytes (mm_flags e)"

definition memory_map_entry_of_bytes :: "bytes \<Rightarrow> JoshMemoryMapEntry" where
  "memory_map_entry_of_bytes b =
     \<lparr> mm_base = read_le64 b, mm_length = read_le64 (drop 8 b), mm_type = read_le32 (drop 16 b),
       mm_flags = read_le32 (drop 20 b) \<rparr>"

definition framebuffer_bytes :: "JoshFramebufferInfo \<Rightarrow> bytes" where
  "framebuffer_bytes f =
     le64_bytes (fb_address f) @ le32_bytes (fb_width f) @ le32_bytes (fb_height f)
     @ le32_bytes (fb_pitch f) @ le32_bytes (fb_bpp f) @ le32_bytes (red_mask_size f)
     @ le32_bytes (red_mask_shift f) @ le32_bytes (green_mask_size f) @ le32_bytes (green_mask_shift f)
     @ le32_bytes (blue_mask_size f) @ le32_bytes (blue_mask_shift f)"

definition framebuffer_of_bytes :: "bytes \<Rightarrow> JoshFramebufferInfo" where
  "framebuffer_of_bytes b =
     \<lparr> fb_address = read_le64 b, fb_width = read_le32 (drop 8 b), fb_height = read_le32 (drop 12 b),
       fb_pitch = read_le32 (drop 16 b), fb_bpp = read_le32 (drop 20 b),
       red_mask_size = read_le32 (drop 24 b), red_mask_shift = read_le32 (drop 28 b),
       green_mask_size = read_le32 (drop 32 b), green_mask_shift = read_le32 (drop 36 b),
       blue_mask_size = read_le32 (drop 40 b), blue_mask_shift = read_le32 (drop 44 b) \<rparr>"

definition boot_info_bytes :: "JoshBootInfo \<Rightarrow> bytes" where
  "boot_info_bytes i =
     le64_bytes (bi_magic i) @ le32_bytes (abi_major i) @ le32_bytes (abi_minor i)
     @ le32_bytes (total_size i) @ le32_bytes (bi_flags i) @ le32_bytes (firmware_type i)
     @ le32_bytes (bi_boot_drive i) @ le64_bytes (memory_map_address i)
     @ le32_bytes (memory_map_entries i) @ le32_bytes (memory_map_entry_size i)
     @ framebuffer_bytes (framebuffer i)
     @ le64_bytes (kernel_phys_start i) @ le64_bytes (kernel_phys_end i)
     @ le64_bytes (kernel_virt_start i) @ le64_bytes (kernel_virt_end i)
     @ le64_bytes (rsdp_phys i) @ le64_bytes (smbios_phys i)
     @ le64_bytes (command_line_address i) @ le32_bytes (command_line_length i) @ le32_bytes (bi_reserved0 i)
     @ le64_bytes (bootloader_name_address i) @ le32_bytes (bootloader_name_length i)
     @ le32_bytes (bi_reserved1 i) @ le64_bytes (kernel_entry i)
     @ concat (map le64_bytes (bi_reserved i))"

definition boot_info_of_bytes :: "bytes \<Rightarrow> JoshBootInfo" where
  "boot_info_of_bytes b =
     \<lparr> bi_magic = read_le64 b, abi_major = read_le32 (drop 8 b), abi_minor = read_le32 (drop 12 b),
       total_size = read_le32 (drop 16 b), bi_flags = read_le32 (drop 20 b),
       firmware_type = read_le32 (drop 24 b), bi_boot_drive = read_le32 (drop 28 b),
       memory_map_address = read_le64 (drop 32 b), memory_map_entries = read_le32 (drop 40 b),
       memory_map_entry_size = read_le32 (drop 44 b), framebuffer = framebuffer_of_bytes (drop 48 b),
       kernel_phys_start = read_le64 (drop 96 b), kernel_phys_end = read_le64 (drop 104 b),
       kernel_virt_start = read_le64 (drop 112 b), kernel_virt_end = read_le64 (drop 120 b),
       rsdp_phys = read_le64 (drop 128 b), smbios_phys = read_le64 (drop 136 b),
       command_line_address = read_le64 (drop 144 b), command_line_length = read_le32 (drop 152 b),
       bi_reserved0 = read_le32 (drop 156 b), bootloader_name_address = read_le64 (drop 160 b),
       bootloader_name_length = read_le32 (drop 168 b), bi_reserved1 = read_le32 (drop 172 b),
       kernel_entry = read_le64 (drop 176 b),
       bi_reserved = map (\<lambda>k. read_le64 (drop (184 + 8 * k) b)) [0..<5] \<rparr>"

text \<open>The sizes the static assertions of the header fix.\<close>

lemma length_memory_map_entry_bytes [simp]: "length (memory_map_entry_bytes e) = 24"
  by (simp add: memory_map_entry_bytes_def)

lemma length_framebuffer_bytes [simp]: "length (framebuffer_bytes f) = 48"
  by (simp add: framebuffer_bytes_def)

lemma length_concat_le64: "length (concat (map le64_bytes ws)) = 8 * length ws"
  by (induction ws) simp_all

lemma length_boot_info_bytes [simp]: "length (bi_reserved i) = 5 \<Longrightarrow> length (boot_info_bytes i) = 224"
  by (simp add: boot_info_bytes_def length_concat_le64)

text \<open>Round trips.\<close>

lemma memory_map_entry_of_bytes_bytes: "memory_map_entry_of_bytes (memory_map_entry_bytes e @ r) = e"
  by (simp add: memory_map_entry_bytes_def memory_map_entry_of_bytes_def codec_simps)

lemma framebuffer_of_bytes_bytes: "framebuffer_of_bytes (framebuffer_bytes f @ r) = f"
  by (simp add: framebuffer_bytes_def framebuffer_of_bytes_def codec_simps)

lemma boot_info_of_bytes_bytes:
  assumes "length (bi_reserved i) = 5"
  shows "boot_info_of_bytes (boot_info_bytes i @ r) = i"
proof -
  obtain a b c d e where res: "bi_reserved i = [a, b, c, d, e]"
    using assms by (auto simp: numeral_eq_Suc length_Suc_conv)
  then show ?thesis
    by (simp add: boot_info_bytes_def boot_info_of_bytes_def codec_simps framebuffer_of_bytes_bytes upt_rec)
qed

end
