(* ===== verification/JB_Uart.thy ===== *)
theory JB_Uart
  imports JB_Prelude
begin

text \<open>
  The serial port as the loaders and the kernel use it: before each byte, the line status register
  is read again and again until the transmitter reports that it is empty.

  The register is a sequence of values, one for each time it is read; every byte written to a port is
  recorded in order. The wait is a partial function: on a port that never becomes ready it does not
  return, and its value is \<open>None\<close>. The port becomes ready again and again for a sequence that has the
  ready bit set infinitely often.
\<close>

record uart =
  line_status :: "nat \<Rightarrow> u8"
  status_reads :: nat
  port_writes :: "(u16 \<times> u8) list"

partial_function (option) wait_ready :: "uart \<Rightarrow> uart option" where
  "wait_ready u =
     (if line_status u (status_reads u) AND 0x20 = 0
      then wait_ready (u\<lparr> status_reads := Suc (status_reads u) \<rparr>)
      else Some (u\<lparr> status_reads := Suc (status_reads u) \<rparr>))"

definition port_write :: "u16 \<Rightarrow> u8 \<Rightarrow> uart \<Rightarrow> uart" where
  "port_write port value u = u\<lparr> port_writes := port_writes u @ [(port, value)] \<rparr>"

text \<open>One byte, and the bytes of a text before its terminating zero.\<close>

definition send_byte :: "u16 \<Rightarrow> u8 \<Rightarrow> uart \<Rightarrow> uart option" where
  "send_byte port c u = map_option (port_write port c) (wait_ready u)"

fun send_bytes :: "u16 \<Rightarrow> bytes \<Rightarrow> uart \<Rightarrow> uart option" where
  "send_bytes port [] u = Some u"
| "send_bytes port (c # cs) u = Option.bind (send_byte port c u) (send_bytes port cs)"

section \<open>A port that keeps becoming ready\<close>

definition uart_live :: "uart \<Rightarrow> bool" where
  "uart_live u \<longleftrightarrow> (\<forall>n. \<exists>k\<ge>n. line_status u k AND 0x20 \<noteq> 0)"

lemma wait_ready_returns:
  assumes "uart_live u"
  obtains n where "wait_ready u = Some (u\<lparr> status_reads := n \<rparr>)" "status_reads u < n"
proof -
  obtain k where k: "status_reads u \<le> k" "line_status u k AND 0x20 \<noteq> 0"
    using assms by (auto simp: uart_live_def)
  have "\<exists>n. wait_ready u = Some (u\<lparr> status_reads := n \<rparr>) \<and> status_reads u < n"
    using k
  proof (induction "k - status_reads u" arbitrary: u)
    case 0
    then have "status_reads u = k" by simp
    then show ?case using 0(3) by (subst wait_ready.simps) auto
  next
    case (Suc d)
    show ?case
    proof (cases "line_status u (status_reads u) AND 0x20 = 0")
      case False
      then show ?thesis by (subst wait_ready.simps) auto
    next
      case True
      have "d = k - status_reads (u\<lparr> status_reads := Suc (status_reads u) \<rparr>)" using Suc.hyps(2) by simp
      moreover have "status_reads (u\<lparr> status_reads := Suc (status_reads u) \<rparr>) \<le> k" using Suc.hyps(2) by simp
      ultimately obtain n where "wait_ready (u\<lparr> status_reads := Suc (status_reads u) \<rparr>)
          = Some (u\<lparr> status_reads := n \<rparr>)" "Suc (status_reads u) < n"
        using Suc.hyps(1) [of "u\<lparr> status_reads := Suc (status_reads u) \<rparr>"] Suc.prems(2) by auto
      then show ?thesis using True by (subst wait_ready.simps) auto
    qed
  qed
  then show ?thesis using that by blast
qed

text \<open>Sending then returns, and what went over the line is the text.\<close>

lemma send_byte_returns:
  assumes "uart_live u"
  obtains u' where "send_byte port c u = Some u'" "uart_live u'" "port_writes u' = port_writes u @ [(port, c)]"
proof -
  obtain n where "wait_ready u = Some (u\<lparr> status_reads := n \<rparr>)" using assms by (rule wait_ready_returns)
  then show ?thesis
    using assms by (intro that [of "port_write port c (u\<lparr> status_reads := n \<rparr>)"])
      (simp_all add: send_byte_def port_write_def uart_live_def)
qed

lemma send_bytes_returns:
  assumes "uart_live u"
  shows "\<exists>u'. send_bytes port cs u = Some u' \<and> uart_live u' \<and> port_writes u' = port_writes u @ map (Pair port) cs"
  using assms
proof (induction cs arbitrary: u)
  case (Cons c cs)
  obtain u1 where u1: "send_byte port c u = Some u1" "uart_live u1" "port_writes u1 = port_writes u @ [(port, c)]"
    using Cons.prems by (rule send_byte_returns)
  from Cons.IH [OF u1(2)] u1 show ?case by auto
qed simp

section \<open>A port that is never ready\<close>

lemma wait_ready_found:
  assumes "wait_ready u = Some u'"
  shows "\<exists>k\<ge>status_reads u. line_status u k AND 0x20 \<noteq> 0"
proof (rule wait_ready.raw_induct [where P = "\<lambda>u u'. \<exists>k\<ge>status_reads u. line_status u k AND 0x20 \<noteq> 0", OF _ assms])
  fix wait u u'
  assume IH: "\<And>u u'. wait u = Some u' \<Longrightarrow> \<exists>k\<ge>status_reads u. line_status u k AND 0x20 \<noteq> 0"
    and eq: "(if line_status u (status_reads u) AND 0x20 = 0
      then wait (u\<lparr> status_reads := Suc (status_reads u) \<rparr>)
      else Some (u\<lparr> status_reads := Suc (status_reads u) \<rparr>)) = Some u'"
  show "\<exists>k\<ge>status_reads u. line_status u k AND 0x20 \<noteq> 0"
  proof (cases "line_status u (status_reads u) AND 0x20 = 0")
    case True
    then have "wait (u\<lparr> status_reads := Suc (status_reads u) \<rparr>) = Some u'" using eq by simp
    from IH [OF this] show ?thesis by (auto intro: Suc_leD)
  qed auto
qed

lemma send_bytes_stuck:
  assumes "\<forall>k\<ge>status_reads u. line_status u k AND 0x20 = 0" "cs \<noteq> []"
  shows "send_bytes port cs u = None"
proof -
  have "wait_ready u = None" using wait_ready_found [of u] assms(1) by (cases "wait_ready u") auto
  then show ?thesis using assms(2) by (cases cs) (simp_all add: send_byte_def)
qed

end
