(* ===== verification/JB_Stage2.thy ===== *)
theory JB_Stage2
  imports JB_Placement JB_Protocol JB_Uart
begin

text \<open>
  The rest of the BIOS loader, \<open>boot/stage2_pm.c\<close>: the processor checks, the check of the staging
  memory, the scans for the firmware tables, the boot information for the kernel and
  \<open>stage2_pm_main\<close>, which ties the loader together.

  What the assembly part of the loader hands over (the number of memory map entries, the boot drive,
  the mode) and the processor's own answers are parameters. A scan loop is a partial function whose
  value \<open>None\<close> would be a loop that never ends; the theorems show that the scans end. The messages of
  the loader are recorded as they are written; \<open>stage2_on_uart\<close> sends them through the serial port of
  \<open>JB_Uart\<close> with its wait before each byte.
\<close>

section \<open>Processor and environment\<close>

text \<open>
  The processor: the flags register, what the register holds after an attempt to load a value, and
  the \<open>cpuid\<close> instruction for a leaf with subleaf 0 (the registers eax, ebx, ecx, edx).
\<close>

record cpu =
  eflags :: u32
  popfl :: "u32 \<Rightarrow> u32"
  cpuid_instruction :: "u32 \<Rightarrow> u32 \<Rightarrow> u32 \<times> u32 \<times> u32 \<times> u32"

record boot_env =
  e820_count :: u16
  boot_drive :: u8
  filesystem_boot :: u8

definition cpu_has_cpuid :: "cpu \<Rightarrow> bool" where
  "cpu_has_cpuid c =
     (let original = eflags c;
          toggled = original XOR push_bit 21 1;
          changed = popfl c toggled
      in (changed XOR original) AND push_bit 21 1 \<noteq> 0)"

definition cpuid :: "cpu \<Rightarrow> u32 \<Rightarrow> u32 \<times> u32 \<times> u32 \<times> u32" where
  "cpuid c leaf = cpuid_instruction c leaf 0"

definition cpu_has_long_mode :: "cpu \<Rightarrow> bool" where
  "cpu_has_long_mode c =
     (if \<not> cpu_has_cpuid c then False
      else
        case cpuid c 1 of (_, _, _, edx) \<Rightarrow>
          if edx AND push_bit 6 1 = 0 then False
          else
            case cpuid c 0x80000000 of (eax, _, _, _) \<Rightarrow>
              if eax < 0x80000001 then False
              else
                case cpuid c 0x80000001 of (_, _, _, edx) \<Rightarrow> edx AND push_bit 29 1 \<noteq> 0)"

definition COM1 :: u16 where "COM1 = 0x3F8"

definition out8 :: "u16 \<Rightarrow> u8 \<Rightarrow> 'd stage2 \<Rightarrow> 'd stage2" where
  "out8 port value st = st\<lparr> s2_uart := s2_uart st @ [(port, value)] \<rparr>"

definition serial_init :: "'d stage2 \<Rightarrow> 'd stage2" where
  "serial_init st =
     out8 (COM1 + 4) 0x0B (out8 (COM1 + 2) 0xC7 (out8 (COM1 + 3) 3 (out8 (COM1 + 1) 0
       (out8 COM1 1 (out8 (COM1 + 3) 0x80 (out8 (COM1 + 1) 0 st))))))"

section \<open>Memory map\<close>

definition BOOTINFO_ADDR :: u32 where "BOOTINFO_ADDR = 0x00058000"
definition MEMORY_MAP_ADDR :: u32 where "MEMORY_MAP_ADDR = 0x00059000"
definition VBE_INFO_ADDR :: u32 where "VBE_INFO_ADDR = 0x0005A000"
definition LOADER_NAME_ADDR :: u32 where "LOADER_NAME_ADDR = 0x0005B000"
definition CMDLINE_ADDR :: u32 where "CMDLINE_ADDR = 0x0005C000"

definition map_entry :: "32 memory \<Rightarrow> nat \<Rightarrow> JoshMemoryMapEntry" where
  "map_entry m i = memory_map_entry_of_bytes (mem_bytes m (MEMORY_MAP_ADDR + 24 * of_nat i) 24)"

text \<open>The loop over the entries from \<open>i\<close>, \<open>n\<close> left.\<close>

fun staging_loop :: "32 memory \<Rightarrow> u64 \<Rightarrow> u64 \<Rightarrow> nat \<Rightarrow> nat \<Rightarrow> bool" where
  "staging_loop m start end0 i 0 = False"
| "staging_loop m start end0 i (Suc n) =
     (if mm_type (map_entry m i) \<noteq> JOSH_MEMORY_USABLE then staging_loop m start end0 (Suc i) n
      else
        let entry_start = mm_base (map_entry m i);
            entry_end = entry_start + mm_length (map_entry m i) in
        if entry_end < entry_start then staging_loop m start end0 (Suc i) n
        else if start \<ge> entry_start \<and> end0 \<le> entry_end then True
        else staging_loop m start end0 (Suc i) n)"

definition staging_range_is_usable :: "boot_env \<Rightarrow> 32 memory \<Rightarrow> bool" where
  "staging_range_is_usable env m =
     (let start = ucast KERNEL_IMAGE_ADDR; end0 = start + ucast KERNEL_IMAGE_BYTES
      in staging_loop m start end0 0 (unat (e820_count env)))"

section \<open>Firmware tables\<close>

fun bytes_equal :: "32 memory \<Rightarrow> u32 \<Rightarrow> bytes \<Rightarrow> bool" where
  "bytes_equal m a [] = True"
| "bytes_equal m a (c # cs) = (if m a \<noteq> c then False else bytes_equal m (a + 1) cs)"

fun checksum_loop :: "32 memory \<Rightarrow> u32 \<Rightarrow> nat \<Rightarrow> u8 \<Rightarrow> u8" where
  "checksum_loop m a 0 acc = acc"
| "checksum_loop m a (Suc n) acc = checksum_loop m (a + 1) n (acc + m a)"

definition checksum :: "32 memory \<Rightarrow> u32 \<Rightarrow> u32 \<Rightarrow> u8" where
  "checksum m a len = checksum_loop m a (unat len) 0"

text \<open>The tests on one candidate, in the order of the code; a failed test is the \<open>continue\<close>.\<close>

definition rsdp_candidate :: "32 memory \<Rightarrow> u32 \<Rightarrow> u32 \<Rightarrow> bool" where
  "rsdp_candidate m end0 address =
     (if \<not> bytes_equal m address (ascii ''RSD PTR '') then False
      else if checksum m address 20 \<noteq> 0 then False
      else if m (address + 15) \<ge> 2
      then
        let len = read_le32 (mem_bytes m (address + 20) 4) in
        \<not> (len < 36 \<or> address + len > end0 \<or> checksum m address len \<noteq> 0)
      else True)"

partial_function (option) scan :: "(u32 \<Rightarrow> bool) \<Rightarrow> u32 \<Rightarrow> u32 \<Rightarrow> u32 \<Rightarrow> u32 option option" where
  "scan accept window end0 address =
     (if address + window \<le> end0
      then if accept address then Some (Some address) else scan accept window end0 (address + 16)
      else Some None)"

definition find_rsdp :: "32 memory \<Rightarrow> u64 option" where
  "find_rsdp m =
     (let ebda_segment = ucast (read_le16 (mem_bytes m 0x40E 2)) :: u32;
          ebda = push_bit 4 ebda_segment;
          region0 = (\<lambda>start end0. scan (rsdp_candidate m end0) 20 end0 ((start + 15) AND NOT 15)) in
      case region0 ebda (ebda + 1024) of
        None \<Rightarrow> None
      | Some (Some address) \<Rightarrow> Some (ucast address)
      | Some None \<Rightarrow>
          (case region0 0xE0000 0x100000 of
             None \<Rightarrow> None
           | Some (Some address) \<Rightarrow> Some (ucast address)
           | Some None \<Rightarrow> Some 0))"

definition smbios_candidate :: "32 memory \<Rightarrow> u32 \<Rightarrow> bool" where
  "smbios_candidate m address =
     (if bytes_equal m address (ascii ''_SM3_'') \<and> m (address + 6) \<ge> 0x18
         \<and> checksum m address (ucast (m (address + 6))) = 0 then True
      else if bytes_equal m address (ascii ''_SM_'') \<and> m (address + 5) \<ge> 0x1F
         \<and> checksum m address (ucast (m (address + 5))) = 0 then True
      else False)"

definition find_smbios :: "32 memory \<Rightarrow> u64 option" where
  "find_smbios m =
     (case scan (smbios_candidate m) 0x20 0x100000 0xF0000 of
        None \<Rightarrow> None
      | Some (Some address) \<Rightarrow> Some (ucast address)
      | Some None \<Rightarrow> Some 0)"

section \<open>Boot information\<close>

definition vbe8 :: "32 memory \<Rightarrow> u32 \<Rightarrow> u32" where
  "vbe8 m off = ucast (m (VBE_INFO_ADDR + off))"

definition vbe16 :: "32 memory \<Rightarrow> u32 \<Rightarrow> u32" where
  "vbe16 m off = ucast (read_le16 (mem_bytes m (VBE_INFO_ADDR + off) 2))"

definition vbe_framebuffer :: "32 memory \<Rightarrow> JoshFramebufferInfo" where
  "vbe_framebuffer m =
     \<lparr> fb_address = ucast (read_le32 (mem_bytes m (VBE_INFO_ADDR + 0x28) 4)),
       fb_width = vbe16 m 0x12, fb_height = vbe16 m 0x14, fb_pitch = vbe16 m 0x10, fb_bpp = vbe8 m 0x19,
       red_mask_size = vbe8 m 0x1F, red_mask_shift = vbe8 m 0x20,
       green_mask_size = vbe8 m 0x21, green_mask_shift = vbe8 m 0x22,
       blue_mask_size = vbe8 m 0x23, blue_mask_shift = vbe8 m 0x24 \<rparr>"

text \<open>The structure before the scans: what is assigned first, over zeros.\<close>

definition base_boot_info :: "boot_env \<Rightarrow> JoshElf64Summary \<Rightarrow> 32 memory \<Rightarrow> JoshBootInfo" where
  "base_boot_info env summary m =
     \<lparr> bi_magic = JOSH_BOOT_INFO_MAGIC, abi_major = JOSH_BOOT_ABI_MAJOR, abi_minor = JOSH_BOOT_ABI_MINOR,
       total_size = 224,
       bi_flags = JOSH_BOOT_FLAG_MEMORY_MAP OR JOSH_BOOT_FLAG_FRAMEBUFFER OR JOSH_BOOT_FLAG_LOADER_NAME,
       firmware_type = JOSH_FIRMWARE_LEGACY_BIOS, bi_boot_drive = ucast (boot_drive env),
       memory_map_address = ucast MEMORY_MAP_ADDR, memory_map_entries = ucast (e820_count env),
       memory_map_entry_size = 24,
       framebuffer = vbe_framebuffer m,
       kernel_phys_start = ucast KERNEL_PHYS_BASE + (virtual_min summary - KERNEL_VIRT_BASE),
       kernel_phys_end = ucast KERNEL_PHYS_BASE + (virtual_max summary - KERNEL_VIRT_BASE),
       kernel_virt_start = virtual_min summary, kernel_virt_end = virtual_max summary,
       rsdp_phys = 0, smbios_phys = 0, command_line_address = 0, command_line_length = 0,
       bi_reserved0 = 0, bootloader_name_address = 0, bootloader_name_length = 0, bi_reserved1 = 0,
       kernel_entry = sum_entry summary, bi_reserved = replicate 5 0 \<rparr>"

definition put_boot_info :: "JoshBootInfo \<Rightarrow> 32 memory \<Rightarrow> 32 memory" where
  "put_boot_info info m = mem_store m BOOTINFO_ADDR (boot_info_bytes info)"

definition text_length :: "bytes \<Rightarrow> nat" where
  "text_length array = length (cstr array)"

definition loader_name :: bytes where
  "loader_name = ascii ''JoshBootloader BIOS''"

text \<open>
  The structure lives in memory, and so do the texts; the scans read that memory. The result is
  \<open>None\<close> when a scan does not end.
\<close>

definition fill_boot_info :: "boot_env \<Rightarrow> JoshElf64Summary \<Rightarrow> josh_boot_config option \<Rightarrow> 32 memory
    \<Rightarrow> 32 memory option" where
  "fill_boot_info env summary config m =
     (let m0 = memzero m BOOTINFO_ADDR 224;
          info0 = base_boot_info env summary m0;
          m1 = put_boot_info info0 m0 in
      case find_rsdp m1 of
        None \<Rightarrow> None
      | Some rsdp \<Rightarrow>
          let info1 = info0\<lparr> rsdp_phys := rsdp,
                  bi_flags := (if rsdp \<noteq> 0 then bi_flags info0 OR JOSH_BOOT_FLAG_RSDP else bi_flags info0) \<rparr>;
              m2 = put_boot_info info1 m1 in
          (case find_smbios m2 of
             None \<Rightarrow> None
           | Some smbios \<Rightarrow>
               let info2 = info1\<lparr> smbios_phys := smbios,
                       bi_flags := (if smbios \<noteq> 0 then bi_flags info1 OR JOSH_BOOT_FLAG_SMBIOS else bi_flags info1) \<rparr>;
                   m3 = put_boot_info info2 m2;
                   (info3, m4) =
                     (case config of
                        None \<Rightarrow> (info2, m3)
                      | Some c \<Rightarrow>
                          if command_line c ! 0 \<noteq> 0
                          then
                            let len = text_length (command_line c);
                                info3 = info2\<lparr> command_line_address := ucast CMDLINE_ADDR,
                                  command_line_length := of_nat len,
                                  bi_flags := bi_flags info2 OR JOSH_BOOT_FLAG_CMDLINE \<rparr>
                            in (info3, put_boot_info info3 (mem_store m3 CMDLINE_ADDR (take len (command_line c))))
                          else (info2, m3));
                   m5 = mem_store m4 LOADER_NAME_ADDR loader_name;
                   info4 = info3\<lparr> bootloader_name_address := ucast LOADER_NAME_ADDR,
                       bootloader_name_length := of_nat (length loader_name) \<rparr>
               in Some (put_boot_info info4 m5)))"

section \<open>The whole loader\<close>

text \<open>
  How a run ends: halted for good, returning to the caller (which continues with the kernel that
  the raw loader put in place), or entering long mode with \<open>stage2_kernel_entry\<close>.
\<close>

datatype stage2_outcome = Halted | Returned | EnterLongMode u64

definition is_elf :: "32 memory \<Rightarrow> bool" where
  "is_elf m \<longleftrightarrow> \<not> (m KERNEL_IMAGE_ADDR \<noteq> 0x7F \<or> m (KERNEL_IMAGE_ADDR + 1) \<noteq> 0x45
     \<or> m (KERNEL_IMAGE_ADDR + 2) \<noteq> 0x4C \<or> m (KERNEL_IMAGE_ADDR + 3) \<noteq> 0x46)"

text \<open>The second half of \<open>stage2_pm_main\<close>, from the detection of an ELF image.\<close>

definition stage2_handoff :: "boot_env \<Rightarrow> u32 \<Rightarrow> josh_boot_config option \<Rightarrow> 'd stage2
    \<Rightarrow> (stage2_outcome \<times> 'd stage2) option" where
  "stage2_handoff env image_bytes active_config st =
     (let st1 = serial_write ''JOSHBOOT_ELF64_DETECTED\<newline>'' st in
      case load_elf no_summary image_bytes (s2_mem st1) of
        (ok, summary, m1) \<Rightarrow>
          let st2 = st1\<lparr> s2_mem := m1 \<rparr> in
          if \<not> ok then Some (Halted, serial_write ''JOSHBOOT_ERROR_ELF64\<newline>'' st2)
          else
            (case fill_boot_info env summary active_config m1 of
               None \<Rightarrow> None
             | Some m2 \<Rightarrow>
                 Some (EnterLongMode (sum_entry summary),
                       serial_write ''JOSHBOOT_HANDOFF_READY\<newline>'' (st2\<lparr> s2_mem := build_page_tables m2 \<rparr>))))"

definition stage2_pm_main :: "'d bios \<Rightarrow> cpu \<Rightarrow> boot_env \<Rightarrow> josh_boot_config \<Rightarrow> 'd stage2
    \<Rightarrow> (stage2_outcome \<times> 'd stage2) option" where
  "stage2_pm_main fw c env boot_config st =
     (let st0 = serial_init st in
      if \<not> cpu_has_long_mode c then Some (Halted, serial_write ''JOSHBOOT_ERROR_CPU_LONG_MODE\<newline>'' st0)
      else
        let st1 = serial_write ''JOSHBOOT_CPU_LONG_MODE_OK\<newline>'' st0 in
        if filesystem_boot env \<noteq> 0 \<and> \<not> staging_range_is_usable env (s2_mem st1)
        then Some (Halted, serial_write ''JOSHBOOT_ERROR_STAGING_MEMORY\<newline>'' st1)
        else if \<not> is_elf (s2_mem st1)
        then
          if filesystem_boot env = 0 then Some (Returned, st1)
          else
            (case load_kernel_file fw (Some KERNEL_IMAGE_BYTES) (Some boot_config)
                    (serial_write ''JOSHBOOT_FS_LOAD_BEGIN\<newline>'' st1) of
               None \<Rightarrow> None
             | Some (ok, image_bytes, active_config, st2) \<Rightarrow>
                 if \<not> ok then Some (Halted, serial_write ''JOSHBOOT_ERROR_FILESYSTEM_LOAD\<newline>'' st2)
                 else if \<not> is_elf (s2_mem st2)
                 then Some (Halted, serial_write ''JOSHBOOT_ERROR_KERNEL_NOT_ELF\<newline>'' st2)
                 else stage2_handoff env (the image_bytes) active_config st2)
        else stage2_handoff env KERNEL_IMAGE_BYTES None st1)"

section \<open>The scans end, at the first match\<close>

lemma bytes_equal_iff: "bytes_equal m a cs \<longleftrightarrow> mem_bytes m a (length cs) = cs"
proof (induction cs arbitrary: a)
  case (Cons c cs)
  have "mem_bytes m a (length (c # cs)) = m a # mem_bytes m (a + 1) (length cs)"
    by (simp add: mem_bytes_def map_Suc_upt [symmetric] upt_conv_Cons comp_def add.assoc del: upt_Suc)
  then show ?case using Cons.IH by simp
qed (simp add: mem_bytes_def)

lemma checksum_sum: "checksum m a len = sum_list (mem_bytes m a (unat len))"
proof -
  have "checksum_loop m a n acc = acc + sum_list (mem_bytes m a n)" for n acc
  proof (induction n arbitrary: a acc)
    case (Suc n)
    have "mem_bytes m a (Suc n) = m a # mem_bytes m (a + 1) n"
      by (simp add: mem_bytes_def map_Suc_upt [symmetric] upt_conv_Cons comp_def add.assoc del: upt_Suc)
    then show ?case using Suc.IH [of "a + 1" "acc + m a"] by (simp add: add.assoc)
  qed (simp add: mem_bytes_def)
  then show ?thesis by (simp add: checksum_def)
qed

text \<open>The addresses a scan looks at: every 16 bytes, with a window inside the area.\<close>

definition scanned :: "u32 \<Rightarrow> nat \<Rightarrow> nat \<Rightarrow> u32 \<Rightarrow> bool" where
  "scanned start window end0 x \<longleftrightarrow>
     start \<le> x \<and> unat x + window \<le> end0 \<and> (unat x - unat start) mod 16 = 0"

text \<open>\<open>r\<close> is the first scanned address with \<open>P\<close>, or there is none.\<close>

definition first_scanned :: "u32 \<Rightarrow> nat \<Rightarrow> nat \<Rightarrow> (u32 \<Rightarrow> bool) \<Rightarrow> u32 option \<Rightarrow> bool" where
  "first_scanned start window end0 P r \<longleftrightarrow>
     (case r of
        Some x \<Rightarrow> P x \<and> scanned start window end0 x \<and> (\<forall>y. scanned start window end0 y \<and> y < x \<longrightarrow> \<not> P y)
      | None \<Rightarrow> \<forall>y. scanned start window end0 y \<longrightarrow> \<not> P y)"

lemma scan_first:
  assumes "unat end0 < 2 ^ 32 - 64" "unat a < 2 ^ 32 - 64" "16 \<le> unat window" "unat window \<le> 32"
  shows "\<exists>r. scan accept window end0 a = Some r \<and> first_scanned a (unat window) (unat end0) accept r"
  unfolding first_scanned_def
  using assms(2)
proof (induction "unat end0 - unat a" arbitrary: a rule: less_induct)
  case less
  have w: "unat (a + window) = unat a + unat window"
    using less.prems assms(4) by (simp add: unat_add_lem [THEN iffD1])
  have n: "unat (a + 16) = unat a + 16" using less.prems by (simp add: unat_add_lem [THEN iffD1])
  show ?case
  proof (cases "unat a + unat window \<le> unat end0")
    case False
    then have "\<not> scanned a (unat window) (unat end0) y" for y by (auto simp: scanned_def word_le_nat_alt)
    then show ?thesis using False w by (simp add: scan.simps [of _ _ _ a] word_le_nat_alt)
  next
    case True
    have here: "scanned a (unat window) (unat end0) a" using True by (simp add: scanned_def)
    have split: "scanned a (unat window) (unat end0) y \<longleftrightarrow> y = a \<or> scanned (a + 16) (unat window) (unat end0) y" for y
    proof -
      have "(unat y - unat a) mod 16 = 0 \<and> unat a \<le> unat y \<longleftrightarrow>
          unat y = unat a \<or> (unat y - (unat a + 16)) mod 16 = 0 \<and> unat a + 16 \<le> unat y" by presburger
      then show ?thesis using True by (auto simp: scanned_def word_le_nat_alt n word_unat_eq_iff)
    qed
    show ?thesis
    proof (cases "accept a")
      case yes: True
      have "\<not> y < a" if "scanned a (unat window) (unat end0) y" for y using that by (auto simp: scanned_def)
      then show ?thesis using True yes here w by (auto simp: scan.simps [of _ _ _ a] word_le_nat_alt)
    next
      case no: False
      have next0: "scan accept window end0 a = scan accept window end0 (a + 16)"
        using True no w by (simp add: scan.simps [of _ _ _ a] word_le_nat_alt)
      have lt: "unat (a + 16) < 2 ^ 32 - 64" "unat end0 - unat (a + 16) < unat end0 - unat a"
        using True assms(1,3) n by linarith+
      obtain r where r: "scan accept window end0 (a + 16) = Some r"
        "case r of
           Some x \<Rightarrow> accept x \<and> scanned (a + 16) (unat window) (unat end0) x
             \<and> (\<forall>y. scanned (a + 16) (unat window) (unat end0) y \<and> y < x \<longrightarrow> \<not> accept y)
         | None \<Rightarrow> \<forall>y. scanned (a + 16) (unat window) (unat end0) y \<longrightarrow> \<not> accept y"
        using less.hyps [OF lt(2,1)] by blast
      show ?thesis
        using r(2) no by (intro exI [of _ r]) (auto simp: next0 r(1) split split: option.split_asm)
    qed
  qed
qed

text \<open>A root pointer as the ACPI specification describes it: signature, checksum, and for revision 2
  and later the extended length and checksum.\<close>

definition rsdp_structure :: "32 memory \<Rightarrow> u32 \<Rightarrow> bool" where
  "rsdp_structure m x \<longleftrightarrow>
     mem_bytes m x 8 = ascii ''RSD PTR '' \<and> sum_list (mem_bytes m x 20) = 0
     \<and> (2 \<le> m (x + 15) \<longrightarrow>
          36 \<le> read_le32 (mem_bytes m (x + 20) 4)
          \<and> sum_list (mem_bytes m x (unat (read_le32 (mem_bytes m (x + 20) 4)))) = 0)"

text \<open>The extended structure ends inside the area, in the 32-bit arithmetic of the code.\<close>

definition rsdp_ends_inside :: "32 memory \<Rightarrow> u32 \<Rightarrow> u32 \<Rightarrow> bool" where
  "rsdp_ends_inside m end0 x \<longleftrightarrow> (2 \<le> m (x + 15) \<longrightarrow> x + read_le32 (mem_bytes m (x + 20) 4) \<le> end0)"

definition smbios_structure :: "32 memory \<Rightarrow> u32 \<Rightarrow> bool" where
  "smbios_structure m x \<longleftrightarrow>
     mem_bytes m x 5 = ascii ''_SM3_'' \<and> 0x18 \<le> m (x + 6) \<and> sum_list (mem_bytes m x (unat (m (x + 6)))) = 0
     \<or> mem_bytes m x 4 = ascii ''_SM_'' \<and> 0x1F \<le> m (x + 5) \<and> sum_list (mem_bytes m x (unat (m (x + 5)))) = 0"

lemma signature_lengths:
  "length (ascii ''RSD PTR '') = 8" "length (ascii ''_SM3_'') = 5" "length (ascii ''_SM_'') = 4"
  by simp_all

lemma rsdp_candidate_iff: "rsdp_candidate m end0 x \<longleftrightarrow> rsdp_structure m x \<and> rsdp_ends_inside m end0 x"
  unfolding rsdp_candidate_def rsdp_structure_def rsdp_ends_inside_def Let_def checksum_sum bytes_equal_iff
    signature_lengths by (auto simp: not_less)

lemma smbios_candidate_iff: "smbios_candidate m x \<longleftrightarrow> smbios_structure m x"
  unfolding smbios_candidate_def smbios_structure_def checksum_sum bytes_equal_iff
    signature_lengths by (auto simp: unat_ucast_up)

text \<open>The start of the extended BIOS data area, from its segment in the BIOS data area.\<close>

definition ebda_start :: "32 memory \<Rightarrow> u32" where
  "ebda_start m = push_bit 4 (ucast (read_le16 (mem_bytes m 0x40E 2)))"

lemma ebda_bounds: "unat (ebda_start m) \<le> 0xFFFF0" "unat (ebda_start m) mod 16 = 0" "(ebda_start m + 15) AND NOT 15 = ebda_start m"
proof -
  let ?s = "read_le16 (mem_bytes m 0x40E 2)"
  have "unat ?s < 65536" using unsigned_less [of ?s, where ?'a = nat] by simp
  then have u: "unat (ebda_start m) = unat ?s * 16"
    by (simp add: ebda_start_def push_bit_eq_mult unat_mult_lem [THEN iffD1])
  then show "unat (ebda_start m) \<le> 0xFFFF0" "unat (ebda_start m) mod 16 = 0"
    using \<open>unat ?s < 65536\<close> by simp_all
  have m15: "(15 :: u32) = mask 4" by (simp add: mask_eq_exp_minus_1)
  have z: "ebda_start m AND mask 4 = 0"
    unfolding ebda_start_def by (rule bit_eqI) (auto simp: bit_simps)
  then have "ebda_start m + mask 4 = ebda_start m OR mask 4" by (rule disjunctive_add_eq_or)
  then have "(ebda_start m + mask 4) AND NOT (mask 4) = ebda_start m AND NOT (mask 4)"
    by (simp add: bit.conj_disj_distrib2)
  also have "\<dots> = ebda_start m"
    unfolding ebda_start_def by (rule bit_eqI) (auto simp: bit_simps)
  finally show "(ebda_start m + 15) AND NOT 15 = ebda_start m" unfolding m15 .
qed

lemma find_returns: "\<exists>r. find_rsdp m = Some r" "\<exists>r. find_smbios m = Some r"
proof -
  let ?e = "ebda_start m"
  have e: "unat ?e \<le> 0xFFFF0" "(?e + 15) AND NOT 15 = ?e" by (rule ebda_bounds)+
  then have "unat (?e + 1024) = unat ?e + 1024" by (simp add: unat_add_lem [THEN iffD1])
  then obtain low high where "scan (rsdp_candidate m (?e + 1024)) 20 (?e + 1024) ?e = Some low"
    "scan (rsdp_candidate m 0x100000) 20 0x100000 0xE0000 = Some high"
    using scan_first [of "?e + 1024" ?e 20 "rsdp_candidate m (?e + 1024)"]
      scan_first [of "0x100000" "0xE0000" 20 "rsdp_candidate m 0x100000"] e(1) by auto
  then show "\<exists>r. find_rsdp m = Some r"
    unfolding find_rsdp_def Let_def ebda_start_def [symmetric] e(2) by (simp split: option.split)
  obtain smb where "scan (smbios_candidate m) 0x20 0x100000 0xF0000 = Some smb"
    using scan_first [of "0x100000" "0xF0000" "0x20" "smbios_candidate m"] by auto
  then show "\<exists>r. find_smbios m = Some r" by (simp add: find_smbios_def split: option.split)
qed

text \<open>
  C37. The searches for the firmware's tables always end, and find the first structure that carries
  its signature and whose bytes sum to zero: the ACPI root pointer at a multiple of 16 in the first
  kilobyte of the extended BIOS data area, or else between \<open>0xE0000\<close> and \<open>0x100000\<close>; the SMBIOS
  entry point between \<open>0xF0000\<close> and \<open>0x100000\<close>. Zero is reported when there is none.
\<close>
theorem firmware_tables_found:
  "\<exists>low high smb.
     first_scanned (ebda_start m) 20 (unat (ebda_start m) + 1024)
       (\<lambda>x. rsdp_structure m x \<and> rsdp_ends_inside m (ebda_start m + 1024) x) low
     \<and> first_scanned 0xE0000 20 0x100000 (\<lambda>x. rsdp_structure m x \<and> rsdp_ends_inside m 0x100000 x) high
     \<and> first_scanned 0xF0000 0x20 0x100000 (smbios_structure m) smb
     \<and> find_rsdp m = Some (case low of Some x \<Rightarrow> ucast x
                           | None \<Rightarrow> (case high of Some x \<Rightarrow> ucast x | None \<Rightarrow> 0))
     \<and> find_smbios m = Some (case smb of Some x \<Rightarrow> ucast x | None \<Rightarrow> 0)"
proof -
  let ?e = "ebda_start m"
  have e: "unat ?e \<le> 0xFFFF0" "(?e + 15) AND NOT 15 = ?e" by (rule ebda_bounds)+
  then have u: "unat (?e + 1024) = unat ?e + 1024" by (simp add: unat_add_lem [THEN iffD1])
  have "(0xE000F :: u32) AND NOT 15 = 0xE0000" by simp
  note c = rsdp_candidate_iff smbios_candidate_iff
  obtain low where low: "scan (rsdp_candidate m (?e + 1024)) 20 (?e + 1024) ?e = Some low"
    "first_scanned ?e 20 (unat ?e + 1024) (\<lambda>x. rsdp_structure m x \<and> rsdp_ends_inside m (?e + 1024) x) low"
    using scan_first [of "?e + 1024" ?e 20 "rsdp_candidate m (?e + 1024)"] e u by (auto simp: c [abs_def])
  obtain high where high: "scan (rsdp_candidate m 0x100000) 20 0x100000 0xE0000 = Some high"
    "first_scanned 0xE0000 20 0x100000 (\<lambda>x. rsdp_structure m x \<and> rsdp_ends_inside m 0x100000 x) high"
    using scan_first [of "0x100000" "0xE0000" 20 "rsdp_candidate m 0x100000"] by (auto simp: c [abs_def])
  obtain smb where smb: "scan (smbios_candidate m) 0x20 0x100000 0xF0000 = Some smb"
    "first_scanned 0xF0000 0x20 0x100000 (smbios_structure m) smb"
    using scan_first [of "0x100000" "0xF0000" "0x20" "smbios_candidate m"] by (auto simp: c [abs_def])
  have "find_rsdp m = Some (case low of Some x \<Rightarrow> ucast x | None \<Rightarrow> (case high of Some x \<Rightarrow> ucast x | None \<Rightarrow> 0))"
    unfolding find_rsdp_def Let_def ebda_start_def [symmetric] e(2)
    using low(1) high(1) by (simp split: option.split)
  moreover have "find_smbios m = Some (case smb of Some x \<Rightarrow> ucast x | None \<Rightarrow> 0)"
    unfolding find_smbios_def using smb(1) by (simp split: option.split)
  ultimately show ?thesis using low(2) high(2) smb(2) by blast
qed

section \<open>What the kernel is told\<close>

definition boot_info_at :: "32 memory \<Rightarrow> JoshBootInfo" where
  "boot_info_at m = boot_info_of_bytes (mem_bytes m BOOTINFO_ADDR 224)"

lemmas boot_area_defs = BOOTINFO_ADDR_def MEMORY_MAP_ADDR_def VBE_INFO_ADDR_def LOADER_NAME_ADDR_def CMDLINE_ADDR_def

lemma boot_info_at_put: "length (bi_reserved info) = 5 \<Longrightarrow> boot_info_at (put_boot_info info m) = info"
  using mem_bytes_store [of "boot_info_bytes info" m BOOTINFO_ADDR] boot_info_of_bytes_bytes [of info "[]"]
  by (simp add: boot_info_at_def put_boot_info_def)

lemma put_boot_info_frame:
  "length (bi_reserved info) = 5 \<Longrightarrow> unat x < 0x58000 \<or> 0x580E0 \<le> unat x \<Longrightarrow> put_boot_info info m x = m x"
  by (auto simp: put_boot_info_def mem_store_apply region_bounds BOOTINFO_ADDR_def)

lemma mem_store_frame32:
  "unat d + length bs \<le> 0x100000 \<Longrightarrow> unat x < unat d \<or> unat d + length bs \<le> unat x \<Longrightarrow>
     mem_store m (d :: u32) bs x = m x"
  by (auto simp: mem_store_apply region_bounds)

definition cmdline_of :: "josh_boot_config option \<Rightarrow> bytes" where
  "cmdline_of config = (case config of None \<Rightarrow> [] | Some c \<Rightarrow> cstr (command_line c))"

text \<open>
  What the structure says at the end, for the addresses the scans returned, with the values of the
  protocol written out: version 0.1, 224 bytes, BIOS firmware, the map at 0x59000, the mode
  information block of the video BIOS at 0x5A000, the kernel's linked range and the physical range
  2 MiB above its offset in the kernel window, the command line at 0x5C000, the loader's name at
  0x5B000, and a flag for each part that is present.
\<close>

definition final_boot_info :: "boot_env \<Rightarrow> JoshElf64Summary \<Rightarrow> josh_boot_config option \<Rightarrow> 32 memory \<Rightarrow> u64 \<Rightarrow> u64
    \<Rightarrow> JoshBootInfo" where
  "final_boot_info env s config m rsdp smbios =
     \<lparr> bi_magic = 0x30494248534F4A4A, abi_major = 0, abi_minor = 1, total_size = 224,
       bi_flags = 0x23 OR (if rsdp \<noteq> 0 then 4 else 0) OR (if smbios \<noteq> 0 then 8 else 0)
         OR (if cmdline_of config \<noteq> [] then 0x10 else 0),
       firmware_type = 1, bi_boot_drive = ucast (boot_drive env),
       memory_map_address = 0x59000, memory_map_entries = ucast (e820_count env), memory_map_entry_size = 24,
       framebuffer =
         \<lparr> fb_address = ucast (read_le32 (mem_bytes m 0x5A028 4)),
           fb_width = ucast (read_le16 (mem_bytes m 0x5A012 2)), fb_height = ucast (read_le16 (mem_bytes m 0x5A014 2)),
           fb_pitch = ucast (read_le16 (mem_bytes m 0x5A010 2)), fb_bpp = ucast (m 0x5A019),
           red_mask_size = ucast (m 0x5A01F), red_mask_shift = ucast (m 0x5A020),
           green_mask_size = ucast (m 0x5A021), green_mask_shift = ucast (m 0x5A022),
           blue_mask_size = ucast (m 0x5A023), blue_mask_shift = ucast (m 0x5A024) \<rparr>,
       kernel_phys_start = 0x200000 + (virtual_min s - 0xFFFFFFFF80000000),
       kernel_phys_end = 0x200000 + (virtual_max s - 0xFFFFFFFF80000000),
       kernel_virt_start = virtual_min s, kernel_virt_end = virtual_max s,
       rsdp_phys = rsdp, smbios_phys = smbios,
       command_line_address = (if cmdline_of config \<noteq> [] then 0x5C000 else 0),
       command_line_length = of_nat (length (cmdline_of config)), bi_reserved0 = 0,
       bootloader_name_address = 0x5B000, bootloader_name_length = 19, bi_reserved1 = 0,
       kernel_entry = sum_entry s, bi_reserved = [0, 0, 0, 0, 0] \<rparr>"

lemma vbe_literal:
  "vbe_framebuffer m =
     \<lparr> fb_address = ucast (read_le32 (mem_bytes m 0x5A028 4)),
       fb_width = ucast (read_le16 (mem_bytes m 0x5A012 2)), fb_height = ucast (read_le16 (mem_bytes m 0x5A014 2)),
       fb_pitch = ucast (read_le16 (mem_bytes m 0x5A010 2)), fb_bpp = ucast (m 0x5A019),
       red_mask_size = ucast (m 0x5A01F), red_mask_shift = ucast (m 0x5A020),
       green_mask_size = ucast (m 0x5A021), green_mask_shift = ucast (m 0x5A022),
       blue_mask_size = ucast (m 0x5A023), blue_mask_shift = ucast (m 0x5A024) \<rparr>"
  by (simp add: vbe_framebuffer_def vbe8_def vbe16_def VBE_INFO_ADDR_def)

lemma final_boot_info_base:
  "final_boot_info env s config m rsdp smbios =
     (base_boot_info env s m)
       \<lparr> rsdp_phys := rsdp, smbios_phys := smbios,
         bi_flags := JOSH_BOOT_FLAG_MEMORY_MAP OR JOSH_BOOT_FLAG_FRAMEBUFFER OR JOSH_BOOT_FLAG_LOADER_NAME
           OR (if rsdp \<noteq> 0 then JOSH_BOOT_FLAG_RSDP else 0)
           OR (if smbios \<noteq> 0 then JOSH_BOOT_FLAG_SMBIOS else 0)
           OR (if cmdline_of config \<noteq> [] then JOSH_BOOT_FLAG_CMDLINE else 0),
         command_line_address := (if cmdline_of config \<noteq> [] then ucast CMDLINE_ADDR else 0),
         command_line_length := of_nat (length (cmdline_of config)),
         bootloader_name_address := ucast LOADER_NAME_ADDR, bootloader_name_length := 19 \<rparr>"
proof -
  have "replicate 5 (0 :: u64) = [0, 0, 0, 0, 0]" by (simp add: numeral_eq_Suc)
  then show ?thesis
    by (simp add: final_boot_info_def base_boot_info_def vbe_literal boot_area_defs boot_flags JOSH_BOOT_INFO_MAGIC_def
        JOSH_BOOT_ABI_MAJOR_def JOSH_BOOT_ABI_MINOR_def JOSH_FIRMWARE_LEGACY_BIOS_def KERNEL_PHYS_BASE_def
        KERNEL_VIRT_BASE_def)
qed

lemma vbe_frame:
  assumes "\<And>x. 0x5A000 \<le> unat x \<Longrightarrow> unat x < 0x5A030 \<Longrightarrow> m' x = m x"
  shows "vbe_framebuffer m' = vbe_framebuffer m"
proof -
  have "mem_bytes m' (VBE_INFO_ADDR + off) n = mem_bytes m (VBE_INFO_ADDR + off) n" if "unat off + n \<le> 0x30" for off n
  proof (rule mem_bytes_eqI)
    have u: "unat (VBE_INFO_ADDR + off) = 0x5A000 + unat off"
      using that by (simp add: VBE_INFO_ADDR_def unat_add_lem [THEN iffD1])
    fix x
    assume "x \<in> region (VBE_INFO_ADDR + off) n"
    then show "m' x = m x" using that u by (intro assms) (auto simp: region_bounds)
  qed (use that in simp)
  moreover have "m' (VBE_INFO_ADDR + off) = m (VBE_INFO_ADDR + off)" if "unat off < 0x30" for off
    using that by (intro assms) (simp_all add: VBE_INFO_ADDR_def unat_add_lem [THEN iffD1])
  ultimately show ?thesis by (simp add: vbe_framebuffer_def vbe8_def vbe16_def)
qed

lemma memzero_boot_info:
  "unat x < 0x58000 \<or> 0x580E0 \<le> unat x \<Longrightarrow> memzero m BOOTINFO_ADDR 224 x = m x"
  by (intro memzero_frame) (auto simp: region_bounds BOOTINFO_ADDR_def)

text \<open>The call as one equation: the two addresses found, and the three stores that count.\<close>

lemma fill_boot_info_eq:
  assumes "\<And>c. config = Some c \<Longrightarrow> holds 128 command_line_valid (command_line c)"
  obtains m3 info3 rsdp smbios mr ms where
    "fill_boot_info env summary config m =
       Some (put_boot_info (final_boot_info env summary config m rsdp smbios)
              (mem_store (if cmdline_of config = [] then m3 else put_boot_info info3 (mem_store m3 CMDLINE_ADDR (cmdline_of config)))
                 LOADER_NAME_ADDR loader_name))"
    "length (bi_reserved info3) = 5"
    "\<And>x. unat x < 0x58000 \<or> 0x580E0 \<le> unat x \<Longrightarrow> m3 x = m x"
    "find_rsdp mr = Some rsdp" "find_smbios ms = Some smbios"
    "\<And>x. unat x < 0x58000 \<or> 0x580E0 \<le> unat x \<Longrightarrow> mr x = m x \<and> ms x = m x"
proof -
  define m0 where "m0 = memzero m BOOTINFO_ADDR 224"
  define info0 where "info0 = base_boot_info env summary m0"
  have b0: "info0 = base_boot_info env summary m"
    unfolding info0_def base_boot_info_def m0_def
    by (simp add: vbe_frame [of "memzero m BOOTINFO_ADDR 224" m] memzero_boot_info)
  obtain rsdp where r: "find_rsdp (put_boot_info info0 m0) = Some rsdp" using find_returns(1) by blast
  define info1 where "info1 = info0\<lparr> rsdp_phys := rsdp,
    bi_flags := (if rsdp \<noteq> 0 then bi_flags info0 OR JOSH_BOOT_FLAG_RSDP else bi_flags info0) \<rparr>"
  define m2 where "m2 = put_boot_info info1 (put_boot_info info0 m0)"
  obtain smbios where s: "find_smbios m2 = Some smbios" using find_returns(2) by blast
  define info2 where "info2 = info1\<lparr> smbios_phys := smbios,
    bi_flags := (if smbios \<noteq> 0 then bi_flags info1 OR JOSH_BOOT_FLAG_SMBIOS else bi_flags info1) \<rparr>"
  define m3 where "m3 = put_boot_info info2 m2"
  define info3 where "info3 = info2\<lparr> command_line_address := ucast CMDLINE_ADDR,
    command_line_length := of_nat (length (cmdline_of config)), bi_flags := bi_flags info2 OR JOSH_BOOT_FLAG_CMDLINE \<rparr>"
  have res: "length (bi_reserved info0) = 5" "length (bi_reserved info1) = 5" "length (bi_reserved info2) = 5"
    "length (bi_reserved info3) = 5"
    by (simp_all add: info3_def info2_def info1_def info0_def base_boot_info_def)
  have fr: "m3 x = m x" if "unat x < 0x58000 \<or> 0x580E0 \<le> unat x" for x
    using that res by (simp add: m3_def m2_def m0_def put_boot_info_frame memzero_boot_info)
  have cl: "command_line c ! 0 \<noteq> 0 \<longleftrightarrow> cmdline_of config \<noteq> []" "take (length (cmdline_of config)) (command_line c) = cmdline_of config"
    "text_length (command_line c) = length (cmdline_of config)" if "config = Some c" for c
  proof -
    have "length (command_line c) = 128" using assms [OF that] by (simp add: holds_def)
    then show "command_line c ! 0 \<noteq> 0 \<longleftrightarrow> cmdline_of config \<noteq> []"
      by (cases "command_line c") (simp_all add: cmdline_of_def that cstr_def)
    show "take (length (cmdline_of config)) (command_line c) = cmdline_of config"
      "text_length (command_line c) = length (cmdline_of config)"
      by (simp_all add: text_length_def cmdline_of_def that cstr_def takeWhile_eq_take [symmetric])
  qed
  have fin: "final_boot_info env summary config m rsdp smbios =
      (if cmdline_of config = [] then info2 else info3)
        \<lparr> bootloader_name_address := ucast LOADER_NAME_ADDR, bootloader_name_length := of_nat (length loader_name) \<rparr>"
    by (simp add: final_boot_info_base info3_def info2_def info1_def b0 base_boot_info_def loader_name_def boot_flags)
  have "fill_boot_info env summary config m =
       Some (put_boot_info (final_boot_info env summary config m rsdp smbios)
              (mem_store (if cmdline_of config = [] then m3 else put_boot_info info3 (mem_store m3 CMDLINE_ADDR (cmdline_of config)))
                 LOADER_NAME_ADDR loader_name))"
  proof (cases config)
    case None
    then show ?thesis
      unfolding fill_boot_info_def Let_def m0_def [symmetric] info0_def [symmetric] r option.case info1_def [symmetric]
        m2_def [symmetric] s info2_def [symmetric] m3_def [symmetric] fin
      by (simp add: cmdline_of_def)
  next
    case (Some c)
    then show ?thesis
      unfolding fill_boot_info_def Let_def m0_def [symmetric] info0_def [symmetric] r option.case info1_def [symmetric]
        m2_def [symmetric] s info2_def [symmetric] m3_def [symmetric] fin
      by (simp add: cl [OF Some, unfolded Some] info3_def)
  qed
  moreover have "put_boot_info info0 m0 x = m x \<and> m2 x = m x" if "unat x < 0x58000 \<or> 0x580E0 \<le> unat x" for x
    using that res by (simp add: m2_def m0_def put_boot_info_frame memzero_boot_info)
  ultimately show ?thesis using res(4) fr r s by (intro that) assumption+
qed

lemma mem_bytes_keep:
  assumes "unat a + n \<le> 2 ^ 32" "\<And>x. unat a \<le> unat x \<Longrightarrow> unat x < unat a + n \<Longrightarrow> m' x = m x"
  shows "mem_bytes m' (a :: u32) n = mem_bytes m a n"
  using assms by (intro mem_bytes_eqI) (auto simp: region_bounds)

lemma fill_boot_info_result:
  assumes "\<And>c. config = Some c \<Longrightarrow> holds 128 command_line_valid (command_line c)"
  obtains m' rsdp smbios mr ms where "fill_boot_info env summary config m = Some m'"
    "boot_info_at m' = final_boot_info env summary config m rsdp smbios"
    "mem_bytes m' LOADER_NAME_ADDR 19 = loader_name"
    "mem_bytes m' CMDLINE_ADDR (length (cmdline_of config)) = cmdline_of config"
    "\<And>x. unat x < 0x58000 \<or> 0x59000 \<le> unat x \<and> unat x < 0x5B000 \<or> 0x5D000 \<le> unat x \<Longrightarrow> m' x = m x"
    "find_rsdp mr = Some rsdp" "find_smbios ms = Some smbios"
    "\<And>x. unat x < 0x58000 \<or> 0x580E0 \<le> unat x \<Longrightarrow> mr x = m x \<and> ms x = m x"
proof -
  let ?cmd = "cmdline_of config"
  have len: "length ?cmd \<le> 128"
    using assms by (cases config) (auto simp: cmdline_of_def holds_def intro: less_imp_le)
  have name: "length loader_name = 19" by (simp add: loader_name_def)
  from assms obtain m3 info3 rsdp smbios mr ms where
    eq: "fill_boot_info env summary config m =
       Some (put_boot_info (final_boot_info env summary config m rsdp smbios)
              (mem_store (if ?cmd = [] then m3 else put_boot_info info3 (mem_store m3 CMDLINE_ADDR ?cmd))
                 LOADER_NAME_ADDR loader_name))" (is "_ = Some (put_boot_info ?info (mem_store ?m4 _ _))")
    and i3: "length (bi_reserved info3) = 5"
    and fr: "\<And>x. unat x < 0x58000 \<or> 0x580E0 \<le> unat x \<Longrightarrow> m3 x = m x"
    and scans: "find_rsdp mr = Some rsdp" "find_smbios ms = Some smbios"
      "\<And>x. unat x < 0x58000 \<or> 0x580E0 \<le> unat x \<Longrightarrow> mr x = m x \<and> ms x = m x"
    by (rule fill_boot_info_eq [where env = env and summary = summary and m = m]) blast+
  let ?m = "put_boot_info ?info (mem_store ?m4 LOADER_NAME_ADDR loader_name)"
  have i4: "length (bi_reserved ?info) = 5" by (simp add: final_boot_info_def)
  have top: "?m x = mem_store ?m4 LOADER_NAME_ADDR loader_name x" if "0x59000 \<le> unat x" for x
    using that by (intro put_boot_info_frame [OF i4]) simp
  have nam: "mem_store ?m4 LOADER_NAME_ADDR loader_name x = ?m4 x" if "unat x < 0x5B000 \<or> 0x5B013 \<le> unat x" for x
    using that by (intro mem_store_frame32) (auto simp: name LOADER_NAME_ADDR_def)
  have cmd: "?m4 x = m3 x" if "unat x < 0x58000 \<or> 0x59000 \<le> unat x \<and> unat x < 0x5C000 \<or> 0x5D000 \<le> unat x" for x
    using that len mem_store_frame32 [of CMDLINE_ADDR ?cmd x m3]
    by (auto simp: put_boot_info_frame [OF i3] CMDLINE_ADDR_def)
  have bytes1: "mem_bytes ?m LOADER_NAME_ADDR 19 = loader_name"
    using mem_bytes_store [of loader_name ?m4 LOADER_NAME_ADDR] name
      mem_bytes_keep [of LOADER_NAME_ADDR 19 ?m "mem_store ?m4 LOADER_NAME_ADDR loader_name"] top
    by (simp add: LOADER_NAME_ADDR_def)
  have bytes2: "mem_bytes ?m CMDLINE_ADDR (length ?cmd) = ?cmd"
  proof (cases "?cmd = []")
    case False
    have "mem_bytes ?m CMDLINE_ADDR (length ?cmd) = mem_bytes (mem_store m3 CMDLINE_ADDR ?cmd) CMDLINE_ADDR (length ?cmd)"
      using len False top nam put_boot_info_frame [OF i3]
      by (intro mem_bytes_keep) (simp_all add: CMDLINE_ADDR_def)
    then show ?thesis using len by (simp add: mem_bytes_store)
  qed (simp add: mem_bytes_def)
  have frame: "?m x = m x"
    if "unat x < 0x58000 \<or> 0x59000 \<le> unat x \<and> unat x < 0x5B000 \<or> 0x5D000 \<le> unat x" for x
  proof -
    have "?m x = mem_store ?m4 LOADER_NAME_ADDR loader_name x" using that by (intro put_boot_info_frame [OF i4]) auto
    also have "\<dots> = ?m4 x" using that by (intro nam) auto
    also have "\<dots> = m3 x" using that by (intro cmd) auto
    also have "\<dots> = m x" using that by (intro fr) auto
    finally show ?thesis .
  qed
  show ?thesis by (rule that [OF eq boot_info_at_put [OF i4] bytes1 bytes2 frame scans])
qed

section \<open>The hand-off\<close>

text \<open>A byte as the kernel sees it, through the page tables in that memory.\<close>

definition virt_byte :: "32 memory \<Rightarrow> u64 \<Rightarrow> u8 option" where
  "virt_byte m va = map_option (\<lambda>pa. m (ucast pa)) (x86_translate (phys_read64 m) (ucast PML4_ADDR) va)"

text \<open>Every byte of every segment is where the program headers say, as the file has it or zero.\<close>

definition kernel_mapped :: "bytes \<Rightarrow> 32 memory \<Rightarrow> bool" where
  "kernel_mapped img m \<longleftrightarrow>
     (\<forall>p \<in> set (elf_segments img (elf64_header_of_bytes img)). \<forall>i < unat (p_memsz p).
        virt_byte m (p_vaddr p + of_nat i) = Some (seg_content img p ! i))"

text \<open>Where the kernel came from: already in the staging area, or loaded by \<open>load_kernel_file\<close>.\<close>

definition kernel_source :: "'d bios \<Rightarrow> josh_boot_config \<Rightarrow> 'd stage2 \<Rightarrow> u32 \<Rightarrow> josh_boot_config option \<Rightarrow> 'd stage2 \<Rightarrow> bool" where
  "kernel_source fw c0 st image_bytes config st1 \<longleftrightarrow>
     is_elf (s2_mem st) \<and> image_bytes = KERNEL_IMAGE_BYTES \<and> config = None
       \<and> s2_mem st1 = s2_mem st \<and> s2_disk st1 = s2_disk st
     \<or> (\<exists>st0. s2_disk st0 = s2_disk st \<and> s2_mem st0 = s2_mem st
          \<and> load_kernel_file fw (Some KERNEL_IMAGE_BYTES) (Some c0) st0 = Some (True, Some image_bytes, config, st1))"

lemma load_elf_True:
  assumes "load_elf s0 image_bytes m = (True, s, m')"
  shows "josh_elf64_validate (Some (staged_image image_bytes m)) (ucast image_bytes) (Some s0) = (JOSH_ELF64_OK, Some s)"
    "KERNEL_VIRT_BASE \<le> virtual_min s" "virtual_max s - KERNEL_VIRT_BASE \<le> 0x7E00000"
proof -
  let ?v = "josh_elf64_validate (Some (staged_image image_bytes m)) (ucast image_bytes) (Some s0)"
  have "snd ?v \<noteq> None" by (auto simp: josh_elf64_validate_def split: prod.split option.split sum.split)
  then obtain s' where s': "snd ?v = Some s'" by blast
  with assms have "?v = (JOSH_ELF64_OK, Some s) \<and> KERNEL_VIRT_BASE \<le> virtual_min s \<and> virtual_max s - KERNEL_VIRT_BASE \<le> 0x7E00000"
    by (cases ?v) (auto simp: load_elf_def Let_def KERNEL_PHYS_LIMIT_def KERNEL_PHYS_BASE_def not_less split: if_split_asm prod.splits)
  then show "?v = (JOSH_ELF64_OK, Some s)" "KERNEL_VIRT_BASE \<le> virtual_min s" "virtual_max s - KERNEL_VIRT_BASE \<le> 0x7E00000"
    by blast+
qed

text \<open>The kernel window maps an address of the kernel to where \<open>load_elf\<close> puts it.\<close>

lemma window_translate:
  assumes "KERNEL_VIRT_BASE \<le> va" "va - KERNEL_VIRT_BASE < 0x40000000"
  shows "x86_translate (phys_read64 (build_page_tables m)) (ucast PML4_ADDR) va =
      Some (ucast KERNEL_PHYS_BASE + (va - KERNEL_VIRT_BASE))"
proof -
  have "2 ^ 64 - 2 ^ 39 \<le> unat va"
    using assms(1) by (simp add: KERNEL_VIRT_BASE_def word_le_nat_alt)
  then show ?thesis using assms by (simp add: translate_high kernel_window_def PML4_ADDR_def)
qed

lemma kernel_mapped_placed:
  assumes "segments_fit image_bytes segs" "length img = unat image_bytes"
    and "sorted_wrt (\<lambda>p q. p_range p \<inter> p_range q = {}) segs" "segs = elf_segments img (elf64_header_of_bytes img)"
    and "\<And>x. 0x200000 \<le> unat x \<Longrightarrow> m' x = place_all img segs m x"
  shows "kernel_mapped img (build_page_tables m')"
  unfolding kernel_mapped_def assms(4) [symmetric]
proof (intro ballI allI impI)
  fix p i
  assume p: "p \<in> set segs" and i: "i < unat (p_memsz p)"
  have fit: "KERNEL_VIRT_BASE \<le> p_vaddr p" "seg_offset p + unat (p_memsz p) \<le> 0xE00000" "phdr_ok (ucast image_bytes) p"
    using assms(1) p by (simp_all add: segments_fit_def)
  let ?va = "p_vaddr p + of_nat i :: u64"
  have ui: "unat (of_nat i :: u64) = i" "unat (of_nat i :: u32) = i"
    using i fit(2) by (simp_all add: unat_of_nat take_bit_nat_eq_self)
  have "unat (p_vaddr p) + unat (p_memsz p) < 2 ^ 64" using fit(3) i by (auto simp: phdr_ok_def)
  then have va: "unat ?va = unat (p_vaddr p) + i" using i ui by (simp add: unat_add_lem [THEN iffD1])
  then have ge: "KERNEL_VIRT_BASE \<le> ?va" using fit(1) by (simp add: word_le_nat_alt)
  then have off: "unat (?va - KERNEL_VIRT_BASE) = seg_offset p + i"
    using fit(1) va by (simp add: unat_diff_le seg_offset_def word_le_nat_alt)
  then have lt: "?va - KERNEL_VIRT_BASE < 0x40000000" using fit(2) i by (simp add: word_less_nat_alt)
  have "?va - KERNEL_VIRT_BASE = of_nat (seg_offset p + i)" using off by (rule word_of_unat)
  then have "ucast KERNEL_PHYS_BASE + (?va - KERNEL_VIRT_BASE) = (of_nat (0x200000 + seg_offset p + i) :: u64)"
    by (simp add: KERNEL_PHYS_BASE_def)
  then have pa: "ucast (ucast KERNEL_PHYS_BASE + (?va - KERNEL_VIRT_BASE) :: u64) = seg_address p + of_nat i"
    by (simp only: ucast_of_nat_down) (simp add: seg_address_def)
  have sa: "unat (seg_address p + of_nat i) = 0x200000 + seg_offset p + i"
    using seg_address_bounds [of p "unat (p_memsz p)"] fit(2) i ui by (simp add: unat_add_lem [THEN iffD1])
  have reg: "seg_address p + of_nat i \<in> region (seg_address p) (unat (p_memsz p))" using i ui by (simp add: region_def)
  have "build_page_tables m' (seg_address p + of_nat i) = m' (seg_address p + of_nat i)"
    by (rule build_page_tables_frame) (simp add: sa)
  also have "\<dots> = place_all img segs m (seg_address p + of_nat i)" by (rule assms(5)) (simp add: sa)
  also have "\<dots> = seg_content img p ! i"
    using place_all_apply [OF assms(1-3) p reg] ui by simp
  finally show "virt_byte (build_page_tables m') ?va = Some (seg_content img p ! i)"
    by (simp add: virt_byte_def window_translate [OF ge lt] pa)
qed

text \<open>
  The memory the scans have read: what is there at the end, apart from the loader's own page tables
  and data between 0x50000 and 0x5D000.
\<close>

definition scanned_memory :: "32 memory \<Rightarrow> 32 memory \<Rightarrow> bool" where
  "scanned_memory mr m' \<longleftrightarrow> (\<forall>x. unat x < 0x50000 \<or> 0x5D000 \<le> unat x \<longrightarrow> mr x = m' x)"

text \<open>What holds when long mode is entered, for the image and configuration the loader settled on.\<close>

definition handoff_ok :: "boot_env \<Rightarrow> u32 \<Rightarrow> josh_boot_config option \<Rightarrow> 32 memory \<Rightarrow> u64 \<Rightarrow> 32 memory \<Rightarrow> bool" where
  "handoff_ok env image_bytes config m entry m' \<longleftrightarrow>
     (\<exists>s rsdp smbios.
        josh_elf64_validate (Some (staged_image image_bytes m)) (ucast image_bytes) (Some no_summary) = (JOSH_ELF64_OK, Some s)
        \<and> entry = sum_entry s
        \<and> x86_translate (phys_read64 m') (ucast PML4_ADDR) entry = Some (ucast KERNEL_PHYS_BASE + (entry - KERNEL_VIRT_BASE))
        \<and> boot_info_at m' = final_boot_info env s config m' rsdp smbios
        \<and> (\<exists>mr ms. scanned_memory mr m' \<and> find_rsdp mr = Some rsdp \<and> scanned_memory ms m' \<and> find_smbios ms = Some smbios)
        \<and> mem_bytes m' 0x5B000 19 = ascii ''JoshBootloader BIOS''
        \<and> mem_bytes m' 0x5C000 (length (cmdline_of config)) = cmdline_of config
        \<and> (virtual_max s - KERNEL_VIRT_BASE \<le> 0xE00000 \<longrightarrow> kernel_mapped (staged_image image_bytes m) m'))"

lemma entry_in_window:
  assumes "josh_elf64_validate (Some img) size0 (Some s0) = (JOSH_ELF64_OK, Some s)"
    and "KERNEL_VIRT_BASE \<le> virtual_min s" "virtual_max s - KERNEL_VIRT_BASE \<le> 0x7E00000"
  shows "KERNEL_VIRT_BASE \<le> sum_entry s" "sum_entry s - KERNEL_VIRT_BASE < 0x40000000"
proof -
  obtain h where ok: "elf_image_ok img size0 h s" using assms(1) by (rule validate_obtain)
  then obtain p where p: "p \<in> set (elf_segments img h)" "unat (sum_entry s) \<in> p_range p"
    by (auto simp: elf_image_ok_def)
  note b = segment_bounds [OF ok p(1) assms(2)]
  have "unat (p_vaddr p) \<le> unat (sum_entry s)" "unat (sum_entry s) < unat (p_vaddr p) + unat (p_memsz p)"
    using p(2) by (simp_all add: p_range_def)
  then show le: "KERNEL_VIRT_BASE \<le> sum_entry s"
    using b(3) by (simp add: word_le_nat_alt)
  then have "unat (sum_entry s - KERNEL_VIRT_BASE) < seg_offset p + unat (p_memsz p)"
    using b(3) \<open>unat (sum_entry s) < _\<close> by (simp add: unat_diff_le seg_offset_def word_le_nat_alt)
  then show "sum_entry s - KERNEL_VIRT_BASE < 0x40000000"
    using b(5) assms(3) by (simp add: word_less_nat_alt word_le_nat_alt)
qed

lemma stage2_handoff_ok:
  assumes "stage2_handoff env image_bytes config st = Some (EnterLongMode entry, st')"
    and "\<And>c. config = Some c \<Longrightarrow> config_wf c" "image_bytes \<le> KERNEL_IMAGE_BYTES"
  shows "handoff_ok env image_bytes config (s2_mem st) entry (s2_mem st') \<and> s2_disk st' = s2_disk st"
proof -
  let ?m = "s2_mem st"
  obtain ok s m1 where l: "load_elf no_summary image_bytes ?m = (ok, s, m1)"
    by (cases "load_elf no_summary image_bytes ?m")
  have ok: ok using assms(1) l by (cases ok) (simp_all add: stage2_handoff_def Let_def)
  note v = load_elf_True [OF l [unfolded ok [THEN eqTrueI]]]
  have "\<And>c. config = Some c \<Longrightarrow> holds 128 command_line_valid (command_line c)"
    using assms(2) by (simp add: config_wf_def)
  then obtain m2 rsdp smbios mr ms where f: "fill_boot_info env s config m1 = Some m2"
    "boot_info_at m2 = final_boot_info env s config m1 rsdp smbios"
    "mem_bytes m2 LOADER_NAME_ADDR 19 = loader_name"
    "mem_bytes m2 CMDLINE_ADDR (length (cmdline_of config)) = cmdline_of config"
    "\<And>x. unat x < 0x58000 \<or> 0x59000 \<le> unat x \<and> unat x < 0x5B000 \<or> 0x5D000 \<le> unat x \<Longrightarrow> m2 x = m1 x"
    "find_rsdp mr = Some rsdp" "find_smbios ms = Some smbios"
    "\<And>x. unat x < 0x58000 \<or> 0x580E0 \<le> unat x \<Longrightarrow> mr x = m1 x \<and> ms x = m1 x"
    by (rule fill_boot_info_result [where env = env and summary = s and m = m1]) blast+
  have e: "entry = sum_entry s" "s2_mem st' = build_page_tables m2" "s2_disk st' = s2_disk st"
    using assms(1) l ok f(1) by (auto simp: stage2_handoff_def Let_def)
  let ?M = "build_page_tables m2"
  have fr: "?M x = m2 x" if "0x58000 \<le> unat x" for x using that by (intro build_page_tables_frame) simp
  have len: "length (cmdline_of config) \<le> 128"
    using assms(2) by (cases config) (auto simp: cmdline_of_def holds_def config_wf_def intro: less_imp_le)
  have "vbe_framebuffer ?M = vbe_framebuffer m1" by (rule vbe_frame) (simp add: fr f(5))
  then have "final_boot_info env s config m1 rsdp smbios = final_boot_info env s config ?M rsdp smbios"
    by (simp add: final_boot_info_base base_boot_info_def)
  moreover have "scanned_memory mr ?M" "scanned_memory ms ?M"
    using build_page_tables_frame [of _ m2] f(5,8) by (auto simp: scanned_memory_def)
  moreover have "boot_info_at ?M = boot_info_at m2"
    using mem_bytes_keep [of BOOTINFO_ADDR 224 ?M m2] fr by (simp add: boot_info_at_def BOOTINFO_ADDR_def)
  moreover have "mem_bytes ?M 0x5B000 19 = ascii ''JoshBootloader BIOS''"
    using mem_bytes_keep [of LOADER_NAME_ADDR 19 ?M m2] fr f(3) by (simp add: LOADER_NAME_ADDR_def loader_name_def)
  moreover have "mem_bytes ?M 0x5C000 (length (cmdline_of config)) = cmdline_of config"
    using mem_bytes_keep [of CMDLINE_ADDR "length (cmdline_of config)" ?M m2] fr f(4) len by (simp add: CMDLINE_ADDR_def)
  moreover have "x86_translate (phys_read64 ?M) (ucast PML4_ADDR) entry = Some (ucast KERNEL_PHYS_BASE + (entry - KERNEL_VIRT_BASE))"
    unfolding e(1) by (rule window_translate [OF entry_in_window [OF v]])
  moreover have "kernel_mapped (staged_image image_bytes ?m) ?M" if fits: "virtual_max s - KERNEL_VIRT_BASE \<le> 0xE00000"
  proof -
    note p = load_elf_validated [OF v(1,2) fits assms(3)]
    have "m1 = place_all (staged_image image_bytes ?m)
        (elf_segments (staged_image image_bytes ?m) (elf64_header_of_bytes (staged_image image_bytes ?m))) ?m"
      using p(1) l by simp
    then show ?thesis using f(5) by (intro kernel_mapped_placed [OF p(2-4) refl]) simp
  qed
  ultimately show ?thesis unfolding handoff_ok_def e(2,3) using v(1) e(1) f(2,6,7) by metis
qed

lemma serial_init_fields [simp]: "s2_mem (serial_init st) = s2_mem st" "s2_disk (serial_init st) = s2_disk st"
  by (simp_all add: serial_init_def out8_def)

text \<open>
  C1. What the kernel finds when the loader enters long mode. The processor supports it; the entry
  point is the one of a validated image, taken from the staging area or loaded from disk, and is
  mapped; the boot information decodes to the promised structure (magic, sizes, memory map,
  framebuffer of the video mode, the kernel's own virtual and physical range, the firmware tables the
  two searches found) with the command line of the configuration and the loader's name at the
  addresses it gives; and, when the kernel ends below the staging area, every byte of every segment
  is visible at its linked virtual address.
\<close>
theorem stage2_boots_kernel:
  assumes "stage2_pm_main fw c env c0 st = Some (EnterLongMode entry, st')"
  shows "cpu_has_long_mode c
     \<and> (\<exists>image_bytes config st1. kernel_source fw c0 st image_bytes config st1
          \<and> handoff_ok env image_bytes config (s2_mem st1) entry (s2_mem st') \<and> s2_disk st' = s2_disk st1)"
proof -
  let ?st1 = "serial_write ''JOSHBOOT_CPU_LONG_MODE_OK\<newline>'' (serial_init st)"
  have lm: "cpu_has_long_mode c" using assms by (cases "cpu_has_long_mode c") (simp_all add: stage2_pm_main_def Let_def)
  have usable: "filesystem_boot env = 0 \<or> staging_range_is_usable env (s2_mem st)"
    using assms lm by (auto simp: stage2_pm_main_def Let_def split: if_split_asm)
  show ?thesis
  proof (cases "is_elf (s2_mem st)")
    case True
    then have "stage2_handoff env KERNEL_IMAGE_BYTES None ?st1 = Some (EnterLongMode entry, st')"
      using assms lm usable by (auto simp: stage2_pm_main_def Let_def split: if_split_asm)
    from stage2_handoff_ok [OF this] True lm show ?thesis
      by (fastforce simp: kernel_source_def)
  next
    case False
    let ?st0 = "serial_write ''JOSHBOOT_FS_LOAD_BEGIN\<newline>'' ?st1"
    from False assms lm usable obtain image_bytes config st1 where
      l: "load_kernel_file fw (Some KERNEL_IMAGE_BYTES) (Some c0) ?st0 = Some (True, image_bytes, config, st1)"
      "stage2_handoff env (the image_bytes) config st1 = Some (EnterLongMode entry, st')"
      by (auto simp: stage2_pm_main_def Let_def split: if_split_asm option.splits)
    obtain b cfg where b: "image_bytes = Some b" "b \<le> KERNEL_IMAGE_BYTES" "config = Some cfg" "config_wf cfg"
      using l(1) by (rule load_kernel_file_success)
    have "kernel_source fw c0 st b config st1"
      unfolding kernel_source_def using l(1) b(1) by (intro disjI2 exI [of _ ?st0]) simp
    moreover have "handoff_ok env b config (s2_mem st1) entry (s2_mem st') \<and> s2_disk st' = s2_disk st1"
      using l(2) b by (intro stage2_handoff_ok) auto
    ultimately show ?thesis using lm by blast
  qed
qed

section \<open>The wait for the serial port\<close>

text \<open>
  \<open>serial_write\<close> with its wait: the bytes of the message, each after the transmitter has become
  ready. A run of the loader on a serial port is a run of \<open>stage2_pm_main\<close> that sends its register
  settings and then, message by message, what it has to say; it does not return when one of the waits
  does not. The port has no other influence on the loader, which never reads anything from it but the
  ready bit.
\<close>

definition serial_send :: "string \<Rightarrow> uart \<Rightarrow> uart option" where
  "serial_send message u = send_bytes COM1 (ascii message) u"

fun send_messages :: "string list \<Rightarrow> uart \<Rightarrow> uart option" where
  "send_messages [] u = Some u"
| "send_messages (m # ms) u = Option.bind (serial_send m u) (send_messages ms)"

definition stage2_on_uart :: "'d bios \<Rightarrow> cpu \<Rightarrow> boot_env \<Rightarrow> josh_boot_config \<Rightarrow> 'd stage2 \<Rightarrow> uart
    \<Rightarrow> (stage2_outcome \<times> 'd stage2 \<times> uart) option" where
  "stage2_on_uart fw c env boot_config st u =
     (case stage2_pm_main fw c env boot_config st of
        None \<Rightarrow> None
      | Some (outcome, st') \<Rightarrow>
          map_option (\<lambda>u'. (outcome, st', u'))
            (send_messages (drop (length (s2_serial st)) (s2_serial st'))
               (fold (\<lambda>(port, value). port_write port value) (drop (length (s2_uart st)) (s2_uart st')) u)))"

text \<open>What a function of the loader has said: more messages, and no further register settings.\<close>

definition says :: "'d stage2 \<Rightarrow> 'd stage2 \<Rightarrow> bool" where
  "says st st' \<longleftrightarrow> (\<exists>ms. s2_serial st' = s2_serial st @ ms) \<and> s2_uart st' = s2_uart st"

lemma says_refl [simp]: "says st st"
  by (simp add: says_def)

lemma says_trans: "says st st1 \<Longrightarrow> says st1 st2 \<Longrightarrow> says st st2"
  by (auto simp: says_def)

lemma says_serial [simp]: "says st st' \<Longrightarrow> says st (serial_write m st')"
  by (auto simp: says_def serial_write_def)

lemma says_after: "says (serial_write m st) st' \<Longrightarrow> says st st'"
  by (auto simp: says_def serial_write_def)

lemma says_fields [simp]:
  "says st (st'\<lparr> s2_mem := x \<rparr>) = says st st'" "says st (st'\<lparr> s2_disk := d \<rparr>) = says st st'"
  "says st (st'\<lparr> health_persistent_enabled := b \<rparr>) = says st st'"
  by (simp_all add: says_def)

lemma says_health:
  "says st (write_slot_marker slot st)" "says st (snd (health_persist fw r st))" "says st (snd (snd (health_load fw st)))"
  by (auto simp: write_slot_marker_def health_persist_def health_load_def Let_def split: prod.split bool.split)

lemma says_read_kernel_candidate:
  "read_kernel_candidate fw fs p st = Some (r, st') \<Longrightarrow> says st st'"
  by (auto simp: read_kernel_candidate_def Let_def split: option.split_asm sum.split_asm if_split_asm)

lemma says_candidate_loop:
  "candidate_loop fw fs config n health slot st = Some (r, st') \<Longrightarrow> says st st'"
proof (induction n arbitrary: health slot st)
  case (Suc n)
  obtain r0 st1 where c: "read_kernel_candidate fw fs (Some (kernel_path_for_slot config slot)) (write_slot_marker slot st)
      = Some (r0, st1)"
    using Suc.prems by (auto split: option.split_asm)
  have st1: "says st st1" using says_health(1) says_read_kernel_candidate [OF c] by (rule says_trans)
  have next0: "says st st'"
    if "candidate_loop fw fs config n h s (serial_write m (snd (health_persist fw h st1))) = Some (r, st')" for h s m
    using says_trans [OF st1 says_trans [OF says_health(2) says_after [OF Suc.IH [OF that]]]] .
  show ?case
    using Suc.prems st1
    by (auto simp: c split: option.split_asm if_split_asm prod.split_asm dest!: next0)
qed simp

lemma says_load_kernel_slots:
  assumes "load_kernel_slots fw safe fs config st = Some (r, st')"
  shows "says st st'"
proof -
  define start where "start = (if \<not> safe
     then (True, the (josh_boot_health_default (Some zero_record)),
           serial_write ''JOSHBOOT_HEALTH_VOLATILE_LAYOUT\<newline>'' (st\<lparr> health_persistent_enabled := False \<rparr>))
     else health_load fw st)"
  obtain loaded health st1 where start: "start = (loaded, health, st1)" by (cases start)
  have "says st (snd (snd start))" by (simp add: start_def says_health)
  then have s1: "says st st1" by (simp add: start)
  have s2: "says st (snd (health_persist fw h st1))" for h using s1 says_health(2) by (rule says_trans)
  obtain h slot st3 where l: "loaded \<Longrightarrow> load_kernel_slots fw safe fs config st =
      (case candidate_loop fw fs config 3 h slot st3 of
         None \<Rightarrow> None
       | Some (Some bytes, st4) \<Rightarrow> Some (Some bytes, st4)
       | Some (None, st4) \<Rightarrow> Some (None, serial_write ''JOSHBOOT_ERROR_KERNEL_CANDIDATES\<newline>'' st4))" "says st st3"
    unfolding load_kernel_slots_def start_def [symmetric] start
    by (cases "josh_boot_health_prepare_attempt (Some health) JOSH_BOOT_HEALTH_MAX_ATTEMPTS")
      (auto simp: Let_def s1 s2 split: if_split_asm)
  show ?thesis
  proof (cases loaded)
    case True
    then obtain r4 st4 where loop: "candidate_loop fw fs config 3 h slot st3 = Some (r4, st4)"
      using assms l(1) by (cases "candidate_loop fw fs config 3 h slot st3") auto
    have "says st st4" by (rule says_trans [OF l(2) says_candidate_loop [OF loop]])
    then show ?thesis using assms l(1) True loop by (auto split: option.split_asm)
  next
    case False
    then show ?thesis
      using assms s1 unfolding load_kernel_slots_def start_def [symmetric] start by auto
  qed
qed

lemma says_load_kernel_file:
  assumes "load_kernel_file fw n config st = Some (ok, n', config', st')"
  shows "says st st'"
  using assms
  by (auto simp: load_kernel_file_def Let_def
    split: if_split_asm prod.split_asm option.split_asm sum.split_asm dest!: says_load_kernel_slots says_after)

text \<open>The loader sets up the port and always says something.\<close>

lemma says_stage2_handoff:
  "stage2_handoff env n config st = Some (outcome, st') \<Longrightarrow> says st st'"
  by (auto simp: stage2_handoff_def Let_def split: prod.split_asm if_split_asm option.split_asm)

lemma stage2_says:
  assumes "stage2_pm_main fw c env c0 st = Some (outcome, st')"
  obtains m ms where "m \<noteq> []" "s2_serial st' = s2_serial st @ m # ms" "s2_uart st' = s2_uart (serial_init st)"
proof -
  define m where "m = (if cpu_has_long_mode c then ''JOSHBOOT_CPU_LONG_MODE_OK\<newline>'' else ''JOSHBOOT_ERROR_CPU_LONG_MODE\<newline>'')"
  let ?st1 = "serial_write m (serial_init st)"
  have "says ?st1 st'"
  proof (cases "cpu_has_long_mode c")
    case False
    then show ?thesis using assms by (auto simp: m_def stage2_pm_main_def Let_def)
  next
    case True
    let ?load = "load_kernel_file fw (Some KERNEL_IMAGE_BYTES) (Some c0) (serial_write ''JOSHBOOT_FS_LOAD_BEGIN\<newline>'' ?st1)"
    have load: "says ?st1 st2" if "?load = Some (ok, n, config, st2)" for ok n config st2
      by (rule says_after [OF says_load_kernel_file [OF that]])
    show ?thesis
    proof (cases "is_elf (s2_mem st)")
      case elf: True
      then show ?thesis
        using assms True by (auto simp: m_def stage2_pm_main_def Let_def says_stage2_handoff split: if_split_asm)
    next
      case False
      then show ?thesis
        using assms True load
        by (auto simp: m_def stage2_pm_main_def Let_def split: if_split_asm option.split_asm
          intro: says_trans [OF _ says_stage2_handoff])
    qed
  qed
  moreover have "s2_serial (serial_init st) = s2_serial st" by (simp add: serial_init_def out8_def)
  ultimately obtain ms where "s2_serial st' = s2_serial st @ m # ms" "s2_uart st' = s2_uart (serial_init st)"
    by (auto simp: says_def serial_write_def)
  then show ?thesis using that [of m] by (auto simp: m_def)
qed

lemma send_messages_returns:
  assumes "uart_live u"
  shows "\<exists>u'. send_messages ms u = Some u' \<and> uart_live u'
     \<and> port_writes u' = port_writes u @ map (Pair COM1) (concat (map ascii ms))"
  using assms
proof (induction ms arbitrary: u)
  case (Cons m ms)
  from send_bytes_returns [OF Cons.prems, of COM1 "ascii m"]
  obtain u1 where u1: "serial_send m u = Some u1" "uart_live u1" "port_writes u1 = port_writes u @ map (Pair COM1) (ascii m)"
    unfolding serial_send_def by blast
  from Cons.IH [OF u1(2)] u1 show ?case by auto
qed simp

lemma port_write_fold:
  "line_status (fold (\<lambda>(p, v). port_write p v) ps u) = line_status u"
  "status_reads (fold (\<lambda>(p, v). port_write p v) ps u) = status_reads u"
  "port_writes (fold (\<lambda>(p, v). port_write p v) ps u) = port_writes u @ ps"
  by (induction ps arbitrary: u) (auto simp: port_write_def)

lemma stage2_returns: "\<exists>outcome st'. stage2_pm_main fw c env c0 st = Some (outcome, st')"
proof -
  have h: "\<exists>r. stage2_handoff env n config st1 = Some r" if "\<And>k. config = Some k \<Longrightarrow> config_wf k" for n config st1
  proof -
    obtain ok s m1 where l: "load_elf no_summary n (s2_mem st1) = (ok, s, m1)"
      by (cases "load_elf no_summary n (s2_mem st1)")
    have "\<And>k. config = Some k \<Longrightarrow> holds 128 command_line_valid (command_line k)"
      using that by (simp add: config_wf_def)
    then obtain m2 where "fill_boot_info env s config m1 = Some m2" by (rule fill_boot_info_result)
    with l show ?thesis by (simp add: stage2_handoff_def Let_def del: split_paired_Ex)
  qed
  obtain r where r: "load_kernel_file fw (Some KERNEL_IMAGE_BYTES) (Some c0)
      (serial_write ''JOSHBOOT_FS_LOAD_BEGIN\<newline>'' (serial_write ''JOSHBOOT_CPU_LONG_MODE_OK\<newline>'' (serial_init st))) = Some r"
    using load_kernel_file_returns by blast
  obtain ok n cfg st2 where rr: "r = (ok, n, cfg, st2)" by (cases r)
  have "ok \<Longrightarrow> \<exists>r. stage2_handoff env (the n) cfg st2 = Some r"
    using r unfolding rr by (cases ok) (auto elim!: load_kernel_file_success intro!: h simp del: split_paired_Ex)
  then have "\<exists>r. stage2_pm_main fw c env c0 st = Some r"
    using h [of None] r rr by (auto simp: stage2_pm_main_def Let_def simp del: split_paired_Ex)
  then show ?thesis by simp
qed

text \<open>
  C38. When the loader comes to an end. For every disk content, memory, processor and environment, and
  a BIOS whose disk calls return a value for each request: if the serial port becomes ready again and
  again, \<open>stage2_pm_main\<close> halts, returns to its caller or enters long mode, after a finite number of
  reads of the line status, and what has gone to the port is its set-up and then the messages, byte
  for byte. If the port never becomes ready, it does not come to an end.
\<close>
theorem stage2_total:
  "(uart_live u \<longrightarrow>
     (\<exists>outcome st' u' ms. stage2_on_uart fw c env c0 st u = Some (outcome, st', u')
        \<and> s2_serial st' = s2_serial st @ ms
        \<and> port_writes u' = port_writes u
            @ [(0x3F9, 0), (0x3FB, 0x80), (0x3F8, 1), (0x3F9, 0), (0x3FB, 3), (0x3FA, 0xC7), (0x3FC, 0x0B)]
            @ map (Pair 0x3F8) (concat (map ascii ms))))
   \<and> ((\<forall>k\<ge>status_reads u. line_status u k AND 0x20 = 0) \<longrightarrow> stage2_on_uart fw c env c0 st u = None)"
proof -
  obtain outcome st' where run: "stage2_pm_main fw c env c0 st = Some (outcome, st')" using stage2_returns by blast
  obtain m ms where said: "m \<noteq> []" "s2_serial st' = s2_serial st @ m # ms" "s2_uart st' = s2_uart (serial_init st)"
    using run by (rule stage2_says)
  let ?set = "[(0x3F9, 0), (0x3FB, 0x80), (0x3F8, 1), (0x3F9, 0), (0x3FB, 3), (0x3FA, 0xC7), (0x3FC, 0x0B)] :: (u16 \<times> u8) list"
  define u1 where "u1 = fold (\<lambda>(p, v). port_write p v) ?set u"
  have "drop (length (s2_uart st)) (s2_uart st') = ?set"
    by (simp add: said(3) serial_init_def out8_def COM1_def)
  then have eq: "stage2_on_uart fw c env c0 st u = map_option (\<lambda>u'. (outcome, st', u')) (send_messages (m # ms) u1)"
    unfolding stage2_on_uart_def run by (simp add: said(2) del: fold.simps send_messages.simps flip: u1_def)
  have u1: "line_status u1 = line_status u" "status_reads u1 = status_reads u" "port_writes u1 = port_writes u @ ?set"
    unfolding u1_def by (simp_all only: port_write_fold)
  have live: "\<exists>u'. send_messages (m # ms) u1 = Some u'
      \<and> port_writes u' = port_writes u1 @ map (Pair 0x3F8) (concat (map ascii (m # ms)))" if "uart_live u"
  proof -
    have "uart_live u1" using that unfolding uart_live_def u1 .
    from send_messages_returns [OF this, of "m # ms"] show ?thesis unfolding COM1_def by blast
  qed
  have stuck: "send_messages (m # ms) u1 = None" if "\<forall>k\<ge>status_reads u. line_status u k AND 0x20 = 0"
  proof -
    have "ascii m \<noteq> []" using said(1) by (cases m) simp_all
    then have "serial_send m u1 = None"
      unfolding serial_send_def using that u1(1,2) by (intro send_bytes_stuck) simp_all
    then show ?thesis by simp
  qed
  show ?thesis
  proof (intro conjI impI)
    assume "uart_live u"
    from live [OF this] obtain u' where "send_messages (m # ms) u1 = Some u'"
      "port_writes u' = port_writes u1 @ map (Pair 0x3F8) (concat (map ascii (m # ms)))" by blast
    then show "\<exists>outcome st' u' ms. stage2_on_uart fw c env c0 st u = Some (outcome, st', u')
        \<and> s2_serial st' = s2_serial st @ ms
        \<and> port_writes u' = port_writes u @ ?set @ map (Pair 0x3F8) (concat (map ascii ms))"
      unfolding eq using said(2) u1(3)
      by (intro exI [of _ outcome] exI [of _ st'] exI [of _ u'] exI [of _ "m # ms"]) simp
  next
    assume "\<forall>k\<ge>status_reads u. line_status u k AND 0x20 = 0"
    from stuck [OF this] show "stage2_on_uart fw c env c0 st u = None" unfolding eq by (simp only: option.map)
  qed
qed

end
