(* ===== verification/JB_BootDisk.thy ===== *)
theory JB_BootDisk
  imports JB_Stage2
begin

text \<open>
  A complete bootable disk, sector by sector, and a run of the BIOS loader on it: an MBR with one
  active FAT32 partition at sector 2048, the configuration at \<open>/boot/josh/boot.cfg\<close>, a kernel at
  \<open>/KERNEL.ELF\<close> and a health record in the sectors in front of the partition. The runs show that
  the hypotheses of the boot theorems can be met.
\<close>

section \<open>The disk\<close>

definition boot_mbr :: bytes where
  "boot_mbr = replicate 446 0 @ [0x80, 0, 0, 0, 0x0C, 0, 0, 0] @ le32_bytes 2048 @ le32_bytes 67000
     @ replicate 48 0 @ [0x55, 0xAA]"

definition boot_fat :: bytes where
  "boot_fat = le32_bytes 0x0FFFFFF8 @ le32_bytes 0x0FFFFFFF @ le32_bytes 0x0FFFFFFF
     @ le32_bytes 0x0FFFFFFF @ le32_bytes 0x0FFFFFFF @ le32_bytes 0x0FFFFFFF @ le32_bytes 0x0FFFFFFF
     @ replicate 484 0"

text \<open>A directory entry: short name, attributes, first cluster and size.\<close>

definition dir_entry :: "string \<Rightarrow> u8 \<Rightarrow> u16 \<Rightarrow> u32 \<Rightarrow> bytes" where
  "dir_entry name attr cluster size0 =
     ascii name @ [attr] @ replicate 8 0 @ le16_bytes 0 @ replicate 4 0 @ le16_bytes cluster @ le32_bytes size0"

definition boot_elf :: bytes where
  "boot_elf =
     [0x7F, 0x45, 0x4C, 0x46, 2, 1, 1, 0, 0, 0, 0, 0, 0, 0, 0, 0]
     @ le16_bytes 2 @ le16_bytes 62 @ le32_bytes 1 @ le64_bytes 0xFFFFFFFF80000000 @ le64_bytes 64
     @ le64_bytes 0 @ le32_bytes 0 @ le16_bytes 64 @ le16_bytes 56 @ le16_bytes 1 @ le16_bytes 0
     @ le16_bytes 0 @ le16_bytes 0
     @ le32_bytes 1 @ le32_bytes 5 @ le64_bytes 120 @ le64_bytes 0xFFFFFFFF80000000 @ le64_bytes 0x200000
     @ le64_bytes 4 @ le64_bytes 16 @ le64_bytes 1 @ [0xF4, 0xF4, 0xF4, 0xF4]"

definition boot_summary :: JoshElf64Summary where
  "boot_summary = \<lparr> sum_entry = 0xFFFFFFFF80000000, virtual_min = 0xFFFFFFFF80000000,
     virtual_max = 0xFFFFFFFF80000010, load_segment_count = 1 \<rparr>"

definition boot_cfg :: bytes where "boot_cfg = print_config sample_config"

definition boot_disk :: "u64 \<Rightarrow> bytes" where
  "boot_disk lba =
     (if lba = 0 then boot_mbr
      else if lba = JOSH_BOOT_HEALTH_LBA_A then health_sector default_record
      else if lba = 2048 then sample_boot
      else if lba = 2080 then boot_fat
      else if lba = 2592 then dir_entry ''BOOT       '' 0x10 3 0 @ dir_entry ''KERNEL  ELF'' 0x20 6 124 @ replicate 448 0
      else if lba = 2593 then dir_entry ''JOSH       '' 0x10 4 0 @ replicate 480 0
      else if lba = 2594 then dir_entry ''BOOT    CFG'' 0x20 5 (of_nat (length boot_cfg)) @ replicate 480 0
      else if lba = 2595 then boot_cfg @ replicate (512 - length boot_cfg) 0
      else if lba = 2596 then boot_elf @ replicate 388 0
      else replicate 512 0)"

abbreviation boot_fw :: "(u64 \<Rightarrow> bytes) bios" where "boot_fw \<equiv> sector_bios 70000"
abbreviation boot_dev :: josh_block_device where "boot_dev \<equiv> bios_device boot_fw boot_disk"

lemma length_dir_entry: "length name = 11 \<Longrightarrow> length (dir_entry name a c s) = 32"
  by (simp add: dir_entry_def)

lemma boot_cfg_length: "length boot_cfg \<le> 512" "0 < length boot_cfg"
  by (simp_all add: boot_cfg_def print_config_def config_lines_def config_line_def sample_config_def
    decimal_digits.simps cstr_def optional_line_def flags_text_def)

lemma boot_disk_length: "length (boot_disk lba) = 512"
proof -
  have "length boot_mbr = 512" "length boot_fat = 512" "length sample_boot = 512" "length boot_elf = 124"
    by (simp_all add: boot_mbr_def boot_fat_def sample_boot_def boot_elf_def)
  then show ?thesis using boot_cfg_length by (simp add: boot_disk_def length_dir_entry)
qed

lemma read_sector_sector_bios:
  assumes "length (f lba) = 512" "unat lba < N" "N \<le> 2 ^ 32"
  shows "read_sector (bios_device (sector_bios N) f) lba = Some (f lba)"
proof -
  have "bounce_chunk 1 = 1" by (simp add: bounce_chunk_def BIOS_BOUNCE_SECTORS_def word_less_nat_alt)
  moreover have "map (\<lambda>i. f lba ! i) [0..<512] = f lba" using assms(1) by (metis map_nth)
  ultimately have "bounced_loop (sector_bios N) f lba 1 [] = Some (f lba)"
    using assms(2) by (simp add: bounced_step sector_bios_def disk_bytes_def)
  moreover have "lba < BIOS_DEVICE_SECTORS" using assms(2,3) by (simp add: word_less_nat_alt BIOS_DEVICE_SECTORS_def)
  moreover then have "(1 :: u64) \<le> BIOS_DEVICE_SECTORS - lba"
    by (simp add: word_le_nat_alt word_less_nat_alt unat_diff_le less_imp_le Suc_le_eq)
  ultimately show ?thesis
    by (simp add: read_sector_def josh_block_read_def bios_device_def bios_block_read_bounced_def not_less not_le)
qed

lemma boot_dev_read: "unat lba < 70000 \<Longrightarrow> read_sector boot_dev lba = Some (boot_disk lba)"
  by (rule read_sector_sector_bios) (simp_all add: boot_disk_length)

section \<open>Partition and file system\<close>

lemma boot_mbr_fields:
  "boot_mbr ! 510 = 0x55" "boot_mbr ! 511 = 0xAA" "mbr_entry boot_mbr 0 ! 0 = 0x80" "mbr_entry boot_mbr 0 ! 4 = 0x0C"
  "mbr_first (mbr_entry boot_mbr 0) = 2048" "mbr_count (mbr_entry boot_mbr 0) = 67000"
  "mbr_entry boot_mbr (Suc 0) ! 0 = 0" "mbr_entry boot_mbr (Suc 0) ! 4 = 0"
  "mbr_entry boot_mbr 2 ! 0 = 0" "mbr_entry boot_mbr 2 ! 4 = 0"
  "mbr_entry boot_mbr 3 ! 0 = 0" "mbr_entry boot_mbr 3 ! 4 = 0"
  by (simp_all add: boot_mbr_def mbr_entry_def mbr_first_def mbr_count_def nth_append read_le32_le32_bytes)

lemma boot_mbr_entries_ok: "i < 4 \<Longrightarrow> mbr_entry_ok boot_dev (mbr_entry boot_mbr i)"
  by (drule less_4_cases, elim disjE)
    (simp_all add: mbr_entry_ok_def mbr_in_use_def range_valid_def boot_mbr_fields)

definition boot_partition :: josh_partition where
  "boot_partition = mbr_partition (mbr_entry boot_mbr 0)"

lemma boot_find: "josh_partition_find_boot (Some boot_dev) True = Inr boot_partition"
proof -
  have "read_sector boot_dev 0 = Some boot_mbr" using boot_dev_read [of 0] by (simp add: boot_disk_def)
  moreover have "dev_read boot_dev \<noteq> None" by (simp add: bios_device_def)
  ultimately show ?thesis
    using mbr_scan_choice [of 0 4 boot_dev boot_mbr None] boot_mbr_entries_ok
    by (simp add: josh_partition_find_boot_def boot_mbr_fields upt_0_4 mbr_in_use_def boot_partition_def)
qed

abbreviation boot_fs :: josh_fat32 where "boot_fs \<equiv> on_device sample_fs boot_dev"

lemma boot_mount: "josh_fat32_mount (Some boot_dev) (Some boot_partition) True = Inr boot_fs"
proof -
  have f: "sample_boot ! 510 = 0x55" "sample_boot ! 511 = 0xAA" "sample_boot ! 13 = 1" "sample_boot ! 16 = 1"
    "read_le16 (drop 11 sample_boot) = 512" "read_le16 (drop 14 sample_boot) = 32"
    "read_le16 (drop 17 sample_boot) = 0" "read_le16 (drop 19 sample_boot) = 0"
    "read_le16 (drop 22 sample_boot) = 0" "read_le32 (drop 32 sample_boot) = 66069"
    "read_le32 (drop 36 sample_boot) = 512" "read_le32 (drop 44 sample_boot) = 2"
    by (simp_all add: sample_boot_def nth_append read_le16_le16_bytes read_le32_le32_bytes)
  have p: "first_lba boot_partition = 2048" "sector_count boot_partition = 67000"
    using boot_mbr_fields by (simp_all add: boot_partition_def mbr_partition_def mbr_first_def mbr_count_def)
  have "read_sector boot_dev 2048 = Some sample_boot"
    using boot_dev_read [of 2048] by (simp add: boot_disk_def health_lba_defs)
  then show ?thesis
    by (simp add: josh_fat32_mount_def p f Let_def power_of_two_u8_def sample_fs_def on_device_def
      FAT32_MIN_CLUSTERS_def)
qed

lemma boot_fs_inv: "fat32_inv boot_fs" "device_fills_sectors (fs_device boot_fs)"
  using mount_inv [OF boot_mount] by simp_all

lemma boot_unallocated: "josh_partition_range_is_unallocated (Some boot_dev) JOSH_BOOT_HEALTH_LBA_A 2"
proof -
  have "mbr_entry_clear boot_dev 1984 2 (mbr_entry boot_mbr j)" if "j < 4" for j
    using less_4_cases [OF that] boot_mbr_entries_ok [OF that]
    by (elim disjE) (simp_all add: mbr_entry_clear_def mbr_in_use_def ranges_overlap_def boot_mbr_fields)
  moreover have "read_sector boot_dev 0 = Some boot_mbr" using boot_dev_read [of 0] by (simp add: boot_disk_def)
  moreover have "dev_read boot_dev \<noteq> None" by (simp add: bios_device_def)
  ultimately show ?thesis
    by (simp add: josh_partition_range_is_unallocated_def boot_mbr_fields range_valid_def
        ranges_overlap_def unallocated_scan_iff JOSH_BOOT_HEALTH_LBA_A_def)
qed

section \<open>Files\<close>

lemma boot_fat_sector: "read_sector boot_dev 2080 = Some boot_fat"
  using boot_dev_read [of 2080] by (simp add: boot_disk_def health_lba_defs)

lemma boot_clusters:
  assumes "c \<in> {2, 3, 4, 5, 6}"
  shows "cluster_data boot_fs c = Some (boot_disk (2590 + ucast c))" "next_cluster boot_fs c = Inr 0x0FFFFFFF"
proof -
  have v: "cluster_valid sample_fs c" using assms by (auto simp: cluster_valid_def)
  show "cluster_data boot_fs c = Some (boot_disk (2590 + ucast c))"
    using assms v boot_dev_read by (auto simp: cluster_data_def cluster_lba_def)
  show "next_cluster boot_fs c = Inr 0x0FFFFFFF"
    using assms v boot_fat_sector
    by (auto simp: next_cluster_def Let_def fat32_constants boot_fat_def read_le32_le32_bytes)
qed

lemma boot_chain:
  assumes "c \<in> {2, 3, 4, 5, 6}"
  shows "chain_data boot_fs 1 c = Some (boot_disk (2590 + ucast c))" "chain_ends boot_fs 1 c"
  using boot_clusters [OF assms] by (simp_all add: FAT32_EOC_MIN_def)

lemma boot_lookup:
  assumes "c \<in> {2, 3, 4, 5, 6}" "length name = 11"
  shows "find_in_directory boot_fs c name = Some (dir_lookup name (dir_entries 16 (boot_disk (2590 + ucast c))))"
  using find_loop_dir_scan [OF boot_fs_inv assms(2) boot_chain [OF assms(1)], of 0] assms(1)
  by (simp add: find_in_directory_def)

lemma dir_entry_fields:
  assumes "length name = 11"
  shows "dir_entry name a c s ! 11 = a" "take 11 (dir_entry name a c s) = ascii name"
    "dir_entry name a c s ! 0 = ascii name ! 0"
    "entry_file (dir_entry name a c s) = \<lparr> first_cluster = ucast c, file_size = s, attributes = a \<rparr>"
  using assms
  by (simp_all add: dir_entry_def nth_append entry_file_def read_le16_le16_bytes read_le_bytes)

lemma dir_scan_entry:
  assumes "length e = 32"
  shows "dir_scan name (dir_entries (numeral v) (e @ rest)) =
    (if e ! 0 = 0 then Some (Inl JOSH_FAT32_NOT_FOUND)
     else if dir_match name e
     then Some (if first_cluster (entry_file e) < 2 \<and> file_size (entry_file e) \<noteq> 0
                then Inl JOSH_FAT32_CORRUPT else Inr (entry_file e))
     else dir_scan name (dir_entries (pred_numeral v) rest))"
  using assms by (simp add: numeral_eq_Suc)

lemma boot_sectors:
  "boot_disk 2592 = dir_entry ''BOOT       '' 0x10 3 0 @ dir_entry ''KERNEL  ELF'' 0x20 6 124 @ replicate 448 0"
  "boot_disk 2593 = dir_entry ''JOSH       '' 0x10 4 0 @ replicate 480 0"
  "boot_disk 2594 = dir_entry ''BOOT    CFG'' 0x20 5 (of_nat (length boot_cfg)) @ replicate 480 0"
  "boot_disk 2595 = boot_cfg @ replicate (512 - length boot_cfg) 0"
  "boot_disk 2596 = boot_elf @ replicate 388 0"
  by (simp_all add: boot_disk_def health_lba_defs)

lemma boot_lookups:
  "find_in_directory boot_fs 2 (ascii ''BOOT       '') = Some (Inr \<lparr> first_cluster = 3, file_size = 0, attributes = 0x10 \<rparr>)"
  "find_in_directory boot_fs 2 (ascii ''KERNEL  ELF'') = Some (Inr \<lparr> first_cluster = 6, file_size = 124, attributes = 0x20 \<rparr>)"
  "find_in_directory boot_fs 3 (ascii ''JOSH       '') = Some (Inr \<lparr> first_cluster = 4, file_size = 0, attributes = 0x10 \<rparr>)"
  "find_in_directory boot_fs 4 (ascii ''BOOT    CFG'')
     = Some (Inr \<lparr> first_cluster = 5, file_size = of_nat (length boot_cfg), attributes = 0x20 \<rparr>)"
proof -
  note scan = boot_lookup boot_sectors dir_scan_lookup dir_scan_entry dir_match_def dir_entry_fields length_dir_entry
    fat32_constants
  show "find_in_directory boot_fs 2 (ascii ''BOOT       '') = Some (Inr \<lparr> first_cluster = 3, file_size = 0, attributes = 0x10 \<rparr>)"
    "find_in_directory boot_fs 2 (ascii ''KERNEL  ELF'') = Some (Inr \<lparr> first_cluster = 6, file_size = 124, attributes = 0x20 \<rparr>)"
    "find_in_directory boot_fs 3 (ascii ''JOSH       '') = Some (Inr \<lparr> first_cluster = 4, file_size = 0, attributes = 0x10 \<rparr>)"
    "find_in_directory boot_fs 4 (ascii ''BOOT    CFG'')
       = Some (Inr \<lparr> first_cluster = 5, file_size = of_nat (length boot_cfg), attributes = 0x20 \<rparr>)"
    by (simp_all add: scan del: dir_entries.simps)
qed

lemma short_names:
  "short_name_from_segment (Some (ascii ''boot/josh/boot.cfg'')) 4 = Inr (ascii ''BOOT       '')"
  "short_name_from_segment (Some (ascii ''josh/boot.cfg'')) 4 = Inr (ascii ''JOSH       '')"
  "short_name_from_segment (Some (ascii ''boot.cfg'')) 8 = Inr (ascii ''BOOT    CFG'')"
  "short_name_from_segment (Some (ascii ''KERNEL.ELF'')) 10 = Inr (ascii ''KERNEL  ELF'')"
proof -
  have "replicate 11 (32 :: u8) = [32, 32, 32, 32, 32, 32, 32, 32, 32, 32, 32]" by (simp add: eval_nat_numeral)
  then show "short_name_from_segment (Some (ascii ''boot/josh/boot.cfg'')) 4 = Inr (ascii ''BOOT       '')"
    "short_name_from_segment (Some (ascii ''josh/boot.cfg'')) 4 = Inr (ascii ''JOSH       '')"
    "short_name_from_segment (Some (ascii ''boot.cfg'')) 8 = Inr (ascii ''BOOT    CFG'')"
    "short_name_from_segment (Some (ascii ''KERNEL.ELF'')) 10 = Inr (ascii ''KERNEL  ELF'')"
    by (simp_all add: short_name_from_segment_def ascii_upper_def Let_def short_name_punctuation_allowed_def)
qed

lemma boot_paths:
  "skip_slashes (ascii ''/boot/josh/boot.cfg'') = ascii ''boot/josh/boot.cfg''"
  "skip_slashes (ascii ''/KERNEL.ELF'') = ascii ''KERNEL.ELF''"
  "length (path_segment (ascii ''boot/josh/boot.cfg'')) = 4" "path_rest (ascii ''boot/josh/boot.cfg'') = ascii ''josh/boot.cfg''"
  "length (path_segment (ascii ''josh/boot.cfg'')) = 4" "path_rest (ascii ''josh/boot.cfg'') = ascii ''boot.cfg''"
  "length (path_segment (ascii ''boot.cfg'')) = 8" "path_rest (ascii ''boot.cfg'') = []"
  "length (path_segment (ascii ''KERNEL.ELF'')) = 10" "path_rest (ascii ''KERNEL.ELF'') = []"
  by (simp_all add: skip_slashes_def path_segment_def path_rest_def)

lemma boot_open:
  "josh_fat32_open_path (Some boot_fs) (Some CONFIG_PATH) True
     = Some (Inr \<lparr> first_cluster = 5, file_size = of_nat (length boot_cfg), attributes = 0x20 \<rparr>)"
  "josh_fat32_open_path (Some boot_fs) (Some (ascii ''/KERNEL.ELF'')) True
     = Some (Inr \<lparr> first_cluster = 6, file_size = 124, attributes = 0x20 \<rparr>)"
proof -
  have v: "cluster_valid sample_fs 3" "cluster_valid sample_fs 4" by (simp_all add: cluster_valid_def)
  have ne: "ascii ''boot/josh/boot.cfg'' \<noteq> []" "ascii ''josh/boot.cfg'' \<noteq> []" "ascii ''boot.cfg'' \<noteq> []"
    "ascii ''KERNEL.ELF'' \<noteq> []" by simp_all
  show "josh_fat32_open_path (Some boot_fs) (Some CONFIG_PATH) True
     = Some (Inr \<lparr> first_cluster = 5, file_size = of_nat (length boot_cfg), attributes = 0x20 \<rparr>)"
    by (simp add: josh_fat32_open_path_def CONFIG_PATH_def boot_paths ne open_loop.simps short_names boot_lookups v
      FAT_ATTR_DIRECTORY_def del: ascii_Cons)
  show "josh_fat32_open_path (Some boot_fs) (Some (ascii ''/KERNEL.ELF'')) True
     = Some (Inr \<lparr> first_cluster = 6, file_size = 124, attributes = 0x20 \<rparr>)"
    by (simp add: josh_fat32_open_path_def boot_paths ne open_loop.simps short_names boot_lookups
      del: ascii_Cons)
qed

lemma boot_read:
  "josh_fat32_read_file (Some boot_fs) (Some \<lparr> first_cluster = 5, file_size = of_nat (length boot_cfg), attributes = 0x20 \<rparr>)
     0 True (of_nat (length boot_cfg)) = Some (JOSH_FAT32_OK, boot_cfg, of_nat (length boot_cfg))"
  "josh_fat32_read_file (Some boot_fs) (Some \<lparr> first_cluster = 6, file_size = 124, attributes = 0x20 \<rparr>)
     0 True 124 = Some (JOSH_FAT32_OK, boot_elf, 124)"
proof -
  have len: "unat (of_nat (length boot_cfg) :: u32) = length boot_cfg"
    using boot_cfg_length by (simp add: unat_of_nat take_bit_nat_eq_self)
  have elf: "length boot_elf = 124" by (simp add: boot_elf_def)
  show "josh_fat32_read_file (Some boot_fs) (Some \<lparr> first_cluster = 5, file_size = of_nat (length boot_cfg), attributes = 0x20 \<rparr>)
     0 True (of_nat (length boot_cfg)) = Some (JOSH_FAT32_OK, boot_cfg, of_nat (length boot_cfg))"
    by (subst read_file_slice [OF boot_fs_inv, where n = 1 and content = "boot_disk 2595"])
      (use boot_chain(1) [of 5] len in \<open>simp_all add: FAT_ATTR_DIRECTORY_def boot_disk_length boot_cfg_length
        boot_sectors del: chain_data.simps\<close>)
  show "josh_fat32_read_file (Some boot_fs) (Some \<lparr> first_cluster = 6, file_size = 124, attributes = 0x20 \<rparr>)
     0 True 124 = Some (JOSH_FAT32_OK, boot_elf, 124)"
    by (subst read_file_slice [OF boot_fs_inv, where n = 1 and content = "boot_disk 2596"])
      (use boot_chain(1) [of 6] elf in \<open>simp_all add: FAT_ATTR_DIRECTORY_def boot_disk_length boot_sectors
        del: chain_data.simps\<close>)
qed

section \<open>The kernel\<close>

lemma boot_elf_header:
  "elf64_header_of_bytes boot_elf =
     \<lparr> eh_ident = [0x7F, 0x45, 0x4C, 0x46, 2, 1, 1, 0, 0, 0, 0, 0, 0, 0, 0, 0], eh_type = 2,
       eh_machine = 62, eh_version = 1, eh_entry = 0xFFFFFFFF80000000, eh_phoff = 64, eh_shoff = 0,
       eh_flags = 0, eh_ehsize = 64, eh_phentsize = 56, eh_phnum = 1, eh_shentsize = 0, eh_shnum = 0,
       eh_shstrndx = 0 \<rparr>"
  by (simp add: elf64_header_of_bytes_def boot_elf_def read_le16_le16_bytes read_le32_le32_bytes
      read_le64_le64_bytes)

lemma boot_elf_phdr:
  "program_header boot_elf (elf64_header_of_bytes boot_elf) 0 =
     \<lparr> p_type = 1, p_flags = 5, p_offset = 120, p_vaddr = 0xFFFFFFFF80000000, p_paddr = 0x200000,
       p_filesz = 4, p_memsz = 16, p_align = 1 \<rparr>"
  by (simp add: program_header_def boot_elf_header)
    (simp add: elf64_phdr_of_bytes_def boot_elf_def read_le32_le32_bytes read_le64_le64_bytes)

lemma boot_elf_validates:
  "josh_elf64_validate (Some boot_elf) 124 (Some s0) = (JOSH_ELF64_OK, Some boot_summary)"
proof -
  have "header_if_basic_valid (Some boot_elf) 124 JOSH_ELF64_OK =
      (JOSH_ELF64_OK, Some (elf64_header_of_bytes boot_elf))"
    by (simp add: header_if_basic_valid_def Let_def boot_elf_header elf_constants range_inside_def
        add_overflows_def)
  moreover have "validate_load_segment (program_header boot_elf (elf64_header_of_bytes boot_elf) 0) 124
      = JOSH_ELF64_OK"
    by (simp add: validate_load_segment_def boot_elf_phdr range_inside_def add_overflows_def)
  moreover have "eh_phnum (elf64_header_of_bytes boot_elf) = 1"
    "eh_entry (elf64_header_of_bytes boot_elf) = 0xFFFFFFFF80000000" by (simp_all add: boot_elf_header)
  ultimately show ?thesis
    by (simp add: josh_elf64_validate_def Let_def boot_elf_phdr elf_constants boot_summary_def)
qed

section \<open>The run\<close>

lemma boot_config: "load_boot_config boot_fs (Some c0) = Some (None, Some sample_config)"
proof -
  have "unat (of_nat (length boot_cfg) :: u32) = length boot_cfg"
    using boot_cfg_length by (simp add: unat_of_nat take_bit_nat_eq_self)
  then show ?thesis
    using boot_cfg_length config_round_trip [OF sample_config_wf, of c0]
    by (simp add: load_boot_config_def boot_open boot_read JOSH_BOOT_CONFIG_MAX_BYTES_def boot_cfg_def [symmetric]
      flip: unat_eq_zero)
qed

lemma boot_kernel_file: "kernel_file boot_fw sample_fs boot_disk (kernel_path sample_config) = Some boot_elf"
proof -
  have "cstr (kernel_path sample_config) = ascii ''/KERNEL.ELF''" "kernel_path sample_config ! 0 \<noteq> 0"
    by (simp_all add: sample_config_def cstr_def)
  moreover have "\<not> KERNEL_IMAGE_BYTES < 124" by (simp add: KERNEL_IMAGE_BYTES_def word_less_nat_alt)
  ultimately show ?thesis
    using boot_elf_validates [of no_summary] by (simp add: kernel_file_def boot_open boot_read del: ascii_Cons)
qed

lemma sector_bios_in_place: "bios_writes_in_place (sector_bios N)"
  by (auto simp: bios_writes_in_place_def sector_bios_def disk_bytes_def split: if_split_asm)

lemma boot_record_default: "hs_record (bios_sector boot_fw) boot_disk = default_record"
proof -
  have "bios_sector boot_fw boot_disk JOSH_BOOT_HEALTH_LBA_A = Some (health_sector default_record)"
    "bios_sector boot_fw boot_disk JOSH_BOOT_HEALTH_LBA_B = Some (replicate 512 0)"
    using sector_bios_sector [of boot_disk _ 70000] boot_disk_length
    by (simp_all add: health_lba_defs) (simp_all add: boot_disk_def health_lba_defs)
  then show ?thesis by (simp add: hs_record_def hs_load_def hs_copy_def)
qed

lemma boot_outcome_run: "boot_outcome boot_fw boot_disk c0 = Some boot_elf"
proof -
  have "pending_good default_record = 0" "selected_slot default_record = JOSH_BOOT_SLOT_CURRENT"
    by (simp_all add: default_record_def)
  then have "boot_slot boot_fw (health_layout_ok boot_fw boot_disk) boot_disk = JOSH_BOOT_SLOT_CURRENT"
    by (simp add: boot_slot_def boot_record_def boot_record_default josh_boot_health_prepare_attempt_def)
  moreover have "kernel_path_for_slot sample_config JOSH_BOOT_SLOT_CURRENT = kernel_path sample_config"
    by (simp add: kernel_path_for_slot_def)
  moreover have "kernel_file boot_fw boot_fs boot_disk p = kernel_file boot_fw sample_fs boot_disk p" for p
    unfolding kernel_file_def on_device_on_device ..
  ultimately show ?thesis
    by (simp add: boot_outcome_def boot_find boot_mount boot_config fallback_chain_def boot_kernel_file)
qed

theorem load_kernel_file_first_witness:
  "\<exists>config' st'. load_kernel_file boot_fw (Some 0) (Some zero_config) (boot_from boot_disk)
      = Some (True, Some 124, config', st')
    \<and> mem_bytes (s2_mem st') KERNEL_IMAGE_ADDR 124 = boot_elf"
proof -
  have "length boot_elf = 124" by (simp add: boot_elf_def)
  then show ?thesis
    using load_kernel_file_first [OF sector_bios_in_place, of 70000 0 zero_config "boot_from boot_disk"]
      boot_outcome_run [of zero_config] by auto
qed

theorem boot_writes_only_health_witness:
  "\<exists>st'. (\<exists>r. load_kernel_file boot_fw (Some 0) (Some zero_config) (boot_from boot_disk) = Some r \<and> snd (snd (snd r)) = st')
    \<and> read_sector (bios_device boot_fw (s2_disk st')) 2048 = read_sector boot_dev 2048"
proof -
  have "\<exists>r. load_kernel_file boot_fw (Some 0) (Some zero_config) (boot_from boot_disk) = Some r"
    by (rule load_kernel_file_returns)
  then obtain r where r: "load_kernel_file boot_fw (Some 0) (Some zero_config) (boot_from boot_disk) = Some r" ..
  obtain ok n c st' where "r = (ok, n, c, st')" by (cases r)
  with r boot_writes_only_health [OF sector_bios_in_place, of 70000 "Some 0" "Some zero_config" "boot_from boot_disk" ok n c st']
  show ?thesis by (auto simp: health_lba_defs)
qed

section \<open>From power-on to the kernel\<close>

text \<open>A processor with long mode, one usable memory range, and a boot from the file system.\<close>

definition boot_cpu :: cpu where
  "boot_cpu = \<lparr> eflags = 2, popfl = (\<lambda>v. v),
     cpuid_instruction = (\<lambda>leaf sub. if leaf = 1 then (0, 0, 0, 0x40)
        else if leaf = 0x80000000 then (0x80000008, 0, 0, 0) else (0, 0, 0, 0x20000000)) \<rparr>"

definition boot_mode :: boot_env where
  "boot_mode = \<lparr> e820_count = 1, boot_drive = 0x80, filesystem_boot = 1 \<rparr>"

definition boot_ram :: "32 memory" where
  "boot_ram = mem_store (\<lambda>_. 0) MEMORY_MAP_ADDR
     (memory_map_entry_bytes \<lparr> mm_base = 0x100000, mm_length = 0x7F00000, mm_type = 1, mm_flags = 0 \<rparr>)"

definition boot_machine :: "(u64 \<Rightarrow> bytes) stage2" where
  "boot_machine = (boot_from boot_disk)\<lparr> s2_mem := boot_ram \<rparr>"

definition staged_ram :: "32 memory" where
  "staged_ram = mem_store (\<lambda>_. 0) KERNEL_IMAGE_ADDR boot_elf"

lemma boot_elf_length: "length boot_elf = 124"
  by (simp add: boot_elf_def)

lemma staged_ram_image: "staged_image 124 staged_ram = boot_elf"
  using mem_bytes_store [of boot_elf "\<lambda>_. 0" KERNEL_IMAGE_ADDR]
  by (simp add: staged_image_def staged_ram_def boot_elf_length)

lemma boot_summary_fits: "KERNEL_VIRT_BASE \<le> virtual_min boot_summary" "virtual_max boot_summary - KERNEL_VIRT_BASE \<le> 0xE00000"
  "124 \<le> KERNEL_IMAGE_BYTES"
  by (simp_all add: boot_summary_def KERNEL_VIRT_BASE_def KERNEL_IMAGE_BYTES_def word_le_nat_alt)

theorem load_elf_confined_witness:
  "snd (snd (load_elf no_summary 124 staged_ram)) 0x58000 = staged_ram 0x58000"
  using load_elf_confined [of "0x58000" no_summary 124 staged_ram]
  by (simp add: KERNEL_PHYS_BASE_def word_less_nat_alt)

theorem load_elf_places_witness:
  "\<exists>m'. load_elf no_summary 124 staged_ram = (True, boot_summary, m') \<and> staged_image 124 m' = boot_elf"
  using load_elf_places [of 124 staged_ram no_summary boot_summary] boot_elf_validates [of no_summary] boot_summary_fits
  by (auto simp: staged_ram_image Let_def)

lemma boot_usable: "staging_range_is_usable boot_mode boot_ram"
proof -
  let ?e = "\<lparr> mm_base = 0x100000, mm_length = 0x7F00000, mm_type = 1, mm_flags = 0 \<rparr>"
  have "mem_bytes boot_ram MEMORY_MAP_ADDR 24 = memory_map_entry_bytes ?e"
    using mem_bytes_store [of "memory_map_entry_bytes ?e" "\<lambda>_. 0" MEMORY_MAP_ADDR] by (simp add: boot_ram_def)
  then have "map_entry boot_ram 0 = ?e"
    using memory_map_entry_of_bytes_bytes [of ?e "[]"] by (simp add: map_entry_def)
  then show ?thesis
    by (simp add: staging_range_is_usable_def boot_mode_def JOSH_MEMORY_USABLE_def KERNEL_IMAGE_ADDR_def
        KERNEL_IMAGE_BYTES_def Let_def)
qed

lemma staged_is_elf:
  assumes "mem_bytes m KERNEL_IMAGE_ADDR 124 = boot_elf"
  shows "is_elf m"
proof -
  have "m (KERNEL_IMAGE_ADDR + of_nat i) = boot_elf ! i" if "i < 124" for i
    using nth_mem_bytes [of i 124 m KERNEL_IMAGE_ADDR] that assms by simp
  from this [of 0] this [of 1] this [of 2] this [of 3] show ?thesis by (simp add: is_elf_def boot_elf_def)
qed

lemma boot_run:
  "\<exists>st'. stage2_pm_main boot_fw boot_cpu boot_mode zero_config boot_machine = Some (EnterLongMode 0xFFFFFFFF80000000, st')"
proof -
  have lm: "cpu_has_long_mode boot_cpu"
    by (simp add: cpu_has_long_mode_def cpu_has_cpuid_def cpuid_def boot_cpu_def Let_def)
  have not_elf: "\<not> is_elf boot_ram"
    by (simp add: is_elf_def boot_ram_def mem_store_apply region_def KERNEL_IMAGE_ADDR_def MEMORY_MAP_ADDR_def)
  let ?st0 = "serial_write ''JOSHBOOT_FS_LOAD_BEGIN\<newline>'' (serial_write ''JOSHBOOT_CPU_LONG_MODE_OK\<newline>'' (serial_init boot_machine))"
  have m: "s2_mem boot_machine = boot_ram" "s2_disk boot_machine = boot_disk" by (simp_all add: boot_machine_def)
  obtain cfg st1 where l: "load_kernel_file boot_fw (Some KERNEL_IMAGE_BYTES) (Some zero_config) ?st0 = Some (True, Some 124, cfg, st1)"
    and img: "mem_bytes (s2_mem st1) KERNEL_IMAGE_ADDR 124 = boot_elf"
    using load_kernel_file_outcome [OF sector_bios_in_place, of 70000 KERNEL_IMAGE_BYTES zero_config ?st0]
      boot_outcome_run [of zero_config] by (auto simp: m boot_elf_length)
  have st: "staged_image 124 (s2_mem st1) = boot_elf" using img by (simp add: staged_image_def)
  obtain m1 where le: "load_elf no_summary 124 (s2_mem st1) = (True, boot_summary, m1)"
    using load_elf_validated(1) [of 124 "s2_mem st1" no_summary boot_summary] boot_elf_validates [of no_summary] boot_summary_fits
    by (simp add: st)
  obtain k where "cfg = Some k" "config_wf k" using l by (rule load_kernel_file_success)
  then obtain m2 where "fill_boot_info boot_mode boot_summary cfg m1 = Some m2"
    by (rule_tac fill_boot_info_result [of cfg boot_mode boot_summary m1]) (auto simp: config_wf_def)
  then have "\<exists>st'. stage2_handoff boot_mode 124 cfg st1 = Some (EnterLongMode 0xFFFFFFFF80000000, st')"
    using le by (simp add: stage2_handoff_def Let_def boot_summary_def)
  then show ?thesis
    using lm not_elf boot_usable l staged_is_elf [OF img]
    by (simp add: stage2_pm_main_def Let_def m) (simp add: boot_mode_def)
qed

theorem stage2_boots_kernel_witness:
  "\<exists>st'. stage2_pm_main boot_fw boot_cpu boot_mode zero_config boot_machine = Some (EnterLongMode 0xFFFFFFFF80000000, st')
    \<and> bi_magic (boot_info_at (s2_mem st')) = JOSH_BOOT_INFO_MAGIC
    \<and> kernel_entry (boot_info_at (s2_mem st')) = 0xFFFFFFFF80000000
    \<and> x86_translate (phys_read64 (s2_mem st')) (ucast PML4_ADDR) 0xFFFFFFFF80000000 = Some 0x200000"
proof -
  obtain st' where r: "stage2_pm_main boot_fw boot_cpu boot_mode zero_config boot_machine = Some (EnterLongMode 0xFFFFFFFF80000000, st')"
    using boot_run by blast
  from stage2_boots_kernel [OF this] obtain image_bytes config m where
    "handoff_ok boot_mode image_bytes config m 0xFFFFFFFF80000000 (s2_mem st')" by blast
  with r show ?thesis
    by (auto simp: handoff_ok_def final_boot_info_def KERNEL_PHYS_BASE_def KERNEL_VIRT_BASE_def JOSH_BOOT_INFO_MAGIC_def)
qed

text \<open>A port that is ready at every other read of its status, and one that is broken.\<close>

definition slow_uart :: uart where
  "slow_uart = \<lparr> line_status = \<lambda>k. if even k then 0 else 0x60, status_reads = 0, port_writes = [] \<rparr>"

definition broken_uart :: uart where
  "broken_uart = \<lparr> line_status = \<lambda>k. 0, status_reads = 0, port_writes = [] \<rparr>"

theorem stage2_total_witness:
  "(\<exists>outcome st' u'. stage2_on_uart boot_fw boot_cpu boot_mode zero_config boot_machine slow_uart = Some (outcome, st', u')
      \<and> take 2 (port_writes u') = [(0x3F9, 0), (0x3FB, 0x80)])
   \<and> stage2_on_uart boot_fw boot_cpu boot_mode zero_config boot_machine broken_uart = None"
proof -
  have "uart_live slow_uart"
    unfolding uart_live_def
  proof
    fix n
    have "n \<le> 2 * n + 1" "line_status slow_uart (2 * n + 1) AND 0x20 \<noteq> 0" by (simp_all add: slow_uart_def)
    then show "\<exists>k\<ge>n. line_status slow_uart k AND 0x20 \<noteq> 0" by blast
  qed
  then have "\<exists>outcome st' u'. stage2_on_uart boot_fw boot_cpu boot_mode zero_config boot_machine slow_uart = Some (outcome, st', u')
      \<and> take 2 (port_writes u') = [(0x3F9, 0), (0x3FB, 0x80)]"
    using stage2_total [of slow_uart boot_fw boot_cpu boot_mode zero_config boot_machine]
    by (fastforce simp: slow_uart_def)
  moreover have "stage2_on_uart boot_fw boot_cpu boot_mode zero_config boot_machine broken_uart = None"
    using stage2_total [of broken_uart boot_fw boot_cpu boot_mode zero_config boot_machine]
    by (simp add: broken_uart_def)
  ultimately show ?thesis by blast
qed

end
