(* ===== verification/JB_Kernel.thy ===== *)
theory JB_Kernel
  imports JB_Uart
begin

text \<open>
  The demonstration kernel: \<open>kernel/kernel.c\<close>, \<open>kernel/serial.c\<close> and \<open>kernel/bootinfo.h\<close>.

  The text screen is a function from cell indices to cells, so that a write outside the 80 by 25
  cells would be visible. The serial port is the one of \<open>JB_Uart\<close>, with the wait before each byte; a
  function that writes to it has the value \<open>None\<close> when a wait does not end. \<open>kmain\<close> never returns: its
  model is the state in which it halts.
\<close>

section \<open>Boot information of the raw loader\<close>

definition JOSH_BOOT_INFO_MAGIC_v1 :: u32 where "JOSH_BOOT_INFO_MAGIC_v1 = 0x48534F4A"
definition JOSH_BOOT_INFO_VERSION :: u16 where "JOSH_BOOT_INFO_VERSION = 1"
definition JOSH_FIRMWARE_LEGACY_BIOS_v1 :: u8 where "JOSH_FIRMWARE_LEGACY_BIOS_v1 = 1"

record JoshBootInfo_v1 =
  v1_magic :: u32
  v1_version :: u16
  v1_size :: u16
  v1_boot_drive :: u8
  v1_firmware_type :: u8
  v1_flags :: u16
  v1_reserved :: u32

text \<open>The packed structure in memory, and its size.\<close>

definition boot_info_v1_bytes :: "JoshBootInfo_v1 \<Rightarrow> bytes" where
  "boot_info_v1_bytes i = le32_bytes (v1_magic i) @ le16_bytes (v1_version i) @ le16_bytes (v1_size i)
     @ [v1_boot_drive i, v1_firmware_type i] @ le16_bytes (v1_flags i) @ le32_bytes (v1_reserved i)"

lemma length_boot_info_v1_bytes: "length (boot_info_v1_bytes i) = 16"
  by (simp add: boot_info_v1_bytes_def)

section \<open>Serial port\<close>

record console =
  vga :: "u32 \<Rightarrow> u16"
  row :: u32
  col :: u32
  com1 :: uart

definition COM1_k :: u16 where "COM1_k = 0x3F8"

definition outb :: "u16 \<Rightarrow> u8 \<Rightarrow> console \<Rightarrow> console" where
  "outb port value s = s\<lparr> com1 := port_write port value (com1 s) \<rparr>"

definition serial_init_k :: "console \<Rightarrow> console" where
  "serial_init_k s =
     outb (COM1_k + 4) 0x0B (outb (COM1_k + 2) 0xC7 (outb (COM1_k + 3) 0x03 (outb (COM1_k + 1) 0x00
       (outb (COM1_k + 0) 0x03 (outb (COM1_k + 3) 0x80 (outb (COM1_k + 1) 0x00 s))))))"

definition serial_putc :: "u8 \<Rightarrow> console \<Rightarrow> console option" where
  "serial_putc c s =
     (case wait_ready (com1 s) of None \<Rightarrow> None | Some u \<Rightarrow> Some (outb COM1_k c (s\<lparr> com1 := u \<rparr>)))"

text \<open>The text is the bytes before the terminating zero; \<open>None\<close> is the null pointer.\<close>

fun serial_write_loop :: "bytes \<Rightarrow> console \<Rightarrow> console option" where
  "serial_write_loop [] s = Some s"
| "serial_write_loop (c # cs) s =
     Option.bind (if c = 0x0A then serial_putc 0x0D s else Some s)
       (\<lambda>s1. Option.bind (serial_putc c s1) (serial_write_loop cs))"

definition serial_write_k :: "bytes option \<Rightarrow> console \<Rightarrow> console option" where
  "serial_write_k t s = (case t of None \<Rightarrow> Some s | Some cs \<Rightarrow> serial_write_loop cs s)"

section \<open>Screen\<close>

definition clear_screen :: "console \<Rightarrow> console" where
  "clear_screen s = fold (\<lambda>i s'. s'\<lparr> vga := (vga s')(of_nat i := 0x20 OR push_bit 8 0x0F) \<rparr>) [0..<80 * 25] s"

definition putc :: "u8 \<Rightarrow> u8 \<Rightarrow> console \<Rightarrow> console" where
  "putc c colour s =
     (if c = 0x0A then s\<lparr> row := row s + 1, col := 0 \<rparr>
      else
        let s1 = (if col s \<ge> 80 then s\<lparr> row := row s + 1, col := 0 \<rparr> else s);
            s2 = (if row s1 \<ge> 25 then s1\<lparr> row := 0 \<rparr> else s1) in
        s2\<lparr> vga := (vga s2)(row s2 * 80 + col s2 := ucast c OR push_bit 8 (ucast colour)), col := col s2 + 1 \<rparr>)"

fun print :: "bytes \<Rightarrow> u8 \<Rightarrow> console \<Rightarrow> console" where
  "print [] colour s = s"
| "print (c # cs) colour s = print cs colour (putc c colour s)"

definition valid_boot_info :: "JoshBootInfo_v1 option \<Rightarrow> bool" where
  "valid_boot_info info =
     (case info of
        None \<Rightarrow> False
      | Some i \<Rightarrow> v1_magic i = JOSH_BOOT_INFO_MAGIC_v1 \<and> v1_version i = JOSH_BOOT_INFO_VERSION
          \<and> v1_size i \<ge> of_nat (length (boot_info_v1_bytes i)))"

definition kmain :: "JoshBootInfo_v1 option \<Rightarrow> console \<Rightarrow> console option" where
  "kmain boot_info s =
     Option.bind (serial_write_k (Some (ascii ''JOSHBIOS_KERNEL_ENTERED\<newline>'')) (serial_init_k s))
       (\<lambda>s1.
          let s2 = print (ascii ''========\<newline>\<newline>'') 0x08 (print (ascii ''JoshBIOS\<newline>'') 0x0B (clear_screen s1)) in
          if \<not> valid_boot_info boot_info
          then serial_write_k (Some (ascii ''JOSHBIOS_ERROR_BOOTINFO\<newline>''))
                 (print (ascii ''Boot contract validation failed.\<newline>'') 0x0C s2)
          else
            let s3 = print (ascii ''Kernel entered successfully.\<newline>'') 0x0F s2;
                s4 = print (ascii ''JoshBootInfo ABI v1 validated.\<newline>'') 0x0A s3;
                s5 = print (ascii ''Stage 1 -> Boot Manager -> protected mode -> kernel\<newline>\<newline>'') 0x07 s4;
                s6 = (if v1_firmware_type (the boot_info) = JOSH_FIRMWARE_LEGACY_BIOS_v1
                      then print (ascii ''Firmware path: legacy BIOS\<newline>'') 0x07 s5 else s5);
                s7 = print (ascii ''Welcome to the beginning of the Josh boot stack.\<newline>'') 0x0A s6
            in Option.bind (serial_write_k (Some (ascii ''JOSHBIOS_BOOTINFO_OK\<newline>'')) s7)
                 (serial_write_k (Some (ascii ''JOSHBIOS_BOOT_OK\<newline>''))))"

section \<open>What goes over the line\<close>

text \<open>Each line feed is preceded by a carriage return.\<close>

definition crlf :: "bytes \<Rightarrow> bytes" where
  "crlf cs = concat (map (\<lambda>c. if c = 0x0A then [0x0D, 0x0A] else [c]) cs)"

lemma crlf_append: "crlf (xs @ ys) = crlf xs @ crlf ys"
  by (simp add: crlf_def)

lemma serial_putc_send: "serial_putc c s = map_option (\<lambda>u. s\<lparr> com1 := u \<rparr>) (send_byte COM1_k c (com1 s))"
  by (simp add: serial_putc_def send_byte_def outb_def split: option.split)

lemma serial_write_loop_send:
  "serial_write_loop cs s = map_option (\<lambda>u. s\<lparr> com1 := u \<rparr>) (send_bytes COM1_k (crlf cs) (com1 s))"
proof (induction cs arbitrary: s)
  case (Cons c cs)
  show ?case
  proof (cases "c = 0x0A")
    case True
    have "crlf (c # cs) = 0x0D # 0x0A # crlf cs" by (simp add: crlf_def True)
    then show ?thesis
      using True Cons.IH by (cases "send_byte COM1_k 0x0D (com1 s)")
        (auto simp: serial_putc_send split: bind_split)
  next
    case False
    have "crlf (c # cs) = c # crlf cs" by (simp add: crlf_def False)
    then show ?thesis
      using False Cons.IH by (auto simp: serial_putc_send split: bind_split)
  qed
qed (simp add: crlf_def)

text \<open>On a port that keeps becoming ready a text is sent, and nothing else changes.\<close>

lemma serial_write_k_returns:
  assumes "uart_live (com1 s)"
  obtains u where "serial_write_k (Some cs) s = Some (s\<lparr> com1 := u \<rparr>)" "uart_live u"
    "port_writes u = port_writes (com1 s) @ map (Pair COM1_k) (crlf cs)"
  using send_bytes_returns [OF assms, of COM1_k "crlf cs"]
  by (auto simp: serial_write_k_def serial_write_loop_send)

section \<open>What the screen shows\<close>

text \<open>
  The screen as lines of text with a colour each, from the top: a cell holds the character in its low
  byte and the colour in its high byte, and the rest of the 80 by 25 cells are white blanks.
\<close>

type_synonym screen_lines = "(string \<times> u8) list"

definition screen_cell :: "screen_lines \<Rightarrow> nat \<Rightarrow> nat \<Rightarrow> u16" where
  "screen_cell ls r c =
     (if r < length ls \<and> c < length (fst (ls ! r))
      then of_nat (256 * unat (snd (ls ! r)) + of_char (fst (ls ! r) ! c)) else 0x0F20)"

definition screen_shows :: "screen_lines \<Rightarrow> (u32 \<Rightarrow> u16) \<Rightarrow> bool" where
  "screen_shows ls v \<longleftrightarrow> (\<forall>r<25. \<forall>c<80. v (of_nat (80 * r + c)) = screen_cell ls r c)"

text \<open>The screen, the cursor at the start of the line below the text, and every cell outside as in \<open>v0\<close>.\<close>

definition console_ok :: "(u32 \<Rightarrow> u16) \<Rightarrow> screen_lines \<Rightarrow> console \<Rightarrow> bool" where
  "console_ok v0 ls s \<longleftrightarrow>
     screen_shows ls (vga s) \<and> unat (row s) = length ls \<and> col s = 0
     \<and> (\<forall>i. \<not> i < 2000 \<longrightarrow> vga s i = v0 i)"

lemma unat_of_char: "unat (of_char x :: u8) = of_char x"
proof -
  have "(of_char x :: u8) = of_nat (of_char x)" by (cases x) (simp add: of_char_def horner_sum_simps)
  then show ?thesis using nat_of_char_less_256 [of x] by (simp add: unat_of_nat take_bit_nat_eq_self)
qed

lemma of_char_u8: "(of_char c :: u8) = of_char d \<longleftrightarrow> c = d"
  by (simp add: word_unat_eq_iff unat_of_char)

lemma cell_word: "ucast (of_char c :: u8) OR push_bit 8 (ucast (k :: u8)) = (of_nat (256 * unat k + of_char c) :: u16)"
proof -
  have "ucast (of_char c :: u8) AND push_bit 8 (ucast k :: u16) = 0"
    by (rule bit_eqI) (auto simp: bit_simps dest: bit_imp_le_length)
  then have "ucast (of_char c :: u8) OR push_bit 8 (ucast k :: u16) = ucast (of_char c :: u8) + 256 * ucast k"
    by (simp add: disjunctive_add_eq_or push_bit_eq_mult mult.commute)
  moreover have up: "(ucast w :: u16) = of_nat (unat w)" for w :: u8 by simp
  ultimately have "ucast (of_char c :: u8) OR push_bit 8 (ucast k :: u16) = of_nat (of_char c) + 256 * of_nat (unat k)"
    by (simp only: up unat_of_char)
  then show ?thesis by (simp add: add.commute)
qed

lemma putc_cell:
  assumes "c \<noteq> 0x0A" "unat (col s) < 80" "unat (row s) < 25"
  shows "putc c k s = s\<lparr> vga := (vga s)(of_nat (80 * unat (row s) + unat (col s)) := ucast c OR push_bit 8 (ucast k)), col := col s + 1 \<rparr>"
proof -
  have "of_nat (80 * unat (row s) + unat (col s)) = row s * 80 + col s" by (simp add: mult.commute)
  then show ?thesis using assms by (simp only:) (simp add: putc_def Let_def word_le_nat_alt)
qed

text \<open>Characters without a line feed, on one line.\<close>

lemma print_chars:
  fixes k :: u8
  assumes "CHR 0x0A \<notin> set t" "unat (col s) + length t \<le> 80" "unat (row s) < 25"
  defines "s' \<equiv> print (ascii t) k s"
  shows "row s' = row s \<and> com1 s' = com1 s
    \<and> (\<forall>i. vga s' i =
         (if 80 * unat (row s) + unat (col s) \<le> unat i \<and> unat i < 80 * unat (row s) + unat (col s) + length t
          then of_nat (256 * unat k + of_char (t ! (unat i - (80 * unat (row s) + unat (col s))))) else vga s i))"
  unfolding s'_def using assms(1-3)
proof (induction t arbitrary: s)
  case (Cons c t)
  let ?a = "80 * unat (row s) + unat (col s)"
  define s1 where "s1 = s\<lparr> vga := (vga s)(of_nat ?a := ucast (of_char c :: u8) OR push_bit 8 (ucast k)), col := col s + 1 \<rparr>"
  have nl: "(of_char c :: u8) \<noteq> 0x0A" using Cons.prems(1) of_char_u8 [of c "CHR 0x0A"] by auto
  have step: "print (ascii (c # t)) k s = print (ascii t) k s1"
    using Cons.prems nl by (simp add: putc_cell s1_def)
  have col1: "unat (col s1) = unat (col s) + 1" using Cons.prems by (simp add: s1_def unat_add_lem [THEN iffD1])
  have a: "unat (of_nat ?a :: u32) = ?a"
    using Cons.prems by (simp only: unat_of_nat) (simp add: take_bit_nat_eq_self)
  have row1: "row s1 = row s" "com1 s1 = com1 s" by (simp_all add: s1_def)
  have vga1: "vga s1 i = (if unat i = ?a then of_nat (256 * unat k + of_char c) else vga s i)" for i
    using a by (auto simp: s1_def cell_word word_unat_eq_iff)
  note IH = Cons.IH [of s1, unfolded row1 col1]
  have "vga (print (ascii t) k s1) i =
      (if ?a \<le> unat i \<and> unat i < ?a + length (c # t) then of_nat (256 * unat k + of_char ((c # t) ! (unat i - ?a))) else vga s i)" for i
  proof -
    have "(c # t) ! (unat i - ?a) = t ! (unat i - (?a + 1))" if "?a < unat i"
    proof -
      have "unat i - ?a = Suc (unat i - (?a + 1))" using that by linarith
      then show ?thesis by (simp only: nth_Cons_Suc)
    qed
    then show ?thesis using IH Cons.prems vga1 [of i] by (cases "unat i = ?a") auto
  qed
  then show ?case using IH Cons.prems step by auto
qed auto

lemma print_append: "print (cs @ ds) k s = print ds k (print cs k s)"
  by (induction cs arbitrary: s) simp_all

lemma ascii_append: "ascii (t @ t') = ascii t @ ascii t'"
  by (simp add: ascii_def)

text \<open>A line of text below the lines that are there.\<close>

lemma print_line:
  assumes "console_ok v0 ls s" "length ls < 25" "CHR 0x0A \<notin> set t" "length t \<le> 80"
  shows "console_ok v0 (ls @ [(t, k)]) (print (ascii (t @ ''\<newline>'')) k s)" "com1 (print (ascii (t @ ''\<newline>'')) k s) = com1 s"
proof -
  define s1 where "s1 = print (ascii t) k s"
  have s': "print (ascii (t @ ''\<newline>'')) k s = s1\<lparr> row := row s1 + 1, col := 0 \<rparr>"
    by (simp add: ascii_append print_append s1_def putc_def)
  have r: "unat (row s) = length ls" "unat (col s) = 0" using assms(1) by (simp_all add: console_ok_def)
  have chars: "row s1 = row s" "com1 s1 = com1 s"
    "\<And>i. vga s1 i = (if 80 * length ls \<le> unat i \<and> unat i < 80 * length ls + length t
        then of_nat (256 * unat k + of_char (t ! (unat i - 80 * length ls))) else vga s i)"
    using print_chars [of t s k] assms(2-4) r unfolding s1_def by auto
  show "com1 (print (ascii (t @ ''\<newline>'')) k s) = com1 s" by (simp add: s' chars)
  have "vga s1 (of_nat (80 * y + x)) = screen_cell (ls @ [(t, k)]) y x" if yx: "y < 25" "x < 80" for y x
  proof -
    have i: "unat (of_nat (80 * y + x) :: u32) = 80 * y + x"
      using yx by (simp only: unat_of_nat) (simp add: take_bit_nat_eq_self)
    have old: "vga s (of_nat (80 * y + x)) = screen_cell ls y x" using assms(1) yx by (simp add: console_ok_def screen_shows_def)
    have "80 * length ls \<le> 80 * y + x \<and> 80 * y + x < 80 * length ls + length t \<longleftrightarrow> y = length ls \<and> x < length t"
      using yx assms(4) by (cases y "length ls" rule: linorder_cases) auto
    then have "vga s1 (of_nat (80 * y + x)) =
        (if y = length ls \<and> x < length t then of_nat (256 * unat k + of_char (t ! x)) else screen_cell ls y x)"
      unfolding chars(3) i old by auto
    also have "\<dots> = screen_cell (ls @ [(t, k)]) y x" by (auto simp: screen_cell_def nth_append)
    finally show ?thesis .
  qed
  moreover have "vga s1 i = v0 i" if "\<not> i < 2000" for i
  proof -
    have "80 * length ls + length t \<le> 2000" using assms(2,4) by linarith
    then have "vga s1 i = vga s i" using that by (simp add: chars(3) word_less_nat_alt)
    then show ?thesis using assms(1) that by (simp add: console_ok_def)
  qed
  moreover have "unat (row s + 1) = length ls + 1" using r(1) assms(2) by (simp add: unat_add_lem [THEN iffD1])
  ultimately show "console_ok v0 (ls @ [(t, k)]) (print (ascii (t @ ''\<newline>'')) k s)"
    by (simp add: s' console_ok_def screen_shows_def chars(1) r)
qed

lemma clear_screen_ok:
  assumes "row s = 0" "col s = 0"
  shows "console_ok (vga s) [] (clear_screen s)" "com1 (clear_screen s) = com1 s"
proof -
  define f where "f = (\<lambda>i (s' :: console). s'\<lparr> vga := (vga s')(of_nat i := 0x20 OR push_bit 8 0x0F) \<rparr>)"
  have cl: "row (fold f [0..<n] s) = 0 \<and> col (fold f [0..<n] s) = 0 \<and> com1 (fold f [0..<n] s) = com1 s
      \<and> (\<forall>i. vga (fold f [0..<n] s) i = (if unat i < n then 0x0F20 else vga s i))" if "n \<le> 2000" for n
    using that
  proof (induction n)
    case (Suc n)
    then have "unat (of_nat n :: u32) = n" by (simp add: unat_of_nat take_bit_nat_eq_self)
    then have "i = of_nat n \<longleftrightarrow> unat i = n" for i :: u32 by (auto simp: word_unat_eq_iff)
    then show ?case using Suc by (auto simp: f_def less_Suc_eq)
  qed (simp add: assms)
  have "clear_screen s = fold f [0..<2000] s" by (simp add: clear_screen_def f_def)
  moreover have "unat (of_nat (80 * y + x) :: u32) < 2000" if "y < 25" "x < 80" for y x
    using that by (simp only: unat_of_nat) (simp add: take_bit_nat_eq_self)
  ultimately show "console_ok (vga s) [] (clear_screen s)" "com1 (clear_screen s) = com1 s"
    using cl [of 2000] by (auto simp: console_ok_def screen_shows_def screen_cell_def word_less_nat_alt simp del: of_nat_add of_nat_mult)
qed

text \<open>The port does not change the screen.\<close>

lemma console_ok_com1 [simp]: "console_ok v0 ls (s\<lparr> com1 := u \<rparr>) = console_ok v0 ls s"
  by (simp add: console_ok_def)

section \<open>What the kernel reports\<close>

text \<open>The boot information the kernel promises to accept: present, the magic, version 1, 16 bytes or more.\<close>

definition boot_info_acceptable :: "JoshBootInfo_v1 option \<Rightarrow> bool" where
  "boot_info_acceptable info \<longleftrightarrow>
     (\<exists>i. info = Some i \<and> v1_magic i = 0x48534F4A \<and> v1_version i = 1 \<and> 16 \<le> unat (v1_size i))"

lemma valid_boot_info_iff: "valid_boot_info info \<longleftrightarrow> boot_info_acceptable info"
  by (cases info) (simp_all add: valid_boot_info_def boot_info_acceptable_def length_boot_info_v1_bytes
    JOSH_BOOT_INFO_MAGIC_v1_def JOSH_BOOT_INFO_VERSION_def word_le_nat_alt)

text \<open>The lines on the screen, and the text on the line, for a given boot information.\<close>

definition kernel_lines :: "JoshBootInfo_v1 option \<Rightarrow> screen_lines" where
  "kernel_lines info =
     [(''JoshBIOS'', 0x0B), (''========'', 0x08), ([], 0x08)]
     @ (if boot_info_acceptable info
        then [(''Kernel entered successfully.'', 0x0F), (''JoshBootInfo ABI v1 validated.'', 0x0A),
              (''Stage 1 -> Boot Manager -> protected mode -> kernel'', 0x07), ([], 0x07)]
          @ (if v1_firmware_type (the info) = 1 then [(''Firmware path: legacy BIOS'', 0x07)] else [])
          @ [(''Welcome to the beginning of the Josh boot stack.'', 0x0A)]
        else [(''Boot contract validation failed.'', 0x0C)])"

definition kernel_transcript :: "JoshBootInfo_v1 option \<Rightarrow> string" where
  "kernel_transcript info =
     (if boot_info_acceptable info
      then ''JOSHBIOS_KERNEL_ENTERED\<newline>JOSHBIOS_BOOTINFO_OK\<newline>JOSHBIOS_BOOT_OK\<newline>''
      else ''JOSHBIOS_KERNEL_ENTERED\<newline>JOSHBIOS_ERROR_BOOTINFO\<newline>'')"

lemma serial_init_k_fields:
  "vga (serial_init_k s) = vga s" "row (serial_init_k s) = row s" "col (serial_init_k s) = col s"
  "uart_live (com1 (serial_init_k s)) = uart_live (com1 s)"
  "port_writes (com1 (serial_init_k s)) = port_writes (com1 s)
     @ [(0x3F9, 0), (0x3FB, 0x80), (0x3F8, 3), (0x3F9, 0), (0x3FB, 3), (0x3FA, 0xC7), (0x3FC, 0x0B)]"
  by (simp_all add: serial_init_k_def outb_def port_write_def COM1_k_def uart_live_def)

text \<open>The screen with these lines, and a port in state \<open>u\<close>.\<close>

definition shown :: "(u32 \<Rightarrow> u16) \<Rightarrow> uart \<Rightarrow> screen_lines \<Rightarrow> console \<Rightarrow> bool" where
  "shown v0 u ls s \<longleftrightarrow> console_ok v0 ls s \<and> com1 s = u"

lemma shown_line:
  "shown v0 u ls s \<Longrightarrow> length ls < 25 \<Longrightarrow> CHR 0x0A \<notin> set t \<Longrightarrow> length t \<le> 80 \<Longrightarrow>
     shown v0 u (ls @ [(t, k)]) (print (ascii (t @ ''\<newline>'')) k s)"
  using print_line [of v0 ls s t k] by (simp add: shown_def del: ascii_Cons)

lemma shown_line_blank:
  assumes "shown v0 u ls s" "length ls < 24" "CHR 0x0A \<notin> set t" "length t \<le> 80"
  shows "shown v0 u (ls @ [(t, k), ([], k)]) (print (ascii (t @ ''\<newline>\<newline>'')) k s)"
proof -
  have "print (ascii (t @ ''\<newline>\<newline>'')) k s = print (ascii ([] @ ''\<newline>'')) k (print (ascii (t @ ''\<newline>'')) k s)"
    by (simp add: ascii_append print_append)
  then show ?thesis using shown_line [OF shown_line [OF assms(1) _ assms(3,4)], where t = "[]" and k = k] assms(2) by simp
qed

lemma shown_write:
  assumes "shown v0 u ls s" "uart_live u"
  obtains s' u' where "serial_write_k (Some cs) s = Some s'" "shown v0 u' ls s'" "uart_live u'"
    "port_writes u' = port_writes u @ map (Pair 0x3F8) (crlf cs)"
proof -
  have "uart_live (com1 s)" using assms by (simp add: shown_def)
  then obtain u' where "serial_write_k (Some cs) s = Some (s\<lparr> com1 := u' \<rparr>)" "uart_live u'"
    "port_writes u' = port_writes (com1 s) @ map (Pair COM1_k) (crlf cs)" by (rule serial_write_k_returns)
  then show ?thesis using assms by (intro that [of _ u']) (auto simp: shown_def COM1_k_def)
qed

text \<open>What is printed after the banner when the boot information is accepted.\<close>

definition welcome_screen :: "JoshBootInfo_v1 option \<Rightarrow> console \<Rightarrow> console" where
  "welcome_screen info s =
     (let s5 = print (ascii ''Stage 1 -> Boot Manager -> protected mode -> kernel\<newline>\<newline>'') 0x07
            (print (ascii ''JoshBootInfo ABI v1 validated.\<newline>'') 0x0A (print (ascii ''Kernel entered successfully.\<newline>'') 0x0F s));
          s6 = (if v1_firmware_type (the info) = 1 then print (ascii ''Firmware path: legacy BIOS\<newline>'') 0x07 s5 else s5)
      in print (ascii ''Welcome to the beginning of the Josh boot stack.\<newline>'') 0x0A s6)"

definition banner :: screen_lines where
  "banner = [(''JoshBIOS'', 0x0B), (''========'', 0x08), ([], 0x08)]"

lemma shown_welcome:
  assumes "shown v0 u banner s" "boot_info_acceptable info"
  shows "shown v0 u (kernel_lines info) (welcome_screen info s)"
proof -
  let ?ls = "banner @ [(''Kernel entered successfully.'', 0x0F), (''JoshBootInfo ABI v1 validated.'', 0x0A),
    (''Stage 1 -> Boot Manager -> protected mode -> kernel'', 0x07), ([], 0x07)]"
  define s5 where "s5 = print (ascii ''Stage 1 -> Boot Manager -> protected mode -> kernel\<newline>\<newline>'') 0x07
    (print (ascii ''JoshBootInfo ABI v1 validated.\<newline>'') 0x0A (print (ascii ''Kernel entered successfully.\<newline>'') 0x0F s))"
  define s6 where "s6 = (if v1_firmware_type (the info) = 1 then print (ascii ''Firmware path: legacy BIOS\<newline>'') 0x07 s5 else s5)"
  from shown_line_blank [OF shown_line [OF shown_line [OF assms(1), where t = "''Kernel entered successfully.''" and k = "0x0F"],
      where t = "''JoshBootInfo ABI v1 validated.''" and k = "0x0A"],
    where t = "''Stage 1 -> Boot Manager -> protected mode -> kernel''" and k = "0x07"]
  have s5: "shown v0 u ?ls s5" by (simp add: s5_def banner_def del: ascii_Cons)
  have s6: "shown v0 u (butlast (kernel_lines info)) s6"
    using shown_line [OF s5, where t = "''Firmware path: legacy BIOS''" and k = "0x07"] s5 assms(2)
    by (simp add: s6_def kernel_lines_def banner_def del: ascii_Cons)
  have "butlast (kernel_lines info) @ [(''Welcome to the beginning of the Josh boot stack.'', 0x0A)] = kernel_lines info"
    "length (butlast (kernel_lines info)) < 25"
    using assms(2) by (simp_all add: kernel_lines_def)
  with shown_line [OF s6, where t = "''Welcome to the beginning of the Josh boot stack.''" and k = "0x0A"]
  show ?thesis by (simp add: welcome_screen_def s5_def [symmetric] s6_def [symmetric] Let_def del: ascii_Cons)
qed

text \<open>The start of the run, up to the banner.\<close>

lemma kernel_banner:
  assumes "uart_live (com1 s)" "row s = 0" "col s = 0"
  obtains u s2 where
    "\<not> boot_info_acceptable info \<Longrightarrow> kmain info s = serial_write_k (Some (ascii ''JOSHBIOS_ERROR_BOOTINFO\<newline>''))
       (print (ascii ''Boot contract validation failed.\<newline>'') 0x0C s2)"
    "boot_info_acceptable info \<Longrightarrow> kmain info s =
       Option.bind (serial_write_k (Some (ascii ''JOSHBIOS_BOOTINFO_OK\<newline>'')) (welcome_screen info s2))
         (serial_write_k (Some (ascii ''JOSHBIOS_BOOT_OK\<newline>'')))"
    "shown (vga s) u banner s2" "uart_live u"
    "port_writes u = port_writes (com1 (serial_init_k s)) @ map (Pair 0x3F8) (crlf (ascii ''JOSHBIOS_KERNEL_ENTERED\<newline>''))"
proof -
  note init = serial_init_k_fields [of s]
  have "uart_live (com1 (serial_init_k s))" using assms(1) by (simp add: init)
  then obtain u where w: "serial_write_k (Some (ascii ''JOSHBIOS_KERNEL_ENTERED\<newline>'')) (serial_init_k s)
      = Some ((serial_init_k s)\<lparr> com1 := u \<rparr>)" "uart_live u"
    "port_writes u = port_writes (com1 (serial_init_k s)) @ map (Pair COM1_k) (crlf (ascii ''JOSHBIOS_KERNEL_ENTERED\<newline>''))"
    by (rule serial_write_k_returns)
  have "shown (vga s) u [] (clear_screen ((serial_init_k s)\<lparr> com1 := u \<rparr>))"
    using clear_screen_ok [of "(serial_init_k s)\<lparr> com1 := u \<rparr>"] assms(2,3) by (simp add: shown_def init)
  from shown_line_blank [OF shown_line [OF this, where t = "''JoshBIOS''" and k = "0x0B"], where t = "''========''" and k = "0x08"]
  have s2: "shown (vga s) u banner (print (ascii ''========\<newline>\<newline>'') 0x08 (print (ascii ''JoshBIOS\<newline>'') 0x0B
      (clear_screen ((serial_init_k s)\<lparr> com1 := u \<rparr>))))"
    by (simp add: banner_def del: ascii_Cons)
  show ?thesis
    by (rule that [OF _ _ s2 w(2)])
      (simp_all add: kmain_def w(1,3) COM1_k_def valid_boot_info_iff welcome_screen_def JOSH_FIRMWARE_LEGACY_BIOS_v1_def Let_def
        del: ascii_Cons)
qed

lemma kernel_transcript_parts:
  "boot_info_acceptable info \<Longrightarrow> crlf (ascii (kernel_transcript info)) = crlf (ascii ''JOSHBIOS_KERNEL_ENTERED\<newline>'')
     @ crlf (ascii ''JOSHBIOS_BOOTINFO_OK\<newline>'') @ crlf (ascii ''JOSHBIOS_BOOT_OK\<newline>'')"
  "\<not> boot_info_acceptable info \<Longrightarrow> crlf (ascii (kernel_transcript info)) = crlf (ascii ''JOSHBIOS_KERNEL_ENTERED\<newline>'')
     @ crlf (ascii ''JOSHBIOS_ERROR_BOOTINFO\<newline>'')"
  by (simp_all add: kernel_transcript_def flip: crlf_append ascii_append)

text \<open>
  C39. What the kernel reports. Started with its cursor at the top left and a serial port that becomes
  ready again and again, the kernel reaches its halt. It accepts a boot information structure exactly
  when it is present with the magic 0x48534F4A, version 1 and at least 16 bytes: after the set-up of the
  port the line carries the entry marker and then either the two success markers or the error marker, and
  nothing else; the screen shows exactly the lines for this case, each in its colour on an otherwise
  blank screen, and no cell outside the 80 by 25 of the text screen is written.
\<close>
theorem kmain_report:
  assumes "uart_live (com1 s)" "row s = 0" "col s = 0"
  shows "\<exists>s'. kmain boot_info s = Some s'
    \<and> port_writes (com1 s') = port_writes (com1 s)
        @ [(0x3F9, 0), (0x3FB, 0x80), (0x3F8, 3), (0x3F9, 0), (0x3FB, 3), (0x3FA, 0xC7), (0x3FC, 0x0B)]
        @ map (Pair 0x3F8) (crlf (ascii (kernel_transcript boot_info)))
    \<and> screen_shows (kernel_lines boot_info) (vga s')
    \<and> (\<forall>i. \<not> i < 2000 \<longrightarrow> vga s' i = vga s i)"
proof -
  obtain u s2 where run: "\<not> boot_info_acceptable boot_info \<Longrightarrow> kmain boot_info s =
        serial_write_k (Some (ascii ''JOSHBIOS_ERROR_BOOTINFO\<newline>'')) (print (ascii ''Boot contract validation failed.\<newline>'') 0x0C s2)"
      "boot_info_acceptable boot_info \<Longrightarrow> kmain boot_info s =
        Option.bind (serial_write_k (Some (ascii ''JOSHBIOS_BOOTINFO_OK\<newline>'')) (welcome_screen boot_info s2))
          (serial_write_k (Some (ascii ''JOSHBIOS_BOOT_OK\<newline>'')))"
    and s2: "shown (vga s) u banner s2" and live: "uart_live u" and sent: "port_writes u =
        port_writes (com1 (serial_init_k s)) @ map (Pair 0x3F8) (crlf (ascii ''JOSHBIOS_KERNEL_ENTERED\<newline>''))"
    by (rule kernel_banner [OF assms, of boot_info]) blast
  obtain s' where "kmain boot_info s = Some s'" "console_ok (vga s) (kernel_lines boot_info) s'"
    "port_writes (com1 s') = port_writes (com1 (serial_init_k s)) @ map (Pair 0x3F8) (crlf (ascii (kernel_transcript boot_info)))"
  proof (cases "boot_info_acceptable boot_info")
    case False
    from shown_line [OF s2, where t = "''Boot contract validation failed.''" and k = "0x0C"] False
    have "shown (vga s) u (kernel_lines boot_info) (print (ascii ''Boot contract validation failed.\<newline>'') 0x0C s2)"
      by (simp add: kernel_lines_def banner_def del: ascii_Cons)
    then obtain s' u' where "serial_write_k (Some (ascii ''JOSHBIOS_ERROR_BOOTINFO\<newline>''))
        (print (ascii ''Boot contract validation failed.\<newline>'') 0x0C s2) = Some s'"
      "shown (vga s) u' (kernel_lines boot_info) s'" "uart_live u'"
      "port_writes u' = port_writes u @ map (Pair 0x3F8) (crlf (ascii ''JOSHBIOS_ERROR_BOOTINFO\<newline>''))"
      using live by (rule shown_write)
    then show thesis
      using run(1) False sent by (intro that [of s']) (simp_all add: shown_def kernel_transcript_parts del: ascii_Cons)
  next
    case True
    obtain s3 u3 where w: "serial_write_k (Some (ascii ''JOSHBIOS_BOOTINFO_OK\<newline>'')) (welcome_screen boot_info s2) = Some s3"
      "shown (vga s) u3 (kernel_lines boot_info) s3" "uart_live u3"
      "port_writes u3 = port_writes u @ map (Pair 0x3F8) (crlf (ascii ''JOSHBIOS_BOOTINFO_OK\<newline>''))"
      using shown_welcome [OF s2 True] live by (rule shown_write)
    obtain s' u' where "serial_write_k (Some (ascii ''JOSHBIOS_BOOT_OK\<newline>'')) s3 = Some s'"
      "shown (vga s) u' (kernel_lines boot_info) s'" "uart_live u'"
      "port_writes u' = port_writes u3 @ map (Pair 0x3F8) (crlf (ascii ''JOSHBIOS_BOOT_OK\<newline>''))"
      using w(2,3) by (rule shown_write)
    then show thesis
      using run(2) True sent w(1,4) by (intro that [of s']) (simp_all add: shown_def kernel_transcript_parts del: ascii_Cons)
  qed
  then show ?thesis by (auto simp: console_ok_def serial_init_k_fields)
qed

definition ready_uart :: uart where
  "ready_uart = \<lparr> line_status = \<lambda>k. 0x60, status_reads = 0, port_writes = [] \<rparr>"

definition sample_info :: JoshBootInfo_v1 where
  "sample_info = \<lparr> v1_magic = 0x48534F4A, v1_version = 1, v1_size = 16, v1_boot_drive = 0x80, v1_firmware_type = 1,
     v1_flags = 0, v1_reserved = 0 \<rparr>"

theorem kmain_report_witness:
  "\<exists>s'. kmain (Some sample_info) \<lparr> vga = \<lambda>_. 0, row = 0, col = 0, com1 = ready_uart \<rparr> = Some s'
    \<and> vga s' 0 = 0x0B4A \<and> vga s' 2000 = 0"
proof -
  let ?s = "\<lparr> vga = \<lambda>_. 0, row = 0, col = 0, com1 = ready_uart \<rparr>"
  have "uart_live ready_uart" by (auto simp: uart_live_def ready_uart_def)
  then obtain s' where s': "kmain (Some sample_info) ?s = Some s'" "screen_shows (kernel_lines (Some sample_info)) (vga s')"
    "vga s' 2000 = 0"
    using kmain_report [of ?s "Some sample_info"] by auto
  have "screen_cell (kernel_lines (Some sample_info)) 0 0 = 0x0B4A" by (simp add: screen_cell_def kernel_lines_def)
  then have "vga s' 0 = 0x0B4A" using s'(2) [unfolded screen_shows_def, rule_format, of 0 0] by simp
  with s' show ?thesis by blast
qed

end
