(* ===== verification/JB_Efi.thy ===== *)
theory JB_Efi
  imports JB_Paging
begin

text \<open>
  The UEFI side of the loader: the parts of \<open>boot/uefi/efi.h\<close> that \<open>boot/uefi/main.c\<close> uses, and its
  small helpers.

  The firmware is not part of the sources: its boot services are functions over an abstract
  firmware state \<open>'f\<close>, arguments of the definitions that call them (\<open>None\<close> for a null pointer to the
  services). \<open>allocates_pages\<close> is what the UEFI specification says of \<open>AllocatePages\<close>. Addresses are 64
  bits wide, and so is memory.
\<close>

section \<open>Status values\<close>

type_synonym EFI_STATUS = u64
type_synonym EFI_PHYSICAL_ADDRESS = u64
type_synonym UINTN = u64

definition EFI_ERROR_BIT :: u64 where "EFI_ERROR_BIT = 0x8000000000000000"
definition EFIERR :: "u64 \<Rightarrow> EFI_STATUS" where "EFIERR c = EFI_ERROR_BIT OR c"
definition EFI_SUCCESS :: EFI_STATUS where "EFI_SUCCESS = 0"
definition EFI_LOAD_ERROR :: EFI_STATUS where "EFI_LOAD_ERROR = EFIERR 1"
definition EFI_INVALID_PARAMETER :: EFI_STATUS where "EFI_INVALID_PARAMETER = EFIERR 2"
definition EFI_UNSUPPORTED :: EFI_STATUS where "EFI_UNSUPPORTED = EFIERR 3"
definition EFI_BAD_BUFFER_SIZE :: EFI_STATUS where "EFI_BAD_BUFFER_SIZE = EFIERR 4"
definition EFI_BUFFER_TOO_SMALL :: EFI_STATUS where "EFI_BUFFER_TOO_SMALL = EFIERR 5"
definition EFI_DEVICE_ERROR :: EFI_STATUS where "EFI_DEVICE_ERROR = EFIERR 7"
definition EFI_OUT_OF_RESOURCES :: EFI_STATUS where "EFI_OUT_OF_RESOURCES = EFIERR 9"
definition EFI_NOT_FOUND :: EFI_STATUS where "EFI_NOT_FOUND = EFIERR 14"
definition EFI_ERROR :: "EFI_STATUS \<Rightarrow> bool" where "EFI_ERROR s \<longleftrightarrow> s AND EFI_ERROR_BIT \<noteq> 0"

lemmas efi_status_defs = EFI_ERROR_BIT_def EFIERR_def EFI_SUCCESS_def EFI_LOAD_ERROR_def EFI_INVALID_PARAMETER_def
  EFI_UNSUPPORTED_def EFI_BAD_BUFFER_SIZE_def EFI_BUFFER_TOO_SMALL_def EFI_DEVICE_ERROR_def EFI_OUT_OF_RESOURCES_def
  EFI_NOT_FOUND_def

lemma EFI_ERROR_codes [simp]:
  "\<not> EFI_ERROR EFI_SUCCESS" "EFI_ERROR EFI_LOAD_ERROR" "EFI_ERROR EFI_INVALID_PARAMETER" "EFI_ERROR EFI_UNSUPPORTED"
  "EFI_ERROR EFI_BAD_BUFFER_SIZE" "EFI_ERROR EFI_BUFFER_TOO_SMALL" "EFI_ERROR EFI_DEVICE_ERROR"
  "EFI_ERROR EFI_OUT_OF_RESOURCES" "EFI_ERROR EFI_NOT_FOUND"
  by (simp_all add: EFI_ERROR_def efi_status_defs)

section \<open>Identifiers\<close>

record EFI_GUID =
  Data1 :: u32
  Data2 :: u16
  Data3 :: u16
  Data4 :: bytes

fun guid_loop :: "bytes \<Rightarrow> bytes \<Rightarrow> nat \<Rightarrow> nat \<Rightarrow> bool" where
  "guid_loop a b i 0 = True"
| "guid_loop a b i (Suc n) = (if a ! i \<noteq> b ! i then False else guid_loop a b (Suc i) n)"

definition guid_equal :: "EFI_GUID \<Rightarrow> EFI_GUID \<Rightarrow> bool" where
  "guid_equal a b =
     (if Data1 a \<noteq> Data1 b \<or> Data2 a \<noteq> Data2 b \<or> Data3 a \<noteq> Data3 b then False
      else guid_loop (Data4 a) (Data4 b) 0 8)"

lemma guid_loop_iff: "guid_loop a b i n \<longleftrightarrow> (\<forall>k<n. a ! (i + k) = b ! (i + k))"
proof (induction n arbitrary: i)
  case (Suc n)
  have "(\<forall>k<Suc n. a ! (i + k) = b ! (i + k)) \<longleftrightarrow> a ! i = b ! i \<and> (\<forall>k<n. a ! (Suc i + k) = b ! (Suc i + k))"
    by (auto simp: All_less_Suc2)
  then show ?case using Suc.IH by simp
qed simp

lemma guid_equal_iff:
  assumes "length (Data4 a) = 8" "length (Data4 b) = 8"
  shows "guid_equal a b \<longleftrightarrow> a = b"
  using assms by (auto simp: guid_equal_def guid_loop_iff intro!: EFI_GUID.equality nth_equalityI)

section \<open>Memory\<close>

definition PAGE_SIZE :: u64 where "PAGE_SIZE = 4096"

definition pages_for :: "u64 \<Rightarrow> u64" where
  "pages_for n = (n + PAGE_SIZE - 1) div PAGE_SIZE"

text \<open>Enough pages, and no page too many, as long as the addition does not wrap.\<close>

lemma pages_for_spec:
  assumes "unat n \<le> 2 ^ 63"
  shows "unat (pages_for n) = (unat n + 4095) div 4096"
proof -
  have "unat (n + 0xFFF) = unat n + 0xFFF" using assms by (simp add: unat_add_lem [THEN iffD1])
  moreover have "n + PAGE_SIZE - 1 = n + 0xFFF" by (simp add: PAGE_SIZE_def)
  ultimately show ?thesis by (simp only: pages_for_def unat_div) (simp add: PAGE_SIZE_def)
qed

record 'f uefi =
  uf_firmware :: 'f
  uf_mem :: "64 memory"
  uf_serial :: "string list"

definition uefi_serial_write :: "string \<Rightarrow> 'f uefi \<Rightarrow> 'f uefi" where
  "uefi_serial_write message st = st\<lparr> uf_serial := uf_serial st @ [message] \<rparr>"

lemma uefi_serial_write_fields [simp]:
  "uf_firmware (uefi_serial_write t st) = uf_firmware st" "uf_mem (uefi_serial_write t st) = uf_mem st"
  by (simp_all add: uefi_serial_write_def)

text \<open>
  \<open>AllocatePages\<close> for \<open>AllocateMaxAddress\<close> and \<open>EfiLoaderData\<close>, the only way it is called: the
  number of pages and the highest address in, status and address out.
\<close>

type_synonym 'f allocate_pages = "UINTN \<Rightarrow> EFI_PHYSICAL_ADDRESS \<Rightarrow> 'f \<Rightarrow> EFI_STATUS \<times> EFI_PHYSICAL_ADDRESS \<times> 'f"

text \<open>\<open>None\<close> is a null pointer: for the boot services, and for the place of the address.\<close>

definition alloc_low :: "'f allocate_pages option \<Rightarrow> UINTN \<Rightarrow> EFI_PHYSICAL_ADDRESS option \<Rightarrow> 'f uefi
    \<Rightarrow> EFI_STATUS \<times> EFI_PHYSICAL_ADDRESS option \<times> 'f uefi" where
  "alloc_low bs pages a st =
     (case (bs, a) of
        (Some allocate, Some _) \<Rightarrow>
          if pages = 0 then (EFI_INVALID_PARAMETER, a, st)
          else
            (case allocate pages 0xFFFFFFFF (uf_firmware st) of
               (status, address, f) \<Rightarrow> (status, Some address, st\<lparr> uf_firmware := f \<rparr>))
      | _ \<Rightarrow> (EFI_INVALID_PARAMETER, a, st))"

text \<open>
  What the UEFI specification promises for an allocation with \<open>AllocateMaxAddress\<close> that succeeds: whole
  pages, the last byte not above the limit, out of the memory that was free before, which then is no
  longer free. \<open>free\<close> is the memory the firmware has not handed out.
\<close>

definition page_range :: "u64 \<Rightarrow> nat \<Rightarrow> u64 set" where
  "page_range a n = {x. unat a \<le> unat x \<and> unat x < unat a + 4096 * n}"

definition allocates_pages :: "'f allocate_pages \<Rightarrow> ('f \<Rightarrow> u64 set) \<Rightarrow> bool" where
  "allocates_pages allocate free \<longleftrightarrow>
     (\<forall>n limit f status a f'. allocate n limit f = (status, a, f') \<longrightarrow>
        (if EFI_ERROR status then free f' = free f
         else unat a mod 4096 = 0 \<and> unat a + 4096 * unat n \<le> unat limit + 1
           \<and> page_range a (unat n) \<subseteq> free f \<and> free f' = free f - page_range a (unat n)))"

lemma allocates_pagesD:
  assumes "allocates_pages allocate free" "alloc_low (Some allocate) n (Some a0) st = (status, a, st')"
    and "\<not> EFI_ERROR status"
  obtains address where "a = Some address" "unat address mod 4096 = 0" "unat address + 4096 * unat n \<le> 2 ^ 32"
    "page_range address (unat n) \<subseteq> free (uf_firmware st)" "uf_mem st' = uf_mem st"
    "free (uf_firmware st') = free (uf_firmware st) - page_range address (unat n)"
proof -
  obtain s address f where r: "allocate n 0xFFFFFFFF (uf_firmware st) = (s, address, f)"
    by (cases "allocate n 0xFFFFFFFF (uf_firmware st)")
  have n: "n \<noteq> 0" using assms(2,3) by (auto simp: alloc_low_def)
  then have eq: "status = s" "a = Some address" "st' = st\<lparr> uf_firmware := f \<rparr>"
    using assms(2) r by (auto simp: alloc_low_def)
  then show ?thesis
    using assms(1) [unfolded allocates_pages_def, rule_format, OF r] assms(3) by (intro that [of address]) simp_all
qed

end
