(* ===== verification/JB_EfiPaging.thy ===== *)
theory JB_EfiPaging
  imports JB_Efi JB_Elf64
begin

text \<open>
  The page tables of the UEFI loader, \<open>pt_alloc\<close> to \<open>build_tables\<close> of \<open>boot/uefi/main.c\<close>: tables are
  taken from a pool as they are needed, the low four gigabytes are mapped in large pages and the
  kernel page by page. The tables are proved to translate as intended for a kernel linked on a page
  boundary, and the pool to be large enough.
\<close>

definition HUGE_PAGE_SIZE :: u64 where "HUGE_PAGE_SIZE = 0x200000"
definition PAGE_TABLE_POOL_PAGES :: u64 where "PAGE_TABLE_POOL_PAGES = 48"
definition IDENTITY_GIB :: nat where "IDENTITY_GIB = 4"

record page_table_pool =
  pool_cursor :: u64
  pool_end :: u64

text \<open>\<open>None\<close> is the null pointer. The pool is a local variable of the caller, never null.\<close>

definition pt_alloc :: "page_table_pool \<Rightarrow> 64 memory \<Rightarrow> u64 option \<times> page_table_pool \<times> 64 memory" where
  "pt_alloc p m =
     (if pool_cursor p \<ge> pool_end p then (None, p, m)
      else (Some (pool_cursor p), p\<lparr> pool_cursor := pool_cursor p + PAGE_SIZE \<rparr>,
            memzero m (pool_cursor p) (unat PAGE_SIZE)))"

definition table_of :: "u64 \<Rightarrow> u64" where
  "table_of e = e AND 0x000FFFFFFFFFF000"

text \<open>
  One level of \<open>map4k\<close>: the table below entry \<open>i\<close> of \<open>tab\<close>, allocated and entered if the entry is
  not present; at the lower levels a large page in the way is an error.
\<close>

definition descend :: "bool \<Rightarrow> page_table_pool \<Rightarrow> u64 \<Rightarrow> u64 \<Rightarrow> 64 memory \<Rightarrow> u64 option \<times> page_table_pool \<times> 64 memory" where
  "descend check_ps p tab i m =
     (let e = load64 m (tab + 8 * i) in
      if e AND PAGE_PRESENT = 0
      then
        (case pt_alloc p m of
           (None, p', m') \<Rightarrow> (None, p', m')
         | (Some t, p', m') \<Rightarrow> (Some t, p', store64 m' (tab + 8 * i) (t OR PAGE_PRESENT OR PAGE_RW)))
      else if check_ps \<and> e AND PAGE_PS \<noteq> 0 then (None, p, m)
      else (Some (table_of e), p, m))"

definition map4k :: "page_table_pool \<Rightarrow> u64 \<Rightarrow> u64 \<Rightarrow> u64 \<Rightarrow> 64 memory \<Rightarrow> bool \<times> page_table_pool \<times> 64 memory" where
  "map4k p pml4 v ph m =
     (let i4 = drop_bit 39 v AND 511; i3 = drop_bit 30 v AND 511; i2 = drop_bit 21 v AND 511; i1 = drop_bit 12 v AND 511 in
      case descend False p pml4 i4 m of
        (None, p1, m1) \<Rightarrow> (False, p1, m1)
      | (Some pdpt, p1, m1) \<Rightarrow>
          (case descend True p1 pdpt i3 m1 of
             (None, p2, m2) \<Rightarrow> (False, p2, m2)
           | (Some pd, p2, m2) \<Rightarrow>
               (case descend True p2 pd i2 m2 of
                  (None, p3, m3) \<Rightarrow> (False, p3, m3)
                | (Some pt, p3, m3) \<Rightarrow>
                    (True, p3, store64 m3 (pt + 8 * i1) ((ph AND 0x000FFFFFFFFFF000) OR PAGE_PRESENT OR PAGE_RW)))))"

text \<open>The loop over the low gigabytes from \<open>g\<close>, \<open>n\<close> left; \<open>False\<close> is the return for lack of tables.\<close>

fun identity_loop :: "u64 \<Rightarrow> nat \<Rightarrow> nat \<Rightarrow> page_table_pool \<Rightarrow> 64 memory \<Rightarrow> bool \<times> page_table_pool \<times> 64 memory" where
  "identity_loop pdpt g 0 p m = (True, p, m)"
| "identity_loop pdpt g (Suc n) p m =
     (case pt_alloc p m of
        (None, p', m') \<Rightarrow> (False, p', m')
      | (Some pd, p', m') \<Rightarrow>
          let m1 = store64 m' (pdpt + 8 * of_nat g) (pd OR PAGE_PRESENT OR PAGE_RW);
              m2 = fold (\<lambda>i m''. store64 m'' (pd + 8 * of_nat i)
                     (((of_nat g * 512 + of_nat i) * HUGE_PAGE_SIZE) OR PAGE_PRESENT OR PAGE_RW OR PAGE_PS)) [0..<512] m1
          in identity_loop pdpt (Suc g) n p' m2)"

text \<open>The loop over the pages of the kernel.\<close>

fun kernel_loop :: "u64 \<Rightarrow> u64 \<Rightarrow> u64 \<Rightarrow> nat \<Rightarrow> nat \<Rightarrow> page_table_pool \<Rightarrow> 64 memory \<Rightarrow> bool \<times> page_table_pool \<times> 64 memory" where
  "kernel_loop pml4 vmin kp i 0 p m = (True, p, m)"
| "kernel_loop pml4 vmin kp i (Suc n) p m =
     (case map4k p pml4 (vmin + of_nat i * PAGE_SIZE) (kp + of_nat i * PAGE_SIZE) m of
        (False, p', m') \<Rightarrow> (False, p', m')
      | (True, p', m') \<Rightarrow> kernel_loop pml4 vmin kp (Suc i) n p' m')"

text \<open>The tables themselves, in the pool at \<open>pa\<close>: \<open>None\<close> when the pool runs out, else the root.\<close>

definition fill_tables :: "u64 \<Rightarrow> JoshElf64Summary \<Rightarrow> u64 \<Rightarrow> 64 memory \<Rightarrow> u64 option \<times> 64 memory" where
  "fill_tables kp s pa m =
     (let m0 = memzero m pa (unat (PAGE_TABLE_POOL_PAGES * PAGE_SIZE));
          pool = \<lparr> pool_cursor = pa, pool_end = pa + PAGE_TABLE_POOL_PAGES * PAGE_SIZE \<rparr> in
      case pt_alloc pool m0 of
        (pml4, pool1, m1) \<Rightarrow>
          (case pt_alloc pool1 m1 of
             (pdpt, pool2, m2) \<Rightarrow>
               if pml4 = None \<or> pdpt = None then (None, m2)
               else
                 let m3 = store64 m2 (the pml4 + 8 * 0) (the pdpt OR PAGE_PRESENT OR PAGE_RW) in
                 (case identity_loop (the pdpt) 0 IDENTITY_GIB pool2 m3 of
                    (False, pool3, m4) \<Rightarrow> (None, m4)
                  | (True, pool3, m4) \<Rightarrow>
                      (case kernel_loop (the pml4) (virtual_min s) kp 0
                              (unat (pages_for (virtual_max s - virtual_min s))) pool3 m4 of
                         (False, pool4, m5) \<Rightarrow> (None, m5)
                       | (True, pool4, m5) \<Rightarrow> (pml4, m5)))))"

text \<open>
  The status, or \<open>*root\<close> and \<open>*stack\<close>. The boot services are there (the caller has used them); the two
  local addresses are not initialised in the source and written by \<open>alloc_low\<close>.
\<close>

definition build_tables :: "'f allocate_pages \<Rightarrow> u64 \<Rightarrow> JoshElf64Summary \<Rightarrow> 'f uefi
    \<Rightarrow> (EFI_STATUS + u64 \<times> u64) \<times> 'f uefi" where
  "build_tables allocate kp s st =
     (case alloc_low (Some allocate) PAGE_TABLE_POOL_PAGES (Some 0) st of
        (status, pa, st1) \<Rightarrow>
          if EFI_ERROR status then (Inl status, st1)
          else
            (case fill_tables kp s (the pa) (uf_mem st1) of
               (None, m) \<Rightarrow> (Inl EFI_OUT_OF_RESOURCES, st1\<lparr> uf_mem := m \<rparr>)
             | (Some pml4, m) \<Rightarrow>
                 (case alloc_low (Some allocate) 4 (Some 0) (st1\<lparr> uf_mem := m \<rparr>) of
                    (status2, sp, st2) \<Rightarrow>
                      if EFI_ERROR status2 then (Inl status2, st2)
                      else (Inr (pml4, the sp + 4 * PAGE_SIZE - 16),
                            st2\<lparr> uf_mem := memzero (uf_mem st2) (the sp) (unat (4 * PAGE_SIZE)) \<rparr>))))"

section \<open>The pool as an array of tables\<close>

text \<open>
  \<open>page P j\<close> is the address of page \<open>j\<close> of the pool, \<open>P\<close> being the page number of the pool, and
  \<open>pte P m j i\<close> is entry \<open>i\<close> of the table in that page.
\<close>

definition page :: "nat \<Rightarrow> nat \<Rightarrow> u64" where
  "page P j = of_nat (4096 * (P + j))"

definition pte :: "nat \<Rightarrow> 64 memory \<Rightarrow> nat \<Rightarrow> nat \<Rightarrow> u64" where
  "pte P m j i = load64 m (page P j + 8 * of_nat i)"

definition pool_at :: "nat \<Rightarrow> nat \<Rightarrow> page_table_pool" where
  "pool_at P n = \<lparr> pool_cursor = page P n, pool_end = page P 48 \<rparr>"

lemma unat_page: "P + j < 2 ^ 30 \<Longrightarrow> unat (page P j) = 4096 * (P + j)"
  unfolding page_def by (subst unat_of_nat) (simp add: take_bit_nat_eq_self)

lemma unat_entry:
  assumes "P + j < 2 ^ 30" "i < 512"
  shows "unat (page P j + 8 * of_nat i) = 4096 * (P + j) + 8 * i"
proof -
  have "page P j + 8 * of_nat i = of_nat (4096 * (P + j) + 8 * i)" by (simp add: page_def)
  then show ?thesis using assms by (simp only: unat_of_nat) (simp add: take_bit_nat_eq_self)
qed

lemma region_entry:
  assumes "P + j < 2 ^ 30" "i < 512"
  shows "x \<in> region (page P j + 8 * of_nat i) 8 \<longleftrightarrow>
     4096 * (P + j) + 8 * i \<le> unat x \<and> unat x < 4096 * (P + j) + 8 * i + 8"
  using assms unat_entry [OF assms] by (subst region_bounds) simp_all

lemma region_page:
  assumes "P + j < 2 ^ 30"
  shows "x \<in> region (page P j) 4096 \<longleftrightarrow> 4096 * (P + j) \<le> unat x \<and> unat x < 4096 * (P + j) + 4096"
  using assms unat_page [OF assms] by (subst region_bounds) simp_all

lemma entries_disjoint:
  assumes "P + j < 2 ^ 30" "P + k < 2 ^ 30" "i < 512" "l < 512" "(j, i) \<noteq> (k, l)"
  shows "region (page P j + 8 * of_nat i) 8 \<inter> region (page P k + 8 * of_nat l) 8 = {}"
proof (rule ccontr)
  assume "region (page P j + 8 * of_nat i) 8 \<inter> region (page P k + 8 * of_nat l) 8 \<noteq> {}"
  then obtain x where "x \<in> region (page P j + 8 * of_nat i) 8" "x \<in> region (page P k + 8 * of_nat l) 8" by blast
  then have eq: "512 * j + i = 512 * k + l" using assms(1-4) by (simp add: region_entry)
  then have "(512 * j + i) div 512 = (512 * k + l) div 512" by simp
  then have "j = k" using assms(3,4) by simp
  with eq assms(5) show False by simp
qed

lemma pte_store:
  assumes "P + j < 2 ^ 30" "P + k < 2 ^ 30" "i < 512" "l < 512"
  shows "pte P (store64 m (page P j + 8 * of_nat i) v) k l = (if j = k \<and> i = l then v else pte P m k l)"
proof (cases "j = k \<and> i = l")
  case True
  then show ?thesis using mem_bytes_store [of "le64_bytes v" m "page P j + 8 * of_nat i"]
    by (simp add: pte_def load64_def store64_def codec_simps)
next
  case False
  then show ?thesis
    using mem_bytes_frame [of "page P k + 8 * of_nat l" 8 "page P j + 8 * of_nat i" "le64_bytes v" m]
      entries_disjoint [OF assms(2,1,4,3)]
    by (auto simp: pte_def load64_def store64_def)
qed

lemma pte_memzero:
  assumes "P + n < 2 ^ 30" "P + k < 2 ^ 30" "i < 512"
  shows "pte P (memzero m (page P n) 4096) k i = (if k = n then 0 else pte P m k i)"
proof -
  have r: "x \<in> region (page P n) 4096 \<longleftrightarrow> k = n" if "x \<in> region (page P k + 8 * of_nat i) 8" for x
    using that assms by (auto simp: region_entry region_page)
  show ?thesis
  proof (cases "k = n")
    case True
    have "memzero m (page P n) 4096 x = 0" if "x \<in> region (page P k + 8 * of_nat i) 8" for x
    proof -
      have "x \<in> region (page P n) 4096" using r [OF that] True by simp
      moreover then have "unat (x - page P n) < 4096" by (simp add: region_def)
      ultimately show ?thesis by (simp add: memzero_store mem_store_apply)
    qed
    then have "mem_bytes (memzero m (page P n) 4096) (page P k + 8 * of_nat i) 8 = mem_bytes (\<lambda>_. 0) (page P k + 8 * of_nat i) 8"
      by (intro mem_bytes_eqI) simp_all
    then show ?thesis unfolding pte_def load64_def using True
      by (simp only: if_True) (simp add: read_le64_def read_le32_def)
  next
    case False
    have "mem_bytes (memzero m (page P n) 4096) (page P k + 8 * of_nat i) 8 = mem_bytes m (page P k + 8 * of_nat i) 8"
      using r False by (intro mem_bytes_eqI) (simp_all add: memzero_frame)
    then show ?thesis using False by (simp add: pte_def load64_def)
  qed
qed

lemma pt_alloc_at:
  assumes "P < 2 ^ 20" "n < 48"
  shows "pt_alloc (pool_at P n) m = (Some (page P n), pool_at P (Suc n), memzero m (page P n) 4096)"
proof -
  have "\<not> page P 48 \<le> page P n" using assms by (simp add: word_le_nat_alt unat_page)
  moreover have "page P n + PAGE_SIZE = page P (Suc n)" by (simp add: page_def PAGE_SIZE_def)
  ultimately show ?thesis by (simp add: pt_alloc_def pool_at_def) (simp add: PAGE_SIZE_def)
qed

text \<open>A table entry that points to page \<open>k\<close>.\<close>

lemma pointer_entry:
  assumes "P + k < 2 ^ 30"
  defines "e \<equiv> page P k OR 3"
  shows "entry_usable e" "e AND 0x80 = 0" "entry_address e = page P k" "e AND 1 \<noteq> 0" "e \<noteq> 0"
proof -
  have pg: "page P k = push_bit 12 (of_nat (P + k))" by (simp add: page_def push_bit_eq_mult)
  have e: "e = push_bit 12 (of_nat (P + k)) OR 3" by (simp add: e_def pg)
  have bits: "bit e 0" "bit e 1" "\<not> bit e 7" by (simp_all add: e bit_simps)
  have "bit (e AND 1) 0" "bit (e AND 2) 1" using bits by (simp_all add: bit_simps)
  then show "entry_usable e" "e AND 1 \<noteq> 0" "e \<noteq> 0" by (auto simp: entry_usable_def)
  have c: "(0x80 :: u64) = 2 ^ 7" by simp
  show "e AND 0x80 = 0" unfolding c using bits(3) by (simp only: and_exp_eq_0_iff_not_bit not_False_eq_True)
  have x: "(of_nat (P + k) :: u64) AND mask 40 = of_nat (P + k)"
    using assms(1) by (simp only: take_bit_eq_mask [symmetric])
      (simp add: word_unat_eq_iff unsigned_take_bit_eq unat_of_nat take_bit_nat_eq_self del: of_nat_add)
  have "entry_address e = push_bit 12 (of_nat (P + k)) AND 0x000FFFFFFFFFF000 OR 3 AND 0x000FFFFFFFFFF000"
    unfolding e entry_address_def by (rule bit.conj_disj_distrib2)
  also have "\<dots> = push_bit 12 (of_nat (P + k)) AND push_bit 12 (mask 40)"
    by (simp add: mask_eq_exp_minus_1 push_bit_eq_mult)
  also have "\<dots> = page P k"
    unfolding pg by (simp only: push_bit_and [symmetric] x)
  finally show "entry_address e = page P k" .
qed

section \<open>The tree of tables\<close>

text \<open>
  The ghost function \<open>G\<close> gives each table in use its path, the indices that lead to it from the
  root. Paths are distinct, so tables are never shared; every table but the root is entered in its
  parent; an entry that leads to no table is empty, a page entry of a lowest table, or a large page
  (only below entry 0 of the root).
\<close>

definition pt_inv :: "nat \<Rightarrow> (nat \<Rightarrow> nat list) \<Rightarrow> nat \<Rightarrow> 64 memory \<Rightarrow> bool" where
  "pt_inv P G n m \<longleftrightarrow>
     0 < n \<and> n \<le> 48 \<and> G 0 = [] \<and> inj_on G {..<n} \<and> (\<forall>j<n. length (G j) \<le> 3)
     \<and> (\<forall>j<n. j \<noteq> 0 \<longrightarrow> (\<exists>k<n. \<exists>i<512. G j = G k @ [i] \<and> pte P m k i = page P j OR 3))
     \<and> (\<forall>j<n. \<forall>i<512. (\<forall>k<n. G k \<noteq> G j @ [i]) \<longrightarrow>
          pte P m j i = 0 \<or> length (G j) = 3
          \<or> length (G j) = 2 \<and> hd (G j) = 0 \<and> (\<exists>q<2 ^ 31. pte P m j i = of_nat q * 0x200000 OR 0x83))"

lemma pt_inv_pointer:
  assumes "pt_inv P G n m" "j < n" "k < n" "G k = G j @ [i]"
  shows "i < 512" "pte P m j i = page P k OR 3" "length (G j) < 3"
proof -
  have "k \<noteq> 0"
  proof
    assume "k = 0"
    then show False using assms(1,4) by (simp add: pt_inv_def)
  qed
  then obtain k' i' where k': "k' < n" "i' < 512" "G k = G k' @ [i']" "pte P m k' i' = page P k OR 3"
    using assms(1,3) by (auto simp: pt_inv_def)
  then have "G k' = G j" "i' = i" using assms(4) by simp_all
  moreover then have "k' = j" using assms(1,2) k'(1) by (auto simp: pt_inv_def dest: inj_onD)
  ultimately show "i < 512" "pte P m j i = page P k OR 3" using k' by simp_all
  have "length (G k) \<le> 3" using assms(1,3) by (simp add: pt_inv_def)
  then show "length (G j) < 3" using assms(4) by simp
qed

lemma pt_inv_other:
  assumes "pt_inv P G n m" "j < n" "i < 512" "\<And>k. k < n \<Longrightarrow> G k \<noteq> G j @ [i]"
  obtains "pte P m j i = 0" | "length (G j) = 3"
    | q where "length (G j) = 2" "hd (G j) = 0" "q < 2 ^ 31" "pte P m j i = of_nat q * 0x200000 OR 0x83"
  using assms unfolding pt_inv_def by blast

text \<open>Adding a table below an empty entry.\<close>

lemma pt_inv_add:
  assumes inv: "pt_inv P G n m" and n: "n < 48" and j: "j < n" "i < 512" "length (G j) < 3"
    and free: "\<And>k. k < n \<Longrightarrow> G k \<noteq> G j @ [i]"
    and ptr: "pte P m' j i = page P n OR 3"
    and old: "\<And>k l. k < n \<Longrightarrow> l < 512 \<Longrightarrow> (k, l) \<noteq> (j, i) \<Longrightarrow> pte P m' k l = pte P m k l"
    and new: "\<And>l. l < 512 \<Longrightarrow> pte P m' n l = 0
       \<or> length (G j) = 1 \<and> hd (G j) = 0 \<and> (\<exists>q<2 ^ 31. pte P m' n l = of_nat q * 0x200000 OR 0x83)"
  shows "pt_inv P (G(n := G j @ [i])) (Suc n) m'" (is "pt_inv P ?G _ _")
proof -
  have g: "k < n \<Longrightarrow> ?G k = G k" for k by simp
  have inj: "inj_on ?G {..<Suc n}"
    using inv free unfolding pt_inv_def lessThan_Suc by (auto simp: inj_on_def)
  have parents: "\<exists>k'<Suc n. \<exists>l<512. ?G k = ?G k' @ [l] \<and> pte P m' k' l = page P k OR 3" if k0: "k < Suc n" "k \<noteq> 0" for k
  proof (cases "k = n")
    case True
    then show ?thesis using j ptr by (intro exI [of _ j]) auto
  next
    case False
    then have k: "k < n" using k0 by simp
    then obtain k' l where k': "k' < n" "l < 512" "G k = G k' @ [l]" "pte P m k' l = page P k OR 3"
      using inv k0(2) by (auto simp: pt_inv_def)
    have "(k', l) \<noteq> (j, i)" using k' free [OF k] by auto
    with k' old have "pte P m' k' l = page P k OR 3" by simp
    then show ?thesis using k' k by (intro exI [of _ k']) auto
  qed
  have leaves: "pte P m' k l = 0 \<or> length (?G k) = 3
      \<or> length (?G k) = 2 \<and> hd (?G k) = 0 \<and> (\<exists>q<2 ^ 31. pte P m' k l = of_nat q * 0x200000 OR 0x83)"
    if k: "k < Suc n" "l < 512" "\<forall>k'<Suc n. ?G k' \<noteq> ?G k @ [l]" for k l
  proof (cases "k = n")
    case True
    then show ?thesis using new [OF k(2)] by (cases "G j") auto
  next
    case False
    then have kn: "k < n" using k(1) by simp
    have "(k, l) \<noteq> (j, i)" using k(3) kn by auto
    then have same: "pte P m' k l = pte P m k l" using old kn k(2) by blast
    have no: "\<And>k'. k' < n \<Longrightarrow> G k' \<noteq> G k @ [l]" using k(3) kn by (metis g less_SucI)
    from pt_inv_other [OF inv kn k(2) no] show ?thesis using kn same by (metis g)
  qed
  have "G 0 = []" "0 < n" "\<forall>k<n. length (G k) \<le> 3" using inv by (simp_all add: pt_inv_def)
  then show ?thesis unfolding pt_inv_def using n j(3) inj parents leaves by (auto simp: less_Suc_eq)
qed

text \<open>Memory outside the pool is not touched.\<close>

definition outside_pool :: "nat \<Rightarrow> u64 \<Rightarrow> bool" where
  "outside_pool P x \<longleftrightarrow> unat x < 4096 * P \<or> 4096 * (P + 48) \<le> unat x"

lemma store_entry_frame:
  assumes "P < 2 ^ 20" "j < 48" "i < 512" "outside_pool P x"
  shows "store64 m (page P j + 8 * of_nat i) v x = m x"
proof -
  have "x \<notin> region (page P j + 8 * of_nat i) 8"
    using assms region_entry [of P j i x] by (auto simp: outside_pool_def)
  then show ?thesis by (simp add: store64_def mem_store_apply)
qed

lemma zero_page_frame:
  assumes "P < 2 ^ 20" "n < 48" "outside_pool P x"
  shows "memzero m (page P n) 4096 x = m x"
proof -
  have "x \<notin> region (page P n) 4096" using assms region_page [of P n x] by (auto simp: outside_pool_def)
  then show ?thesis by (simp add: memzero_frame)
qed

text \<open>What later steps keep: tables keep their paths and entries that are in use their values.\<close>

definition pt_ext :: "nat \<Rightarrow> (nat \<Rightarrow> nat list) \<Rightarrow> nat \<Rightarrow> 64 memory \<Rightarrow> (nat \<Rightarrow> nat list) \<Rightarrow> nat \<Rightarrow> 64 memory \<Rightarrow> bool" where
  "pt_ext P G n m G' n' m' \<longleftrightarrow> n \<le> n' \<and> (\<forall>j<n. G' j = G j) \<and> (\<forall>x. outside_pool P x \<longrightarrow> m' x = m x)
     \<and> (\<forall>j<n. \<forall>i<512. pte P m j i \<noteq> 0 \<or> length (G j) = 3 \<longrightarrow> pte P m' j i = pte P m j i)"

lemma pt_ext_refl: "pt_ext P G n m G n m"
  by (simp add: pt_ext_def)

lemma pt_ext_trans:
  assumes "pt_ext P G n m G1 n1 m1" "pt_ext P G1 n1 m1 G2 n2 m2"
  shows "pt_ext P G n m G2 n2 m2"
proof -
  have g: "j < n1 \<and> G1 j = G j \<and> G2 j = G j" if "j < n" for j
    using assms that by (simp add: pt_ext_def)
  have e: "pte P m2 j i = pte P m j i" if "j < n" "i < 512" "pte P m j i \<noteq> 0 \<or> length (G j) = 3" for i j
  proof -
    have "pte P m1 j i = pte P m j i" using assms(1) that by (simp add: pt_ext_def)
    then show ?thesis using assms(2) g [OF that(1)] that(2,3) by (simp add: pt_ext_def)
  qed
  have "n \<le> n2" "\<forall>x. outside_pool P x \<longrightarrow> m2 x = m x" using assms by (simp_all add: pt_ext_def)
  with g e show ?thesis unfolding pt_ext_def by simp
qed

lemma pool_not_exhausted:
  assumes "pt_inv P G n m" "finite S" "card S \<le> 48" "G ` {..<n} \<subseteq> S" "q \<in> S" "\<And>k. k < n \<Longrightarrow> G k \<noteq> q"
  shows "n < 48"
proof -
  have "G ` {..<n} \<subseteq> S - {q}" using assms(4,6) by auto
  then have "card (G ` {..<n}) \<le> card (S - {q})" using assms(2) by (intro card_mono) auto
  moreover have "card (G ` {..<n}) = n" using assms(1) by (simp add: pt_inv_def card_image)
  moreover have "card (S - {q}) < card S" using assms(2,5) by (intro card_Diff1_less) auto
  ultimately show ?thesis using assms(3) by linarith
qed

lemma flags_3: "t OR PAGE_PRESENT OR PAGE_RW = t OR 3" "t OR PAGE_PRESENT OR PAGE_RW OR PAGE_PS = t OR 0x83"
  by (simp_all add: paging_constants)

lemma descend_step:
  assumes P: "P < 2 ^ 20" and inv: "pt_inv P G n m"
    and S: "finite S" "card S \<le> 48" "G ` {..<n} \<subseteq> S" "G j @ [i] \<in> S"
    and j: "j < n" "i < 512" "length (G j) < 3" "hd (G j @ [i]) \<noteq> 0"
  shows "\<exists>G' n' m' k. descend b (pool_at P n) (page P j) (of_nat i) m = (Some (page P k), pool_at P n', m')
     \<and> k < n' \<and> G' k = G j @ [i] \<and> pt_inv P G' n' m' \<and> pt_ext P G n m G' n' m' \<and> G' ` {..<n'} \<subseteq> S"
proof (cases "\<exists>k<n. G k = G j @ [i]")
  case True
  then obtain k where k: "k < n" "G k = G j @ [i]" by blast
  have n48: "n \<le> 48" using inv by (simp add: pt_inv_def)
  have e: "load64 m (page P j + 8 * of_nat i) = page P k OR 3"
    using pt_inv_pointer [OF inv j(1) k] by (simp add: pte_def)
  have "P + k < 2 ^ 30" using P k n48 by simp
  note p = pointer_entry [OF this]
  have "descend b (pool_at P n) (page P j) (of_nat i) m = (Some (page P k), pool_at P n, m)"
    using p unfolding descend_def Let_def e by (simp add: PAGE_PRESENT_def PAGE_PS_def table_of_def entry_address_def)
  then show ?thesis using k inv S(3) pt_ext_refl by blast
next
  case False
  then have free: "\<And>k. k < n \<Longrightarrow> G k \<noteq> G j @ [i]" by blast
  have n: "n < 48" by (rule pool_not_exhausted [OF inv S free])
  have z: "pte P m j i = 0"
    by (rule pt_inv_other [OF inv j(1,2) free]) (use j(3,4) in \<open>auto simp: hd_append split: if_split_asm\<close>)
  define m' where "m' = store64 (memzero m (page P n) 4096) (page P j + 8 * of_nat i) (page P n OR 3)"
  have lt: "P + k < 2 ^ 30" if "k \<le> n" for k using P n that by simp
  have ptes: "pte P m' k l = (if k = j \<and> l = i then page P n OR 3 else if k = n then 0 else pte P m k l)"
    if "k \<le> n" "l < 512" for k l
    using that j lt by (auto simp: m'_def pte_store pte_memzero)
  let ?G = "G(n := G j @ [i])"
  have inv': "pt_inv P ?G (Suc n) m'"
    using inv n j(1-3) free by (rule pt_inv_add) (use j in \<open>auto simp: ptes\<close>)
  have "descend b (pool_at P n) (page P j) (of_nat i) m = (Some (page P n), pool_at P (Suc n), m')"
    using z P n unfolding descend_def Let_def pte_def [symmetric] m'_def
    by (simp add: pt_alloc_at) (simp add: paging_constants)
  moreover have "m' x = m x" if "outside_pool P x" for x
    using that P n j by (simp add: m'_def store_entry_frame zero_page_frame)
  then have "pt_ext P G n m ?G (Suc n) m'"
    using z j(3) by (auto simp: pt_ext_def ptes)
  moreover have "?G ` {..<Suc n} \<subseteq> S" using S(3,4) by (auto simp: lessThan_Suc)
  ultimately show ?thesis using inv' by (intro exI [of _ ?G] exI [of _ "Suc n"] exI [of _ m'] exI [of _ n]) simp
qed

text \<open>Writing a page entry of a lowest table.\<close>

lemma pt_inv_leaf:
  assumes inv: "pt_inv P G n m" and k: "k < n" "length (G k) = 3"
    and old: "\<And>j l. j < n \<Longrightarrow> l < 512 \<Longrightarrow> j \<noteq> k \<Longrightarrow> pte P m' j l = pte P m j l"
  shows "pt_inv P G n m'"
proof -
  have "\<exists>k'<n. \<exists>i<512. G j = G k' @ [i] \<and> pte P m' k' i = page P j OR 3" if jj: "j < n" "j \<noteq> 0" for j
  proof -
    obtain k' i where k': "k' < n" "i < 512" "G j = G k' @ [i]" "pte P m k' i = page P j OR 3"
      using inv jj by (auto simp: pt_inv_def)
    have "length (G j) \<le> 3" using inv jj(1) by (simp add: pt_inv_def)
    then have "k' \<noteq> k" using k'(3) k(2) by auto
    then show ?thesis using k' old by metis
  qed
  moreover have "pte P m' j i = 0 \<or> length (G j) = 3
      \<or> length (G j) = 2 \<and> hd (G j) = 0 \<and> (\<exists>q<2 ^ 31. pte P m' j i = of_nat q * 0x200000 OR 0x83)"
    if "j < n" "i < 512" "\<forall>k<n. G k \<noteq> G j @ [i]" for j i
    using that k(2) old [OF that(1,2)] inv unfolding pt_inv_def by (cases "j = k") simp_all
  ultimately show ?thesis using inv unfolding pt_inv_def by blast
qed

definition ix :: "nat \<Rightarrow> u64 \<Rightarrow> nat" where
  "ix s v = unat v div 2 ^ s mod 512"

lemma ix_less [simp]: "ix s v < 512"
  by (simp add: ix_def)

lemma index_word: "drop_bit s v AND 511 = (of_nat (ix s v) :: u64)"
proof -
  have "unat (table_index s v) = ix s v" by (simp add: unat_table_index ix_def)
  then show ?thesis by (metis table_index_def ucast_id ucast_unat_of_nat)
qed

lemma map4k_step:
  assumes P: "P < 2 ^ 20" and inv: "pt_inv P G n m" and S: "finite S" "card S \<le> 48" "G ` {..<n} \<subseteq> S"
    and paths: "[ix 39 v] \<in> S" "[ix 39 v, ix 30 v] \<in> S" "[ix 39 v, ix 30 v, ix 21 v] \<in> S" "ix 39 v \<noteq> 0"
  obtains G' n' m' k where "map4k (pool_at P n) (page P 0) v ph m = (True, pool_at P n', m')"
    "k < n'" "G' k = [ix 39 v, ix 30 v, ix 21 v]" "pte P m' k (ix 12 v) = (ph AND 0x000FFFFFFFFFF000) OR 3"
    "pt_inv P G' n' m'" "G' ` {..<n'} \<subseteq> S" "n \<le> n'" "\<And>j. j < n \<Longrightarrow> G' j = G j"
    "\<And>x. outside_pool P x \<Longrightarrow> m' x = m x"
    "\<And>j i. j < n \<Longrightarrow> i < 512 \<Longrightarrow> pte P m j i \<noteq> 0 \<or> length (G j) = 3 \<Longrightarrow>
       (G j, i) \<noteq> ([ix 39 v, ix 30 v, ix 21 v], ix 12 v) \<Longrightarrow> pte P m' j i = pte P m j i"
proof -
  have r: "0 < n" "G 0 = []" using inv by (simp_all add: pt_inv_def)
  obtain G1 n1 m1 k1 where d1: "descend False (pool_at P n) (page P 0) (of_nat (ix 39 v)) m = (Some (page P k1), pool_at P n1, m1)"
    "k1 < n1" "G1 k1 = [ix 39 v]" "pt_inv P G1 n1 m1" "pt_ext P G n m G1 n1 m1" "G1 ` {..<n1} \<subseteq> S"
    using descend_step [OF P inv S, of 0 "ix 39 v" False] r paths by auto
  obtain G2 n2 m2 k2 where d2: "descend True (pool_at P n1) (page P k1) (of_nat (ix 30 v)) m1 = (Some (page P k2), pool_at P n2, m2)"
    "k2 < n2" "G2 k2 = [ix 39 v, ix 30 v]" "pt_inv P G2 n2 m2" "pt_ext P G1 n1 m1 G2 n2 m2" "G2 ` {..<n2} \<subseteq> S"
    using descend_step [OF P d1(4) S(1,2) d1(6), of k1 "ix 30 v" True] d1 paths by auto
  obtain G3 n3 m3 k3 where d3: "descend True (pool_at P n2) (page P k2) (of_nat (ix 21 v)) m2 = (Some (page P k3), pool_at P n3, m3)"
    "k3 < n3" "G3 k3 = [ix 39 v, ix 30 v, ix 21 v]" "pt_inv P G3 n3 m3" "pt_ext P G2 n2 m2 G3 n3 m3" "G3 ` {..<n3} \<subseteq> S"
    using descend_step [OF P d2(4) S(1,2) d2(6), of k2 "ix 21 v" True] d2 paths by auto
  have ext: "pt_ext P G n m G3 n3 m3" by (rule pt_ext_trans [OF d1(5) pt_ext_trans [OF d2(5) d3(5)]])
  define e where "e = (ph AND 0x000FFFFFFFFFF000) OR 3"
  define m' where "m' = store64 m3 (page P k3 + 8 * of_nat (ix 12 v)) e"
  have lt: "P + j < 2 ^ 30" if "j < n3" for j using P that d3(4) by (simp add: pt_inv_def)
  have ptes: "pte P m' j i = (if j = k3 \<and> i = ix 12 v then e else pte P m3 j i)" if "j < n3" "i < 512" for j i
    using that lt d3(2) by (auto simp: m'_def pte_store)
  have "pt_inv P G3 n3 m'" using d3(4,2) by (rule pt_inv_leaf) (use d3(3) in \<open>simp_all add: ptes\<close>)
  moreover have "map4k (pool_at P n) (page P 0) v ph m = (True, pool_at P n3, m')"
    unfolding map4k_def Let_def index_word by (simp add: d1(1) d2(1) d3(1) m'_def e_def flags_3)
  moreover have "pte P m' j i = pte P m j i"
    if "j < n" "i < 512" "pte P m j i \<noteq> 0 \<or> length (G j) = 3" "(G j, i) \<noteq> ([ix 39 v, ix 30 v, ix 21 v], ix 12 v)" for j i
  proof -
    have j: "j < n3" "G3 j = G j" "pte P m3 j i = pte P m j i" using ext that by (simp_all add: pt_ext_def)
    moreover have "\<not> (j = k3 \<and> i = ix 12 v)" using j(2) d3(3) that(4) by auto
    ultimately show ?thesis using ptes [OF j(1) that(2)] by auto
  qed
  moreover have "pte P m' k3 (ix 12 v) = (ph AND 0x000FFFFFFFFFF000) OR 3" using ptes d3(2) by (simp add: e_def)
  moreover have "n \<le> n3" "\<And>j. j < n \<Longrightarrow> G3 j = G j" using ext by (simp_all add: pt_ext_def)
  moreover have "m' x = m x" if "outside_pool P x" for x
  proof -
    have "k3 < 48" using d3(2,4) by (simp add: pt_inv_def)
    then show ?thesis using ext that P by (simp add: m'_def store_entry_frame pt_ext_def)
  qed
  ultimately show ?thesis using d3(2,3,6) that by blast
qed

section \<open>Walking the tree\<close>

lemma read_index: "load64 m (page P k + 8 * table_index s va) = pte P m k (ix s va)"
  by (simp add: pte_def table_index_def index_word)

lemma pt_inv_parent:
  assumes "pt_inv P G n m" "j < n" "G j = p @ [i]"
  obtains k where "k < n" "G k = p" "pte P m k i = page P j OR 3" "P + k < 2 ^ 30 \<or> \<not> P < 2 ^ 20"
proof -
  have "j \<noteq> 0"
  proof
    assume "j = 0"
    then show False using assms(1,3) by (simp add: pt_inv_def)
  qed
  then obtain k l where k: "k < n" "G j = G k @ [l]" "pte P m k l = page P j OR 3"
    using assms(1,2) by (auto simp: pt_inv_def)
  then have "k < n" "G k = p" "pte P m k i = page P j OR 3" using assms(3) by simp_all
  moreover have "n \<le> 48" using assms(1) by (simp add: pt_inv_def)
  ultimately show ?thesis by (intro that) auto
qed

lemma pt_inv_root: "pt_inv P G n m \<Longrightarrow> j < n \<Longrightarrow> G j = [] \<Longrightarrow> j = 0"
  unfolding pt_inv_def by (metis inj_onD lessThan_iff)

lemma translate_walk:
  assumes P: "P < 2 ^ 20" and inv: "pt_inv P G n m" and c: "canonical va"
    and k2: "k2 < n" "G k2 = [ix 39 va, ix 30 va]"
  shows "x86_translate (load64 m) (page P 0) va =
     (let e2 = pte P m k2 (ix 21 va) in
      if \<not> entry_usable e2 then None
      else if e2 AND 0x80 \<noteq> 0 then Some ((e2 AND 0x000FFFFFFFE00000) + (va AND 0x1FFFFF))
      else
        let e1 = load64 m (entry_address e2 + 8 * table_index 12 va) in
        if \<not> entry_usable e1 then None else Some (entry_address e1 + (va AND 0xFFF)))"
proof -
  have n: "n \<le> 48" using inv by (simp add: pt_inv_def)
  obtain k1 where k1: "k1 < n" "G k1 = [ix 39 va]" "pte P m k1 (ix 30 va) = page P k2 OR 3"
    using pt_inv_parent [OF inv k2(1), of "[ix 39 va]" "ix 30 va"] k2(2) by auto
  obtain k0 where "k0 < n" "G k0 = []" "pte P m k0 (ix 39 va) = page P k1 OR 3"
    using pt_inv_parent [OF inv k1(1), of "[]" "ix 39 va"] k1(2) by auto
  then have k0: "pte P m 0 (ix 39 va) = page P k1 OR 3" using pt_inv_root [OF inv] by blast
  have lt: "P + k1 < 2 ^ 30" "P + k2 < 2 ^ 30" using P n k1(1) k2(1) by simp_all
  show ?thesis
    unfolding x86_translate_def
    by (simp add: c read_index k0 k1(3) pointer_entry [OF lt(1)] pointer_entry [OF lt(2)])
qed

lemma translate_large_entry:
  assumes "P < 2 ^ 20" "pt_inv P G n m" "canonical va" "k2 < n" "G k2 = [ix 39 va, ix 30 va]"
    and "pte P m k2 (ix 21 va) = of_nat q * 0x200000 OR 0x83" "q < 2 ^ 31"
  shows "x86_translate (load64 m) (page P 0) va = Some (of_nat (q * 0x200000 + unat va mod 0x200000))"
  unfolding translate_walk [OF assms(1-5)] assms(6)
  using large_entry [OF assms(7)] page_2m [OF assms(7), of va] by (simp add: Let_def del: of_nat_add of_nat_mult)

lemma translate_page_entry:
  assumes P: "P < 2 ^ 20" and inv: "pt_inv P G n m" and c: "canonical va"
    and k3: "k3 < n" "G k3 = [ix 39 va, ix 30 va, ix 21 va]"
    and e: "pte P m k3 (ix 12 va) = page Q 0 OR 3" "Q < 2 ^ 30"
  shows "x86_translate (load64 m) (page P 0) va = Some (page Q 0 + (va AND 0xFFF))"
proof -
  obtain k2 where k2: "k2 < n" "G k2 = [ix 39 va, ix 30 va]" "pte P m k2 (ix 21 va) = page P k3 OR 3"
    using pt_inv_parent [OF inv k3(1), of "[ix 39 va, ix 30 va]" "ix 21 va"] k3(2) by auto
  have "P + k3 < 2 ^ 30" using P inv k3(1) by (simp add: pt_inv_def)
  note p = pointer_entry [OF this]
  have "Q + 0 < 2 ^ 30" using e(2) by simp
  note q = pointer_entry [OF this]
  show ?thesis
    unfolding translate_walk [OF P inv c k2(1,2)] k2(3) by (simp add: p read_index e(1) q)
qed

section \<open>The identity mapping\<close>

text \<open>The paths of the first six tables: root, its first entry, and one directory per gigabyte.\<close>

definition id_path :: "nat \<Rightarrow> nat list" where
  "id_path j = (if j = 0 then [] else if j = 1 then [0] else [0, j - 2])"

definition identity_done :: "nat \<Rightarrow> nat \<Rightarrow> 64 memory \<Rightarrow> bool" where
  "identity_done P g m \<longleftrightarrow>
     (\<forall>h<g. \<forall>i<512. pte P m (2 + h) i = of_nat (h * 512 + i) * 0x200000 OR 0x83)"

lemma pte_fill:
  assumes "P + n < 2 ^ 30" "P + j < 2 ^ 30" "l < 512" "k \<le> 512"
  shows "pte P (fold (\<lambda>i m'. store64 m' (page P n + 8 * of_nat i) (f i)) [0..<k] m) j l =
     (if j = n \<and> l < k then f l else pte P m j l)"
  using assms(4)
proof (induction k)
  case (Suc k)
  then show ?case using assms by (auto simp: pte_store)
qed simp

lemma fill_frame:
  assumes "P < 2 ^ 20" "n < 48" "outside_pool P x" "k \<le> 512"
  shows "fold (\<lambda>i m'. store64 m' (page P n + 8 * of_nat i) (f i)) [0..<k] m x = m x"
  using assms(4)
proof (induction k)
  case (Suc k)
  then show ?case using assms by (simp add: store_entry_frame)
qed simp

lemma identity_loop_done:
  assumes P: "P < 2 ^ 20" and inv: "pt_inv P id_path (2 + g) m" "identity_done P g m" and g: "g + r \<le> 4"
  obtains m' where "identity_loop (page P 1) g r (pool_at P (2 + g)) m = (True, pool_at P (2 + g + r), m')"
    "pt_inv P id_path (2 + g + r) m'" "identity_done P (g + r) m'" "\<And>x. outside_pool P x \<Longrightarrow> m' x = m x"
  using inv g
proof (induction r arbitrary: g m thesis)
  case 0
  then show ?case by simp
next
  case (Suc r)
  let ?n = "2 + g"
  let ?f = "\<lambda>i. of_nat (g * 512 + i) * 0x200000 OR 0x83 :: u64"
  have n: "?n < 48" using Suc.prems(4) by simp
  have lt: "P + j < 2 ^ 30" if "j \<le> ?n" for j using P n that by simp
  define m1 where "m1 = store64 (memzero m (page P ?n) 4096) (page P 1 + 8 * of_nat g) (page P ?n OR 3)"
  define m2 where "m2 = fold (\<lambda>i m''. store64 m'' (page P ?n + 8 * of_nat i) (?f i)) [0..<512] m1"
  have ptes: "pte P m2 j l = (if j = ?n then ?f l else if j = 1 \<and> l = g then page P ?n OR 3 else pte P m j l)"
    if "j \<le> ?n" "l < 512" for j l
  proof -
    have "pte P m2 j l = (if j = ?n then ?f l else pte P m1 j l)"
      unfolding m2_def using that lt [of j] lt [of ?n] by (subst pte_fill) auto
    moreover have "pte P m1 j l = (if j = 1 \<and> l = g then page P ?n OR 3 else if j = ?n then 0 else pte P m j l)"
      unfolding m1_def using that lt [of j] lt [of ?n] lt [of 1] Suc.prems(4) by (auto simp: pte_store pte_memzero)
    ultimately show ?thesis by simp
  qed
  have step: "identity_loop (page P 1) g (Suc r) (pool_at P ?n) m = identity_loop (page P 1) (Suc g) r (pool_at P (Suc ?n)) m2"
    using P n by (simp add: pt_alloc_at Let_def m2_def m1_def flags_3 HUGE_PAGE_SIZE_def)
  have "pt_inv P (id_path(?n := id_path 1 @ [g])) (Suc ?n) m2"
  proof (rule pt_inv_add [OF Suc.prems(2) n])
    show "id_path k \<noteq> id_path 1 @ [g]" if "k < ?n" for k using that by (auto simp: id_path_def)
    fix l :: nat
    assume l: "l < 512"
    have "g * 512 + l < 2 ^ 31" using l Suc.prems(4) by simp
    then show "pte P m2 ?n l = 0 \<or> length (id_path 1) = 1 \<and> hd (id_path 1) = 0
        \<and> (\<exists>q<2 ^ 31. pte P m2 ?n l = of_nat q * 0x200000 OR 0x83)"
      using ptes [of ?n l] l by (intro disjI2) (auto simp: id_path_def simp del: of_nat_add of_nat_mult)
  qed (use Suc.prems(4) in \<open>auto simp: id_path_def ptes\<close>)
  moreover have "id_path(?n := id_path 1 @ [g]) = id_path" by (auto simp: id_path_def fun_eq_iff)
  ultimately have inv2: "pt_inv P id_path (2 + Suc g) m2" by simp
  have done2: "identity_done P (Suc g) m2"
    using Suc.prems(3) unfolding identity_done_def by (auto simp: ptes less_Suc_eq)
  have fr: "m2 x = m x" if "outside_pool P x" for x
    using that P n Suc.prems(4) by (simp add: m2_def m1_def fill_frame store_entry_frame zero_page_frame)
  show ?case
  proof (rule Suc.IH [OF _ inv2 done2])
    fix m'
    assume "identity_loop (page P 1) (Suc g) r (pool_at P (2 + Suc g)) m2 = (True, pool_at P (2 + Suc g + r), m')"
      "pt_inv P id_path (2 + Suc g + r) m'" "identity_done P (Suc g + r) m'" "\<And>x. outside_pool P x \<Longrightarrow> m' x = m2 x"
    then show thesis using step fr by (intro Suc.prems(1) [of m']) simp_all
  qed (use Suc.prems(4) in simp)
qed

text \<open>The root and the table below its first entry.\<close>

lemma first_tables:
  fixes m0 :: "64 memory"
  assumes P: "P < 2 ^ 20"
  defines "m2 \<equiv> memzero (memzero m0 (page P 0) 4096) (page P 1) 4096"
  defines "m3 \<equiv> store64 m2 (page P 0) (page P 1 OR 3)"
  shows "pt_alloc (pool_at P 0) m0 = (Some (page P 0), pool_at P 1, memzero m0 (page P 0) 4096)"
    "pt_alloc (pool_at P 1) (memzero m0 (page P 0) 4096) = (Some (page P 1), pool_at P 2, m2)"
    "pt_inv P id_path 2 m3" "outside_pool P x \<Longrightarrow> m3 x = m0 x"
proof -
  show "pt_alloc (pool_at P 0) m0 = (Some (page P 0), pool_at P 1, memzero m0 (page P 0) 4096)"
    "pt_alloc (pool_at P 1) (memzero m0 (page P 0) 4096) = (Some (page P 1), pool_at P 2, m2)"
    using P by (simp_all add: pt_alloc_at m2_def numeral_2_eq_2)
  have lt: "P + 0 < 2 ^ 30" "P + 1 < 2 ^ 30" using P by simp_all
  have z: "pte P m2 j l = 0" if "j < 2" "l < 512" for j l
    using that lt by (cases "j = 0") (auto simp: m2_def pte_memzero less_2_cases_iff)
  have m3: "m3 = store64 m2 (page P 0 + 8 * of_nat 0) (page P 1 OR 3)" by (simp add: m3_def)
  have p3: "pte P m3 j l = (if j = 0 \<and> l = 0 then page P 1 OR 3 else 0)" if "j < 2" "l < 512" for j l
    unfolding m3 using that lt z by (subst pte_store) (auto simp: less_2_cases_iff)
  have "pt_inv P id_path 1 m2" using z by (simp add: pt_inv_def id_path_def inj_on_def)
  then have "pt_inv P (id_path(1 := id_path 0 @ [0])) (Suc 1) m3"
    by (rule pt_inv_add) (auto simp: p3 z id_path_def)
  moreover have "id_path(1 := id_path 0 @ [0]) = id_path" by (auto simp: id_path_def fun_eq_iff)
  ultimately show "pt_inv P id_path 2 m3" by (simp add: numeral_2_eq_2)
  show "outside_pool P x \<Longrightarrow> m3 x = m0 x"
    using P store_entry_frame [OF P, of 0 0 x] by (simp add: m3_def m2_def zero_page_frame)
qed

section \<open>The kernel's pages\<close>

definition path3 :: "u64 \<Rightarrow> nat list" where
  "path3 v = [ix 39 v, ix 30 v, ix 21 v]"

definition kernel_page :: "u64 \<Rightarrow> nat \<Rightarrow> u64" where
  "kernel_page vmin i = vmin + of_nat i * PAGE_SIZE"

text \<open>The first \<open>i\<close> pages of the kernel are entered.\<close>

definition pages_done :: "nat \<Rightarrow> u64 \<Rightarrow> u64 \<Rightarrow> (nat \<Rightarrow> nat list) \<Rightarrow> nat \<Rightarrow> nat \<Rightarrow> 64 memory \<Rightarrow> bool" where
  "pages_done P vmin kp G n i m \<longleftrightarrow>
     (\<forall>k<i. \<exists>j<n. G j = path3 (kernel_page vmin k)
        \<and> pte P m j (ix 12 (kernel_page vmin k)) = (kernel_page kp k AND 0x000FFFFFFFFFF000) OR 3)"

text \<open>The paths a run may use, and that different pages use different entries.\<close>

definition pages_ok :: "nat list set \<Rightarrow> u64 \<Rightarrow> nat \<Rightarrow> bool" where
  "pages_ok S vmin L \<longleftrightarrow>
     (\<forall>k<L. let v = kernel_page vmin k in
        [ix 39 v] \<in> S \<and> [ix 39 v, ix 30 v] \<in> S \<and> path3 v \<in> S \<and> ix 39 v \<noteq> 0)
     \<and> (\<forall>k<L. \<forall>l<L. k \<noteq> l \<longrightarrow> (path3 (kernel_page vmin k), ix 12 (kernel_page vmin k))
          \<noteq> (path3 (kernel_page vmin l), ix 12 (kernel_page vmin l)))"

lemma kernel_loop_done:
  assumes P: "P < 2 ^ 20" and S: "finite S" "card S \<le> 48" and ok: "pages_ok S vmin L"
    and "pt_inv P G n m" "G ` {..<n} \<subseteq> S" "pages_done P vmin kp G n i m" "i + r = L"
  shows "\<exists>G' n' m'. kernel_loop (page P 0) vmin kp i r (pool_at P n) m = (True, pool_at P n', m')
     \<and> pt_inv P G' n' m' \<and> pages_done P vmin kp G' n' L m' \<and> n \<le> n' \<and> (\<forall>j<n. G' j = G j)
     \<and> (\<forall>j<n. \<forall>i<512. pte P m j i \<noteq> 0 \<and> length (G j) \<noteq> 3 \<longrightarrow> pte P m' j i = pte P m j i)
     \<and> (\<forall>x. outside_pool P x \<longrightarrow> m' x = m x)"
  using assms(5-8)
proof (induction r arbitrary: i G n m)
  case 0
  then show ?case by (intro exI [of _ G] exI [of _ n] exI [of _ m]) simp
next
  case (Suc r)
  let ?v = "kernel_page vmin i" and ?ph = "kernel_page kp i"
  have i: "i < L" using Suc.prems(4) by simp
  then have paths: "[ix 39 ?v] \<in> S" "[ix 39 ?v, ix 30 ?v] \<in> S" "[ix 39 ?v, ix 30 ?v, ix 21 ?v] \<in> S" "ix 39 ?v \<noteq> 0"
    using ok by (simp_all add: pages_ok_def Let_def path3_def)
  obtain G1 n1 m1 k where s: "map4k (pool_at P n) (page P 0) ?v ?ph m = (True, pool_at P n1, m1)"
    "k < n1" "G1 k = [ix 39 ?v, ix 30 ?v, ix 21 ?v]" "pte P m1 k (ix 12 ?v) = (?ph AND 0x000FFFFFFFFFF000) OR 3"
    "pt_inv P G1 n1 m1" "G1 ` {..<n1} \<subseteq> S" "n \<le> n1" "\<And>j. j < n \<Longrightarrow> G1 j = G j"
    "\<And>x. outside_pool P x \<Longrightarrow> m1 x = m x"
    "\<And>j i'. j < n \<Longrightarrow> i' < 512 \<Longrightarrow> pte P m j i' \<noteq> 0 \<or> length (G j) = 3 \<Longrightarrow>
       (G j, i') \<noteq> ([ix 39 ?v, ix 30 ?v, ix 21 ?v], ix 12 ?v) \<Longrightarrow> pte P m1 j i' = pte P m j i'"
    by (rule map4k_step [OF P Suc.prems(1) S Suc.prems(2) paths, of ?ph]) blast
  have "pages_done P vmin kp G1 n1 (Suc i) m1"
    unfolding pages_done_def
  proof (intro allI impI)
    fix l
    assume l: "l < Suc i"
    show "\<exists>j<n1. G1 j = path3 (kernel_page vmin l)
        \<and> pte P m1 j (ix 12 (kernel_page vmin l)) = (kernel_page kp l AND 0x000FFFFFFFFFF000) OR 3"
    proof (cases "l = i")
      case True
      then show ?thesis using s(2-4) by (auto simp: path3_def)
    next
      case False
      then have li: "l < i" using l by simp
      then obtain j where j: "j < n" "G j = path3 (kernel_page vmin l)"
        "pte P m j (ix 12 (kernel_page vmin l)) = (kernel_page kp l AND 0x000FFFFFFFFFF000) OR 3"
        using Suc.prems(3) by (auto simp: pages_done_def)
      have ne: "(path3 (kernel_page vmin l), ix 12 (kernel_page vmin l)) \<noteq> (path3 ?v, ix 12 ?v)"
        using ok i li False by (simp add: pages_ok_def)
      have "pte P m1 j (ix 12 (kernel_page vmin l)) = pte P m j (ix 12 (kernel_page vmin l))"
        by (rule s(10) [OF j(1)]) (use j(2) ne in \<open>auto simp: path3_def\<close>)
      then show ?thesis using j s(7,8) by (intro exI [of _ j]) auto
    qed
  qed
  then obtain G' n' m' where r: "kernel_loop (page P 0) vmin kp (Suc i) r (pool_at P n1) m1 = (True, pool_at P n', m')"
    "pt_inv P G' n' m'" "pages_done P vmin kp G' n' L m'" "n1 \<le> n'" "\<forall>j<n1. G' j = G1 j"
    "\<forall>j<n1. \<forall>i<512. pte P m1 j i \<noteq> 0 \<and> length (G1 j) \<noteq> 3 \<longrightarrow> pte P m' j i = pte P m1 j i"
    "\<forall>x. outside_pool P x \<longrightarrow> m' x = m1 x"
    using Suc.IH [OF s(5,6)] Suc.prems(4) by (metis add_Suc_shift)
  have "pte P m' j l = pte P m j l" if "j < n" "l < 512" "pte P m j l \<noteq> 0" "length (G j) \<noteq> 3" for j l
  proof -
    have e: "pte P m1 j l = pte P m j l" by (rule s(10)) (use that in auto)
    moreover have "j < n1" "G1 j = G j" using that(1) s(7,8) by auto
    ultimately show ?thesis using r(6) that by simp
  qed
  moreover have "kernel_loop (page P 0) vmin kp i (Suc r) (pool_at P n) m = (True, pool_at P n', m')"
    using s(1) r(1) by (simp add: kernel_page_def)
  moreover have "n \<le> n'" "\<forall>j<n. G' j = G j" "\<forall>x. outside_pool P x \<longrightarrow> m' x = m x"
    using s(7-9) r(4,5,7) by auto
  ultimately show ?case using r(2,3) by blast
qed

section \<open>Where the kernel is linked\<close>

lemma high_digits:
  assumes "0xFFFFFFFF80000000 \<le> unat v"
  shows "ix 39 v = 511" "ix 30 v \<in> {510, 511}"
    "unat v = (0x1FFFFFF * 0x40000 + ix 30 v * 0x200 + ix 21 v) * 0x200000 + ix 12 v * 4096 + unat v mod 4096"
proof -
  have lt: "unat v < 2 ^ 64" using unsigned_less [of v, where ?'a = nat] by simp
  have d: "unat v div 2 ^ 39 = 0x1FFFFFF" using assms lt by (intro div_nat_eqI) simp_all
  then show "ix 39 v = 511" by (simp add: ix_def)
  have "unat v div 2 ^ 30 = 0x3FFFFFFFE \<or> unat v div 2 ^ 30 = 0x3FFFFFFFF"
  proof (cases "unat v < 0xFFFFFFFFC0000000")
    case True
    then have "unat v div 2 ^ 30 = 0x3FFFFFFFE" using assms by (intro div_nat_eqI) simp_all
    then show ?thesis ..
  next
    case False
    then have "unat v div 2 ^ 30 = 0x3FFFFFFFF" using lt by (intro div_nat_eqI) simp_all
    then show ?thesis ..
  qed
  then show "ix 30 v \<in> {510, 511}" by (auto simp: ix_def)
  have "unat v mod 0x200000 = ix 12 v * 4096 + unat v mod 4096"
    using mod_mult2_eq [of "unat v" 4096 512] by (simp add: ix_def mult.commute)
  then show "unat v = (0x1FFFFFF * 0x40000 + ix 30 v * 0x200 + ix 21 v) * 0x200000 + ix 12 v * 4096 + unat v mod 4096"
    using address_digits(1) [of "unat v"] unfolding d ix_def [symmetric] by simp
qed

text \<open>The paths of the tables for up to 64 megabytes from \<open>v\<close>, with those of the identity mapping.\<close>

definition kernel_paths :: "u64 \<Rightarrow> nat list set" where
  "kernel_paths v = {[], [0], [511], [511, 510], [511, 511]} \<union> (\<lambda>g. [0, g]) ` {..<4}
     \<union> (\<lambda>t. [511, t div 512 mod 512, t mod 512]) ` {unat v div 0x200000..unat v div 0x200000 + 32}"

lemma kernel_paths_card: "finite (kernel_paths v)" "card (kernel_paths v) \<le> 48"
proof -
  show "finite (kernel_paths v)" by (simp add: kernel_paths_def)
  let ?A = "{[], [0], [511], [511, 510], [511, 511]} :: nat list set" and ?B = "(\<lambda>g. [0, g]) ` {..<4 :: nat}"
    and ?C = "(\<lambda>t. [511, t div 512 mod 512, t mod 512]) ` {unat v div 0x200000..unat v div 0x200000 + 32}"
  have "card ?A \<le> 5" by (simp add: card_insert_if)
  moreover have "card ?B \<le> 4" using card_image_le [of "{..<4 :: nat}" "\<lambda>g. [0, g]"] by simp
  moreover have "card ?C \<le> 33"
    using card_image_le [of "{unat v div 0x200000..unat v div 0x200000 + 32}" "\<lambda>t. [511, t div 512 mod 512, t mod 512]"] by simp
  moreover have "card (kernel_paths v) \<le> card ?A + card ?B + card ?C"
    unfolding kernel_paths_def using card_Un_le [of "?A \<union> ?B" ?C] card_Un_le [of ?A ?B] by linarith
  ultimately show "card (kernel_paths v) \<le> 48" by linarith
qed

lemma unat_kernel_page:
  "unat v + 4096 * k < 2 ^ 64 \<Longrightarrow> unat (kernel_page v k) = unat v + 4096 * k"
proof -
  assume a: "unat v + 4096 * k < 2 ^ 64"
  have "kernel_page v k = of_nat (unat v + 4096 * k)" by (simp add: kernel_page_def PAGE_SIZE_def)
  then show ?thesis using a by (simp only: unat_of_nat) (simp add: take_bit_nat_eq_self)
qed

lemma kernel_pages_ok:
  assumes v: "0xFFFFFFFF80000000 \<le> unat v" and L: "L \<le> 16384" "\<And>k. k < L \<Longrightarrow> unat v + 4096 * k < 2 ^ 64"
  shows "pages_ok (kernel_paths v) v L"
proof -
  have u: "unat (kernel_page v k) = unat v + 4096 * k" if "k < L" for k using L(2) [OF that] by (rule unat_kernel_page)
  have hi: "0xFFFFFFFF80000000 \<le> unat (kernel_page v k)" if "k < L" for k using u [OF that] v by simp
  have "path3 (kernel_page v k) \<in> kernel_paths v" if k: "k < L" for k
  proof -
    define t where "t = unat (kernel_page v k) div 0x200000"
    have "t div 512 = unat (kernel_page v k) div 2 ^ 30"
      using div_mult2_eq [of "unat (kernel_page v k)" "0x200000" 512] by (simp add: t_def)
    then have "path3 (kernel_page v k) = [511, t div 512 mod 512, t mod 512]"
      using high_digits(1) [OF hi [OF k]] by (simp add: path3_def ix_def t_def)
    moreover have "unat v div 0x200000 \<le> t" "t \<le> unat v div 0x200000 + 32"
    proof -
      have "unat v \<le> unat (kernel_page v k)" "unat (kernel_page v k) \<le> unat v + 32 * 0x200000"
        using u [OF k] k L(1) by simp_all
      then have "unat v div 0x200000 \<le> t" "t \<le> (unat v + 32 * 0x200000) div 0x200000"
        unfolding t_def by (auto intro: div_le_mono)
      then show "unat v div 0x200000 \<le> t" "t \<le> unat v div 0x200000 + 32" by simp_all
    qed
    ultimately show ?thesis by (auto simp: kernel_paths_def)
  qed
  moreover have "[ix 39 (kernel_page v k)] \<in> kernel_paths v" "[ix 39 (kernel_page v k), ix 30 (kernel_page v k)] \<in> kernel_paths v"
    "ix 39 (kernel_page v k) \<noteq> 0" if "k < L" for k
    using high_digits [OF hi [OF that]] by (auto simp: kernel_paths_def)
  moreover have "k = l" if "k < L" "l < L" "path3 (kernel_page v k) = path3 (kernel_page v l)"
    "ix 12 (kernel_page v k) = ix 12 (kernel_page v l)" for k l
  proof -
    have e: "unat (kernel_page v k) mod 4096 = unat (kernel_page v l) mod 4096"
      "ix 30 (kernel_page v k) = ix 30 (kernel_page v l)" "ix 21 (kernel_page v k) = ix 21 (kernel_page v l)"
      using u that by (simp_all add: path3_def)
    have "unat (kernel_page v k) = unat (kernel_page v l)"
      by (rule trans [OF high_digits(3) [OF hi [OF that(1)], unfolded e that(4)] high_digits(3) [OF hi [OF that(2)], symmetric]])
    then show ?thesis using u that by simp
  qed
  ultimately show ?thesis unfolding pages_ok_def Let_def by blast
qed

section \<open>The whole structure\<close>

lemma page_mask: "Q < 2 ^ 30 \<Longrightarrow> page Q 0 AND 0x000FFFFFFFFFF000 = page Q 0"
proof -
  assume "Q < 2 ^ 30"
  then have "entry_address (page Q 0 OR 3) = page Q 0" by (intro pointer_entry) simp
  moreover have "(page Q 0 OR 3) AND 0x000FFFFFFFFFF000 = page Q 0 AND 0x000FFFFFFFFFF000 OR 3 AND 0x000FFFFFFFFFF000"
    by (rule bit.conj_disj_distrib2)
  ultimately show ?thesis by (simp add: entry_address_def)
qed

lemma fill_tables_done:
  assumes P: "P + 48 \<le> 2 ^ 20" and v: "0xFFFFFFFF80000000 \<le> unat (virtual_min s)"
    and L: "L = unat (pages_for (virtual_max s - virtual_min s))" "L \<le> 16384"
    and fits: "\<And>k. k < L \<Longrightarrow> unat (virtual_min s) + 4096 * k < 2 ^ 64"
  obtains G n m' where "fill_tables kp s (page P 0) m = (Some (page P 0), m')" "pt_inv P G n m'"
    "pages_done P (virtual_min s) kp G n L m'" "6 \<le> n" "\<And>j. j < 6 \<Longrightarrow> G j = id_path j" "identity_done P 4 m'"
    "\<And>x. outside_pool P x \<Longrightarrow> m' x = m x"
proof -
  have P': "P < 2 ^ 20" using P by simp
  define mz where "mz = memzero m (page P 0) (unat (PAGE_TABLE_POOL_PAGES * PAGE_SIZE))"
  define m3 where "m3 = store64 (memzero (memzero mz (page P 0) 4096) (page P 1) 4096) (page P 0) (page P 1 OR 3)"
  note ft = first_tables [OF P', where ?m0.0 = mz, folded m3_def]
  have "identity_done P 0 m3" by (simp add: identity_done_def)
  then obtain m4 where m4: "identity_loop (page P 1) 0 4 (pool_at P 2) m3 = (True, pool_at P 6, m4)"
    "pt_inv P id_path 6 m4" "identity_done P 4 m4" "\<And>x. outside_pool P x \<Longrightarrow> m4 x = m3 x"
    using identity_loop_done [OF P', of 0 m3 4] ft(3) by auto
  have img: "id_path ` {..<6} \<subseteq> kernel_paths (virtual_min s)"
    by (auto simp: id_path_def kernel_paths_def less_diff_conv2)
  have "pages_done P (virtual_min s) kp id_path 6 0 m4" by (simp add: pages_done_def)
  then obtain G n m' where k: "kernel_loop (page P 0) (virtual_min s) kp 0 L (pool_at P 6) m4 = (True, pool_at P n, m')"
    "pt_inv P G n m'" "pages_done P (virtual_min s) kp G n L m'" "6 \<le> n" "\<forall>j<6. G j = id_path j"
    "\<forall>j<6. \<forall>i<512. pte P m4 j i \<noteq> 0 \<and> length (id_path j) \<noteq> 3 \<longrightarrow> pte P m' j i = pte P m4 j i"
    "\<forall>x. outside_pool P x \<longrightarrow> m' x = m4 x"
    using kernel_loop_done [OF P' kernel_paths_card kernel_pages_ok [OF v L(2) fits] m4(2) img, of kp 0 L] by auto
  have "identity_done P 4 m'"
    unfolding identity_done_def
  proof (intro allI impI)
    fix h i :: nat
    assume hi: "h < 4" "i < 512"
    then have "pte P m4 (2 + h) i = of_nat (h * 512 + i) * 0x200000 OR 0x83" using m4(3) by (simp add: identity_done_def)
    moreover then have "pte P m4 (2 + h) i \<noteq> 0" using large_entry(2) [of "h * 512 + i"] hi by auto
    ultimately show "pte P m' (2 + h) i = of_nat (h * 512 + i) * 0x200000 OR 0x83"
      using k(6) hi by (simp add: id_path_def)
  qed
  moreover have "m' x = m x" if x: "outside_pool P x" for x
  proof -
    have "x \<notin> region (page P 0) 196608"
      using x P unat_page [of P 0] by (subst region_bounds) (auto simp: outside_pool_def)
    then have "mz x = m x" by (simp add: mz_def memzero_frame PAGE_TABLE_POOL_PAGES_def PAGE_SIZE_def)
    then show ?thesis using k(7) m4(4) ft(4) x by simp
  qed
  moreover have "fill_tables kp s (page P 0) m = (Some (page P 0), m')"
  proof -
    have pool: "\<lparr> pool_cursor = page P 0, pool_end = page P 0 + PAGE_TABLE_POOL_PAGES * PAGE_SIZE \<rparr> = pool_at P 0"
      by (simp add: pool_at_def page_def PAGE_TABLE_POOL_PAGES_def PAGE_SIZE_def)
    show ?thesis
      unfolding fill_tables_def Let_def pool mz_def [symmetric] ft(1) prod.case ft(2)
      by (simp add: flags_3 m3_def [symmetric] IDENTITY_GIB_def m4(1) L(1) [symmetric] k(1) del: One_nat_def)
  qed
  ultimately show ?thesis using k(2-5) that by blast
qed

lemma translate_identity:
  assumes P: "P < 2 ^ 20" and inv: "pt_inv P G n m" and n: "6 \<le> n" and G: "\<And>j. j < 6 \<Longrightarrow> G j = id_path j"
    and i: "identity_done P 4 m" and va: "unat va < 2 ^ 32"
  shows "x86_translate (load64 m) (page P 0) va = Some va"
proof -
  define g where "g = unat va div 2 ^ 30"
  have g: "g < 4" using va by (simp add: g_def div_less_iff_less_mult)
  have ixs: "ix 39 va = 0" "ix 30 va = g" using va g by (simp_all add: ix_def g_def)
  have c: "canonical va" using va by (simp add: canonical_iff)
  let ?q = "g * 512 + ix 21 va"
  have "?q < 2048" using g ix_less [of 21 va] by linarith
  then have q: "?q < 2 ^ 31" by simp
  have "x86_translate (load64 m) (page P 0) va = Some (of_nat (?q * 0x200000 + unat va mod 0x200000))"
  proof (rule translate_large_entry [OF P inv c _ _ _ q])
    show "2 + g < n" using g n by simp
    show "G (2 + g) = [ix 39 va, ix 30 va]" using G [of "2 + g"] g ixs by (simp add: id_path_def)
    show "pte P m (2 + g) (ix 21 va) = of_nat ?q * 0x200000 OR 0x83"
      using i g by (simp add: identity_done_def)
  qed
  moreover have "?q * 0x200000 + unat va mod 0x200000 = unat va"
  proof -
    have "unat va div 2 ^ 39 = 0" using va by simp
    moreover have "unat va div 2 ^ 30 mod 512 = g" using ixs(2) by (simp add: ix_def)
    ultimately show ?thesis
      using address_digits(1) [of "unat va"] by (simp add: ix_def)
  qed
  ultimately have "x86_translate (load64 m) (page P 0) va = Some (of_nat (unat va))" by (simp only:)
  then show ?thesis by simp
qed

text \<open>Two addresses of one page share their table indices.\<close>

lemma same_page_ix:
  assumes "unat a div 4096 = unat b div 4096" "12 \<le> s"
  shows "ix s a = ix s b"
proof -
  have p: "(4096 :: nat) * 2 ^ (s - 12) = 2 ^ s"
    using assms(2) power_add [of "2 :: nat" 12 "s - 12"] by simp
  have "unat v div 2 ^ s = unat v div 4096 div 2 ^ (s - 12)" for v :: u64
    using div_mult2_eq [of "unat v" 4096 "2 ^ (s - 12)"] unfolding p .
  then show ?thesis using assms(1) by (simp add: ix_def)
qed

lemma translate_kernel:
  assumes P: "P < 2 ^ 20" and inv: "pt_inv P G n m" and pages: "pages_done P vmin (page K 0) G n L m"
    and v: "0xFFFFFFFF80000000 \<le> unat vmin" and fits: "\<And>k. k < L \<Longrightarrow> unat vmin + 4096 * k < 2 ^ 64"
    and K: "K + L \<le> 2 ^ 20"
    and va: "unat vmin div 4096 \<le> unat va div 4096" "unat va div 4096 < unat vmin div 4096 + L"
  shows "x86_translate (load64 m) (page P 0) va = Some (page K 0 + of_nat (unat va - 4096 * (unat vmin div 4096)))"
proof -
  define k where "k = unat va div 4096 - unat vmin div 4096"
  have k: "k < L" using va by (simp add: k_def)
  let ?v = "kernel_page vmin k"
  have u: "unat ?v = unat vmin + 4096 * k" using fits [OF k] by (rule unat_kernel_page)
  have "unat ?v div 4096 = unat va div 4096" unfolding u using va(1) by (simp add: k_def)
  then have ixs: "ix s va = ix s ?v" if "12 \<le> s" for s using that by (intro same_page_ix) simp_all
  obtain j where j: "j < n" "G j = path3 ?v" "pte P m j (ix 12 ?v) = (kernel_page (page K 0) k AND 0x000FFFFFFFFFF000) OR 3"
    using pages k by (auto simp: pages_done_def)
  have pg: "kernel_page (page K 0) k = page (K + k) 0" by (simp add: kernel_page_def page_def PAGE_SIZE_def)
  have Kk: "K + k < 2 ^ 30" using K k by simp
  have ge: "0xFFFFFFFF80000000 \<le> unat va"
  proof -
    have "0xFFFFFFFF80000000 div 4096 \<le> unat vmin div 4096" using v by (rule div_le_mono)
    then have "0xFFFFFFFF80000000 div 4096 \<le> unat va div 4096" using va(1) by linarith
    then show ?thesis by (simp add: less_eq_div_iff_mult_less_eq)
  qed
  have "x86_translate (load64 m) (page P 0) va = Some (page (K + k) 0 + (va AND 0xFFF))"
  proof (rule translate_page_entry [OF P inv _ j(1)])
    show "canonical va" using ge by (simp add: canonical_iff)
    show "G j = [ix 39 va, ix 30 va, ix 21 va]" using j(2) by (simp add: path3_def ixs)
    show "pte P m j (ix 12 va) = page (K + k) 0 OR 3" using j(3) by (simp add: ixs pg page_mask [OF Kk])
  qed (rule Kk)
  moreover have "page (K + k) 0 + (va AND 0xFFF) = page K 0 + of_nat (unat va - 4096 * (unat vmin div 4096))"
  proof -
    have m: "(0xFFF :: u64) = mask 12" by (simp add: mask_eq_exp_minus_1)
    have "unat (va AND 0xFFF) = unat va mod 4096"
      by (simp only: m take_bit_eq_mask [symmetric] unsigned_take_bit_eq) (simp add: take_bit_eq_mod)
    then have low: "va AND 0xFFF = of_nat (unat va mod 4096)" by (simp add: word_unat_eq_iff unat_of_nat take_bit_nat_eq_self)
    have "4096 * (unat vmin div 4096) \<le> 4096 * (unat va div 4096)" using va(1) by simp
    then have "unat va - 4096 * (unat vmin div 4096) = 4096 * k + unat va mod 4096"
      using mult_div_mod_eq [of 4096 "unat va"] unfolding k_def diff_mult_distrib2 by linarith
    then show ?thesis unfolding low by (simp add: page_def distrib_left)
  qed
  ultimately show ?thesis by simp
qed

lemma page_of_aligned:
  assumes "unat a mod 4096 = 0"
  shows "4096 * (unat a div 4096) = unat a" "page (unat a div 4096) 0 = a"
proof -
  show e: "4096 * (unat a div 4096) = unat a" using mult_div_mod_eq [of 4096 "unat a"] assms by linarith
  then show "page (unat a div 4096) 0 = a" by (simp only: page_def add_0_right e) simp
qed

text \<open>Only the pool matters to the translation: the tables may be used in a memory that has changed elsewhere.\<close>

lemma pte_pool:
  assumes "P + 48 \<le> 2 ^ 20" "j < 48" "i < 512" "\<And>x. x \<in> page_range (page P 0) 48 \<Longrightarrow> m' x = m x"
  shows "pte P m' j i = pte P m j i"
proof -
  have lt: "P + j < 2 ^ 30" "P + 0 < 2 ^ 30" using assms(1,2) by simp_all
  have "mem_bytes m' (page P j + 8 * of_nat i) 8 = mem_bytes m (page P j + 8 * of_nat i) 8"
  proof (rule mem_bytes_eqI)
    fix x
    assume "x \<in> region (page P j + 8 * of_nat i) 8"
    then have "4096 * (P + j) + 8 * i \<le> unat x" "unat x < 4096 * (P + j) + 8 * i + 8"
      using region_entry [OF lt(1) assms(3)] by simp_all
    then have "x \<in> page_range (page P 0) 48"
      using assms(2,3) unat_page [OF lt(2)] by (simp add: page_range_def)
    then show "m' x = m x" by (rule assms(4))
  qed simp
  then show ?thesis by (simp add: pte_def load64_def)
qed

lemma tables_cong:
  assumes eq: "\<And>j i. j < 48 \<Longrightarrow> i < 512 \<Longrightarrow> pte P m' j i = pte P m j i" and inv: "pt_inv P G n m"
  shows "pt_inv P G n m'" "pages_done P v kp G n L m \<Longrightarrow> pages_done P v kp G n L m'"
    "identity_done P 4 m \<Longrightarrow> identity_done P 4 m'"
proof -
  have n: "n \<le> 48" using inv by (simp add: pt_inv_def)
  have e: "pte P m' j i = pte P m j i" if "j < n" "i < 512" for j i using that n by (intro eq) simp_all
  show "pt_inv P G n m'"
    using inv unfolding pt_inv_def by (simp add: e cong: conj_cong)
  show "pages_done P v kp G n L m \<Longrightarrow> pages_done P v kp G n L m'"
    unfolding pages_done_def by (simp add: e ix_less cong: conj_cong)
  show "identity_done P 4 m \<Longrightarrow> identity_done P 4 m'"
    unfolding identity_done_def by (simp add: eq)
qed

text \<open>The number of pages of the kernel, and that their addresses do not wrap.\<close>

lemma kernel_page_count:
  assumes "virtual_min s < virtual_max s" "virtual_max s - virtual_min s \<le> 0x4000000"
  defines "L \<equiv> unat (pages_for (virtual_max s - virtual_min s))"
  shows "L \<le> 16384" "\<And>k. k < L \<Longrightarrow> unat (virtual_min s) + 4096 * k < 2 ^ 64"
    "unat (virtual_max s) \<le> unat (virtual_min s) + 4096 * L"
proof -
  have le: "unat (virtual_max s - virtual_min s) \<le> 0x4000000" using assms(2) by (simp add: word_le_nat_alt)
  have d: "unat (virtual_max s - virtual_min s) = unat (virtual_max s) - unat (virtual_min s)"
    using assms(1) by (intro unat_diff_le) simp
  have lt: "unat (virtual_min s) < unat (virtual_max s)" using assms(1) by (simp add: word_less_nat_alt)
  have Leq: "L = (unat (virtual_max s - virtual_min s) + 4095) div 4096"
    unfolding L_def using le by (intro pages_for_spec) simp
  then show "L \<le> 16384" using le by (simp add: div_le_mono [of _ "0x4000000 + 4095" 4096, simplified])
  have "unat (virtual_max s - virtual_min s) + 4095 < 4096 * L + 4096"
    unfolding Leq using dividend_less_times_div [of 4096 "unat (virtual_max s - virtual_min s) + 4095"] by simp
  then show "unat (virtual_max s) \<le> unat (virtual_min s) + 4096 * L" using d lt by linarith
  fix k
  assume "k < L"
  then have "4096 * (k + 1) \<le> 4096 * L" by simp
  also have "\<dots> \<le> unat (virtual_max s - virtual_min s) + 4095" unfolding Leq by simp
  finally show "unat (virtual_min s) + 4096 * k < 2 ^ 64"
    using d lt unsigned_less [of "virtual_max s", where ?'a = nat] by simp
qed

lemma fill_tables_translate:
  assumes pa: "unat pa mod 4096 = 0" "unat pa + 4096 * 48 \<le> 2 ^ 32"
    and kp: "unat kp mod 4096 = 0" "unat kp + 4096 * unat (pages_for (virtual_max s - virtual_min s)) \<le> 2 ^ 32"
    and v: "unat (virtual_min s) mod 4096 = 0" "0xFFFFFFFF80000000 \<le> virtual_min s"
      "virtual_min s < virtual_max s" "virtual_max s - virtual_min s \<le> 0x4000000"
  obtains m' where "fill_tables kp s pa m = (Some pa, m')"
    "\<And>x. x \<notin> page_range pa 48 \<Longrightarrow> m' x = m x"
    "\<And>m'' va. \<forall>x \<in> page_range pa 48. m'' x = m' x \<Longrightarrow> va < 0x100000000 \<Longrightarrow>
       x86_translate (load64 m'') pa va = Some va"
    "\<And>m'' va. \<forall>x \<in> page_range pa 48. m'' x = m' x \<Longrightarrow> virtual_min s \<le> va \<Longrightarrow> va < virtual_max s \<Longrightarrow>
       x86_translate (load64 m'') pa va = Some (kp + (va - virtual_min s))"
proof -
  define P where "P = unat pa div 4096"
  define K where "K = unat kp div 4096"
  define L where "L = unat (pages_for (virtual_max s - virtual_min s))"
  have pa': "pa = page P 0" "unat pa = 4096 * P" and kp': "kp = page K 0" "unat kp = 4096 * K"
    using page_of_aligned [OF pa(1)] page_of_aligned [OF kp(1)] by (simp_all add: P_def K_def)
  have P: "P + 48 \<le> 2 ^ 20" "P < 2 ^ 20" using pa(2) pa'(2) by simp_all
  have K: "K + L \<le> 2 ^ 20" using kp(2) kp'(2) by (simp add: L_def)
  note count = kernel_page_count [OF v(3,4), folded L_def]
  have v': "0xFFFFFFFF80000000 \<le> unat (virtual_min s)" using v(2) by (simp add: word_le_nat_alt)
  obtain G n m' where t: "fill_tables kp s (page P 0) m = (Some (page P 0), m')" "pt_inv P G n m'"
    "pages_done P (virtual_min s) kp G n L m'" "6 \<le> n" "\<And>j. j < 6 \<Longrightarrow> G j = id_path j" "identity_done P 4 m'"
    "\<And>x. outside_pool P x \<Longrightarrow> m' x = m x"
    by (rule fill_tables_done [OF P(1) v' L_def count(1,2), of kp m]) (assumption, rule that)
  have keep: "pt_inv P G n m''" "pages_done P (virtual_min s) kp G n L m''" "identity_done P 4 m''"
    if "\<forall>x \<in> page_range pa 48. m'' x = m' x" for m''
    using tables_cong [OF pte_pool [OF P(1)] t(2), of m''] that t(3,6) by (simp_all add: pa'(1))
  show ?thesis
  proof (rule that [of m'])
    show "fill_tables kp s pa m = (Some pa, m')" using t(1) by (simp add: pa'(1))
    show "m' x = m x" if "x \<notin> page_range pa 48" for x
      using that pa'(2) by (intro t(7)) (auto simp: outside_pool_def page_range_def)
    show "x86_translate (load64 m'') pa va = Some va"
      if "\<forall>x \<in> page_range pa 48. m'' x = m' x" "va < 0x100000000" for m'' va
    proof -
      have "unat va < 2 ^ 32" using that(2) by (simp add: word_less_nat_alt)
      with keep [OF that(1)] t(4,5) show ?thesis unfolding pa'(1) by (intro translate_identity [OF P(2)])
    qed
    show "x86_translate (load64 m'') pa va = Some (kp + (va - virtual_min s))"
      if same: "\<forall>x \<in> page_range pa 48. m'' x = m' x" and va: "virtual_min s \<le> va" "va < virtual_max s" for m'' va
    proof -
      have e: "4096 * (unat (virtual_min s) div 4096) = unat (virtual_min s)" by (rule page_of_aligned(1) [OF v(1)])
      have le: "unat (virtual_min s) \<le> unat va" "unat va < unat (virtual_max s)"
        using va by (simp_all add: word_le_nat_alt word_less_nat_alt)
      have "unat va < 4096 * (unat (virtual_min s) div 4096 + L)" using count(3) le(2) e by simp
      then have "unat va div 4096 < unat (virtual_min s) div 4096 + L" by (simp add: less_mult_imp_div_less mult.commute)
      from translate_kernel [OF P(2) keep(1) [OF same] keep(2) [OF same, unfolded kp'(1)] v' count(2) K div_le_mono [OF le(1)] this]
      have "x86_translate (load64 m'') pa va = Some (kp + of_nat (unat va - unat (virtual_min s)))"
        by (simp add: pa'(1) kp'(1) e)
      then show ?thesis unfolding unat_diff_le [OF va(1), symmetric] by simp
    qed
  qed
qed

lemma zeroed_pages:
  fixes sp :: u64
  assumes "unat sp + 4096 * 4 \<le> 2 ^ 32"
  shows "x \<in> page_range sp 4 \<Longrightarrow> memzero m sp 0x4000 x = 0"
    and "x \<notin> page_range sp 4 \<Longrightarrow> memzero m sp 0x4000 x = m x"
proof -
  have reg: "x \<in> region sp 0x4000 \<longleftrightarrow> x \<in> page_range sp 4"
    using assms by (subst region_bounds) (auto simp: page_range_def)
  show "memzero m sp 0x4000 x = 0" if "x \<in> page_range sp 4"
  proof -
    have "x \<in> region sp 0x4000" using that reg by simp
    then show ?thesis by (simp add: memzero_store mem_store_apply region_def)
  qed
  show "memzero m sp 0x4000 x = m x" if "x \<notin> page_range sp 4" using that reg by (simp add: memzero_frame)
qed

text \<open>
  C9. The page tables of the UEFI loader. For a kernel that is linked page-aligned in the top two
  gigabytes and spans at most 64 megabytes, in page-aligned memory below four gigabytes, and a firmware
  that allocates memory as the UEFI specification says: \<open>build_tables\<close> fails only with an error the
  firmware returned, so that the pool of 48 tables always suffices. Otherwise the tables at the root it
  returns map the low four gigabytes onto themselves and every address of the kernel onto the memory the
  kernel was loaded to; the stack pointer is aligned to 16 bytes at the top of 16 kilobytes of zeros
  below four gigabytes; and no memory that was in use before is changed.
\<close>
theorem uefi_tables_translate:
  assumes "allocates_pages allocate free"
    and "unat kp mod 4096 = 0" "unat kp + 4096 * unat (pages_for (virtual_max s - virtual_min s)) \<le> 2 ^ 32"
    and "unat (virtual_min s) mod 4096 = 0" "0xFFFFFFFF80000000 \<le> virtual_min s"
      "virtual_min s < virtual_max s" "virtual_max s - virtual_min s \<le> 0x4000000"
  shows "case build_tables allocate kp s st of
      (Inl status, st') \<Rightarrow> EFI_ERROR status
        \<and> (case allocate 48 0xFFFFFFFF (uf_firmware st) of
             (status1, pa, f) \<Rightarrow> status = status1 \<or> status = fst (allocate 4 0xFFFFFFFF f))
    | (Inr (root, stack), st') \<Rightarrow>
        (\<forall>va. va < 0x100000000 \<longrightarrow> x86_translate (load64 (uf_mem st')) root va = Some va)
        \<and> (\<forall>va. virtual_min s \<le> va \<and> va < virtual_max s \<longrightarrow>
              x86_translate (load64 (uf_mem st')) root va = Some (kp + (va - virtual_min s)))
        \<and> unat stack mod 16 = 0 \<and> 0x4000 \<le> unat stack + 16 \<and> unat stack + 16 \<le> 2 ^ 32
        \<and> (\<forall>x. unat stack + 16 - 0x4000 \<le> unat x \<and> unat x < unat stack + 16 \<longrightarrow> uf_mem st' x = 0)
        \<and> (\<forall>x. x \<notin> free (uf_firmware st) \<longrightarrow> uf_mem st' x = uf_mem st x)"
proof -
  obtain status1 a1 st1 where al1: "alloc_low (Some allocate) PAGE_TABLE_POOL_PAGES (Some 0) st = (status1, a1, st1)"
    by (cases "alloc_low (Some allocate) PAGE_TABLE_POOL_PAGES (Some 0) st")
  show ?thesis
  proof (cases "EFI_ERROR status1")
    case True
    then show ?thesis
      using al1 by (auto simp: build_tables_def alloc_low_def PAGE_TABLE_POOL_PAGES_def split: prod.splits)
  next
    case ok1: False
    obtain pa where pa: "a1 = Some pa" "unat pa mod 4096 = 0" "unat pa + 4096 * 48 \<le> 2 ^ 32"
      "page_range pa 48 \<subseteq> free (uf_firmware st)" "uf_mem st1 = uf_mem st"
      "free (uf_firmware st1) = free (uf_firmware st) - page_range pa 48"
      using allocates_pagesD [OF assms(1) al1 ok1] by (auto simp: PAGE_TABLE_POOL_PAGES_def)
    obtain m' where fill: "fill_tables kp s pa (uf_mem st1) = (Some pa, m')"
      and frame: "\<And>x. x \<notin> page_range pa 48 \<Longrightarrow> m' x = uf_mem st1 x"
      and low: "\<And>m'' va. \<forall>x \<in> page_range pa 48. m'' x = m' x \<Longrightarrow> va < 0x100000000 \<Longrightarrow>
         x86_translate (load64 m'') pa va = Some va"
      and high: "\<And>m'' va. \<forall>x \<in> page_range pa 48. m'' x = m' x \<Longrightarrow> virtual_min s \<le> va \<Longrightarrow> va < virtual_max s \<Longrightarrow>
         x86_translate (load64 m'') pa va = Some (kp + (va - virtual_min s))"
      by (rule fill_tables_translate [OF pa(2,3) assms(2-7), where m = "uf_mem st1"]) (rule that)
    obtain status2 a2 st2 where al2: "alloc_low (Some allocate) 4 (Some 0) (st1\<lparr> uf_mem := m' \<rparr>) = (status2, a2, st2)"
      by (cases "alloc_low (Some allocate) 4 (Some 0) (st1\<lparr> uf_mem := m' \<rparr>)")
    show ?thesis
    proof (cases "EFI_ERROR status2")
      case True
      then show ?thesis
        using al1 al2 ok1 fill pa(1)
        by (auto simp: build_tables_def alloc_low_def PAGE_TABLE_POOL_PAGES_def split: prod.splits)
    next
      case ok2: False
      obtain sp where sp: "a2 = Some sp" "unat sp mod 4096 = 0" "unat sp + 4096 * 4 \<le> 2 ^ 32"
        "page_range sp 4 \<subseteq> free (uf_firmware st1)" "uf_mem st2 = m'"
        by (rule allocates_pagesD [OF assms(1) al2 ok2]) auto
      define m'' where "m'' = memzero m' sp 0x4000"
      have run: "build_tables allocate kp s st = (Inr (pa, sp + 0x3FF0), st2\<lparr> uf_mem := m'' \<rparr>)"
        using al1 al2 ok1 ok2 fill pa(1) sp(1,5) by (simp add: build_tables_def m''_def PAGE_SIZE_def)
      have stack: "unat (sp + 0x3FF0) = unat sp + 0x3FF0" using sp(3) by (simp add: unat_add_lem [THEN iffD1])
      note wiped = zeroed_pages [OF sp(3), where m = m', folded m''_def]
      have same: "\<forall>x \<in> page_range pa 48. m'' x = m' x" using pa(6) sp(4) by (intro ballI wiped(2)) auto
      have keep: "m'' x = uf_mem st x" if "x \<notin> free (uf_firmware st)" for x
        using that pa(4-6) sp(4) wiped(2) [of x] frame [of x] by (metis DiffD1 subsetD)
      have "unat sp mod 16 = 0" using sp(2) using mod_mod_cancel [of 16 4096 "unat sp"] by simp
      then show ?thesis
        unfolding run using low [OF same] high [OF same] wiped(1) keep sp(3)
        by (auto simp: stack page_range_def mod_add_eq)
    qed
  qed
qed

text \<open>A firmware that hands out pages one after the other; its state is the first free page.\<close>

definition bump_allocate :: "nat allocate_pages" where
  "bump_allocate n limit f =
     (if 4096 * (f + unat n) \<le> unat limit + 1 then (EFI_SUCCESS, of_nat (4096 * f), f + unat n)
      else (EFI_OUT_OF_RESOURCES, 0, f))"

lemma bump_allocates: "allocates_pages bump_allocate (\<lambda>f. {x. 4096 * f \<le> unat x})"
  unfolding allocates_pages_def
proof (intro allI impI)
  fix n limit :: u64 and f status a f'
  assume eq: "bump_allocate n limit f = (status, a, f')"
  show "if EFI_ERROR status then {x :: u64. 4096 * f' \<le> unat x} = {x. 4096 * f \<le> unat x}
     else unat a mod 4096 = 0 \<and> unat a + 4096 * unat n \<le> unat limit + 1
       \<and> page_range a (unat n) \<subseteq> {x. 4096 * f \<le> unat x}
       \<and> {x :: u64. 4096 * f' \<le> unat x} = {x. 4096 * f \<le> unat x} - page_range a (unat n)"
  proof (cases "4096 * (f + unat n) \<le> unat limit + 1")
    case False
    then show ?thesis using eq by (auto simp: bump_allocate_def)
  next
    case True
    have lim: "unat limit < 2 ^ 64" using unsigned_less [of limit, where ?'a = nat] by simp
    have r: "\<not> EFI_ERROR status" "a = of_nat (4096 * f)" "f' = f + unat n" using eq True by (simp_all add: bump_allocate_def)
    have "unat a = 4096 * f mod 2 ^ 64" using r(2) by (simp only: unat_of_nat) (simp add: take_bit_eq_mod)
    moreover have "4096 * f < 2 ^ 64 \<or> 4096 * f = 2 ^ 64 \<and> unat n = 0" using True lim by (cases "unat n = 0") auto
    ultimately have "unat a = 4096 * f \<or> 4096 * f = 2 ^ 64 \<and> unat n = 0 \<and> unat a = 0" by (elim disjE conjE) simp_all
    then show ?thesis using r True by (auto simp: page_range_def)
  qed
qed

theorem uefi_tables_translate_witness:
  "\<exists>root stack st'. build_tables bump_allocate 0xFFFFF000 \<lparr> sum_entry = 0xFFFFFFFF80000000, virtual_min = 0xFFFFFFFF80000000,
        virtual_max = 0xFFFFFFFF80001000, load_segment_count = 1 \<rparr> \<lparr> uf_firmware = 0x100, uf_mem = \<lambda>_. 0, uf_serial = [] \<rparr>
        = (Inr (root, stack), st')
     \<and> x86_translate (load64 (uf_mem st')) root 0xFFFFFFFF80000010 = Some 0xFFFFF010"
proof -
  let ?s = "\<lparr> sum_entry = 0xFFFFFFFF80000000, virtual_min = 0xFFFFFFFF80000000,
        virtual_max = 0xFFFFFFFF80001000, load_segment_count = 1 \<rparr>"
  let ?st = "\<lparr> uf_firmware = 0x100, uf_mem = \<lambda>_. 0, uf_serial = [] \<rparr>"
  let ?r = "build_tables bump_allocate 0xFFFFF000 ?s ?st"
  have "pages_for 0x1000 = 1" by (simp add: pages_for_def PAGE_SIZE_def)
  then have t: "case ?r of
      (Inl status, st') \<Rightarrow> EFI_ERROR status
        \<and> (case bump_allocate 48 0xFFFFFFFF (uf_firmware ?st) of
             (status1, pa, f) \<Rightarrow> status = status1 \<or> status = fst (bump_allocate 4 0xFFFFFFFF f))
    | (Inr (root, stack), st') \<Rightarrow>
        \<forall>va. virtual_min ?s \<le> va \<and> va < virtual_max ?s \<longrightarrow>
              x86_translate (load64 (uf_mem st')) root va = Some (0xFFFFF000 + (va - virtual_min ?s))"
    using uefi_tables_translate [OF bump_allocates, of "0xFFFFF000" ?s ?st]
    by (auto simp: word_le_nat_alt word_less_nat_alt split: prod.splits sum.splits)
  have "\<not> EFI_ERROR status" if "case bump_allocate 48 0xFFFFFFFF (uf_firmware ?st) of
      (status1, pa, f) \<Rightarrow> status = status1 \<or> status = fst (bump_allocate 4 0xFFFFFFFF f)" for status
    using that by (auto simp: bump_allocate_def)
  then obtain root stack st' where "?r = (Inr (root, stack), st')"
    using t by (cases ?r) (auto split: sum.split_asm prod.split_asm)
  with t show ?thesis by (auto simp: word_le_nat_alt word_less_nat_alt)
qed

end
