(* ===== verification/Spec2Isabelle.thy ===== *)
theory Spec2Isabelle
  imports JB_Health JB_Runtime JB_Block JB_Partition JB_Fat32 JB_Config JB_Elf64 JB_Update JB_HealthStore
    JB_KernelLoad JB_BootDisk JB_Kernel JB_EfiPaging
begin

text \<open>
  Verification of the JoshBIOS boot stack: the C code under \<open>src/boot\<close>, \<open>src/firmware\<close>,
  \<open>src/kernel\<close> and \<open>src/tools\<close>.

  \<^bold>\<open>The program.\<close> Stage 2 of the BIOS loader (\<open>boot/stage2_pm.c\<close>) runs in protected mode: it checks the
  processor and the memory map, finds the boot partition (\<open>core/partition.c\<close>), mounts it
  (\<open>core/fat32.c\<close>), reads and parses the configuration (\<open>core/config.c\<close>), loads the boot-health record
  from two fixed sectors, decides with it (\<open>core/health.c\<close>) which of three kernel slots to boot, tries
  the kernels of that slot and its fallbacks, validates the ELF image (\<open>elf64.c\<close>), places it, fills
  in the boot information (\<open>protocol.h\<close>), builds page tables and enters long mode. All disk access
  goes through the block device interface (\<open>core/block.h\<close>), which the BIOS loader implements with
  bounced BIOS calls; 64-bit division comes from \<open>runtime32.c\<close>. The UEFI loader (\<open>boot/uefi/main.c\<close>)
  does the same on firmware services. \<open>tools/josh-healthctl.c\<close> edits the health record of a disk image,
  \<open>firmware/update.c\<close> stages firmware updates into flash slots, and \<open>kernel/\<close> is the test kernel.

  \<^bold>\<open>How code becomes definitions.\<close> A structure is a record with the fields of the C structure, an
  enumeration a datatype (or the 32-bit constants, where the code stores it in a record), a C
  integer a word of its width. A pointer that is compared with null is an \<open>option\<close>, a status with an
  output parameter a sum or a tuple. A loop is a recursive function; a loop that could run forever is a
  \<open>partial_function (option)\<close>, so that a value \<open>None\<close> means it does not return, and that it does
  return is proved. There is no fuel: the counters of the loops are those of the code. Code that is not in
  the sources (the BIOS, the flash driver, the processor, UEFI services) is a parameter.

  \<^bold>\<open>Theories.\<close>
  \<^item> \<open>JB_Prelude\<close>: words, byte buffers, little-endian codecs. \<open>JB_Crc\<close>: the three CRC-32 routines,
    their equivalence, and that they detect every burst error of up to 32 bits.
  \<^item> \<open>JB_Health\<close>: \<open>core/health.c\<close>. Reachable records are valid, a pending update is rolled back after
    its attempts, the newest valid copy is chosen, damaged records are detected.
  \<^item> \<open>JB_Runtime\<close>: \<open>runtime32.c\<close>; the shift-and-subtract division is division.
  \<^item> \<open>JB_Block\<close>: \<open>core/block.h\<close>; the locale \<open>block_driver\<close> is the contract of a driver.
  \<^item> \<open>JB_Partition\<close>: \<open>core/partition.c\<close>; MBR and GPT. The partition found lies on the device, a GPT one
    only behind correct checksums, and a range reported as unallocated meets no partition.
  \<^item> \<open>JB_Fat32\<close>: \<open>core/fat32.c\<close>. What mounting establishes; reading a file delivers the bytes of its
    cluster chain; directory search is lookup; every call returns even on cyclic chains, and only
    sectors of the partition are read.
  \<^item> \<open>JB_Config\<close>: \<open>core/config.c\<close>. Printing then parsing is the identity, accepted configurations are
    well formed, numbers are parsed exactly, keys are neither unknown nor duplicate.
  \<^item> \<open>JB_Elf64\<close>: \<open>elf64.c\<close>. Exactly the images of a specification \<open>elf64_loadable\<close> are accepted, which
    reads the fields at their offsets and compares them with literal values; segments are handed out as
    validated, no byte outside the image is read.
  \<^item> \<open>JB_Update\<close>: \<open>firmware/update.c\<close>, over an abstract flash; the locale \<open>fw_flash\<close> is the contract of
    a flash back end. Nothing is erased before every check has passed, staging never touches the active
    slot, success means the image is in flash, no downgrade, trials are bounded.
  \<^item> \<open>JB_Memory\<close>: physical memory and the byte loops \<open>memzero\<close> and \<open>memcopy\<close>, also for overlapping
    ranges. \<open>JB_Bios\<close>: bounced BIOS disk access, an instance of \<open>block_driver\<close>. \<open>JB_Uart\<close>: the serial port
    with the wait for its transmitter, a partial function that returns on a port that keeps becoming ready.
  \<^item> \<open>JB_HealthStore\<close>: the two health sectors, in the loader and in \<open>josh-healthctl\<close>; the locale
    \<open>health_medium\<close> covers both. A write that is torn at any point leaves a valid record, and after every
    command of the tool the loader boots with the record the tool has shown.
  \<^item> \<open>JB_KernelLoad\<close>: from the partition to the kernel in the staging area. The first acceptable kernel of
    the fallback chain is loaded, and only the health sectors are ever written.
  \<^item> \<open>JB_Paging\<close>: \<open>build_page_tables\<close>, against the four-level translation \<open>x86_translate\<close>.
    \<open>JB_Placement\<close>: \<open>load_elf\<close>. \<open>JB_Protocol\<close>: \<open>protocol.h\<close>. \<open>JB_Stage2\<close>: the processor checks, the table
    scans, \<open>fill_boot_info\<close> and \<open>stage2_pm_main\<close>, with the theorem on what the kernel finds when it is
    entered, and the loader on a serial port, with when it comes to an end. \<open>JB_BootDisk\<close>: a
    complete disk and a run of the whole loader on it, the witness of the theorems on the composition.
  \<^item> \<open>JB_Efi\<close>, \<open>JB_EfiPaging\<close>: status values and helpers of the UEFI loader, and its page tables from a
    pool, with the proof that the pool of 48 pages suffices for a kernel of up to 64 megabytes.
  \<^item> \<open>JB_Kernel\<close>: the test kernel, with the content of its text screen and its serial report.

  \<^bold>\<open>State.\<close> The BIOS loader's state is the record \<open>stage2\<close>: the disk behind the BIOS (abstract, seen through
  its sectors), memory, the flag \<open>health_persistent_enabled\<close>, the messages on the serial port and the
  settings of the port. A message is recorded whole: nothing the loader does depends on the port, so
  \<open>stage2_on_uart\<close> runs the loader and sends its messages byte by byte, each after the wait for the
  transmitter. The buffers of the BIOS calls (the bounce buffer and the health sector buffer) are values of
  the model and not part of its memory.

  \<^bold>\<open>Hypotheses.\<close> Theorems on the composition assume of the BIOS only that a write changes no other
  sector (\<open>bios_writes_in_place\<close>). The type of the parameter \<open>bios\<close> adds that every disk call
  returns, with an answer that is determined by the disk, and that a read does not change the disk; a
  BIOS that hangs or returns varying data is outside the model. Theorems that need the serial port assume that it becomes ready again
  and again (\<open>uart_live\<close>). For the UEFI tables, \<open>allocates_pages\<close> is what the UEFI specification says of
  \<open>AllocatePages\<close> with a maximum address: page-aligned free memory below the limit, which is then in use.
  Each such theorem has a witness on a concrete instance.

  \<^bold>\<open>Limits found.\<close> The placement theorem needs the kernel to end below the staging area at 16 megabytes:
  beyond it \<open>load_elf\<close> overwrites the image it is reading, although it accepts such kernels. The UEFI
  tables map from the page of \<open>virtual_min\<close>, which agrees with the placement only for page-aligned kernels; the theorem on them is therefore about
  page-aligned kernels.

  \<^bold>\<open>Not modelled.\<close> The assembly stages and mode switches (their effects are parameters); of the UEFI loader
  the file access, the health variable, its \<open>load_elf\<close>, framebuffer, memory map capture and \<open>efi_main\<close>, which
  come next in the plan, in this order; what \<open>josh-healthctl\<close> prints to the error
  stream (its report on the standard output is modelled); build scripts and tests.
\<close>

end
